(* ===== verification/Throttle_Prelude.thy ===== *)
theory Throttle_Prelude
  imports Main "HOL-Library.Word" "HOL-Library.Monad_Syntax"
begin

text \<open>
  Shared vocabulary of the development: the C integer types and error codes the module returns,
  the kernel's object allocator, and the generic lemmas the component theories rest on.

  A kernel allocation (\<open>kmalloc\<close>, \<open>kzalloc\<close>, \<open>kmem_cache_alloc\<close>) either fails, returning NULL,
  or returns the address of an object that is distinct from every live object; \<open>kfree\<close> needs a live
  address or NULL. The heap below has exactly these two laws: whether the next attempt succeeds is
  decided by an arbitrary oracle \<open>alloc_ok\<close>, and an address is never handed out twice, so that a
  use after a free is visible. An operation that touches memory returns \<^typ>\<open>'a option\<close>, and
  \<open>None\<close> is a kernel fault: a load from, a store to, or a free of an address that is not live.
\<close>

unbundle bit_operations_syntax

named_theorems heap_simps \<open>rewriting of the allocator's operations\<close>
named_theorems fault_free \<open>operations that do not fault under the component invariants\<close>

section \<open>Integers and error codes\<close>

type_synonym u8 = "8 word"
type_synonym u32 = "32 word"
type_synonym u64 = "64 word"
type_synonym addr = nat
type_synonym cstring = "u8 list"

abbreviation (input) NULL :: addr where "NULL \<equiv> 0"

abbreviation (input) EPERM :: int where "EPERM \<equiv> 1"
abbreviation (input) ENOENT :: int where "ENOENT \<equiv> 2"
abbreviation (input) EAGAIN :: int where "EAGAIN \<equiv> 11"
abbreviation (input) ENOMEM :: int where "ENOMEM \<equiv> 12"
abbreviation (input) EFAULT :: int where "EFAULT \<equiv> 14"
abbreviation (input) EBUSY :: int where "EBUSY \<equiv> 16"
abbreviation (input) EEXIST :: int where "EEXIST \<equiv> 17"
abbreviation (input) EINVAL :: int where "EINVAL \<equiv> 22"
abbreviation (input) ENOSPC :: int where "ENOSPC \<equiv> 28"
abbreviation (input) EALREADY :: int where "EALREADY \<equiv> 114"
abbreviation (input) ERESTARTSYS :: int where "ERESTARTSYS \<equiv> 512"

lemma unat_of_nat_32: "n < 2 ^ 32 \<Longrightarrow> unat (of_nat n :: u32) = n"
  by (simp add: unsigned_of_nat take_bit_nat_eq_self)

lemma unat_add_1_32: "unat w < 2 ^ 32 - 1 \<Longrightarrow> unat (w + 1 :: u32) = unat w + 1"
  by (simp add: unat_word_ariths)

lemma unat_of_nat_64: "n < 2 ^ 64 \<Longrightarrow> unat (of_nat n :: u64) = n"
  by (simp add: unsigned_of_nat take_bit_nat_eq_self)

lemma unat_scast_small:
  assumes "unat (w :: u32) < 2 ^ 31"
  shows "unat (scast w :: u64) = unat w"
proof -
  have "sint w = uint w"
  proof -
    have "uint w < 2 ^ 31" using assms by (metis of_nat_less_iff of_nat_numeral of_nat_power uint_nat)
    then show ?thesis
      by (simp add: sint_uint signed_take_bit_int_eq_self_iff order_trans [OF _ uint_ge_0])
  qed
  then have "(scast w :: u64) = ucast w"
    by (metis of_int_sint of_int_uint)
  then show ?thesis
    using assms by (simp add: unsigned_ucast_eq take_bit_nat_eq_self)
qed

section \<open>The object heap\<close>

record 'o kheap =
  mem :: "addr \<rightharpoonup> 'o"
  brk :: addr
  alloc_ok :: "nat \<Rightarrow> bool"

definition kmalloc :: "'o \<Rightarrow> 'o kheap \<Rightarrow> addr \<times> 'o kheap" where
  "kmalloc x h =
     (if alloc_ok h (brk h)
      then (brk h, h\<lparr>mem := (mem h)(brk h \<mapsto> x), brk := Suc (brk h)\<rparr>)
      else (NULL, h\<lparr>brk := Suc (brk h)\<rparr>))"

definition kfree :: "addr \<Rightarrow> 'o kheap \<Rightarrow> 'o kheap option" where
  "kfree p h =
     (if p = NULL then Some h
      else case mem h p of None \<Rightarrow> None | Some _ \<Rightarrow> Some (h\<lparr>mem := (mem h)(p := None)\<rparr>))"

definition load :: "addr \<Rightarrow> 'o kheap \<Rightarrow> 'o option" where
  "load p h = mem h p"

definition store_obj :: "addr \<Rightarrow> 'o \<Rightarrow> 'o kheap \<Rightarrow> 'o kheap option" where
  "store_obj p x h =
     (case mem h p of None \<Rightarrow> None | Some _ \<Rightarrow> Some (h\<lparr>mem := (mem h)(p \<mapsto> x)\<rparr>))"

definition heap_wf :: "'o kheap \<Rightarrow> bool" where
  "heap_wf h \<longleftrightarrow> 0 < brk h \<and> (\<forall>a x. mem h a = Some x \<longrightarrow> 0 < a \<and> a < brk h)"

definition empty_heap :: "(nat \<Rightarrow> bool) \<Rightarrow> 'o kheap" where
  "empty_heap ok = \<lparr>mem = Map.empty, brk = 0x1000, alloc_ok = ok\<rparr>"

lemma heap_wf_empty [simp]: "heap_wf (empty_heap ok)"
  by (simp add: heap_wf_def empty_heap_def)

lemma heap_wfD: "heap_wf h \<Longrightarrow> mem h a = Some x \<Longrightarrow> 0 < a \<and> a < brk h"
  by (auto simp: heap_wf_def)

lemma heap_wf_brk: "heap_wf h \<Longrightarrow> 0 < brk h"
  by (simp add: heap_wf_def)

lemma heap_wf_fresh: "heap_wf h \<Longrightarrow> brk h \<le> a \<Longrightarrow> mem h a = None"
  by (metis heap_wf_def leD not_None_eq)

lemma heap_wf_null [simp]: "heap_wf h \<Longrightarrow> mem h NULL = None"
  by (metis heap_wf_def less_irrefl not_None_eq)

lemma kmalloc_cases:
  assumes "kmalloc x h = (p, h')" and "heap_wf h"
  obtains (fail) "p = NULL" "h' = h\<lparr>brk := Suc (brk h)\<rparr>"
  | (ok) "p = brk h" "p \<noteq> NULL" "h' = h\<lparr>mem := (mem h)(brk h \<mapsto> x), brk := Suc (brk h)\<rparr>"
  using assms by (auto simp: kmalloc_def heap_wf_def split: if_splits)

lemma heap_wf_kmalloc [intro]: "heap_wf h \<Longrightarrow> kmalloc x h = (p, h') \<Longrightarrow> heap_wf h'"
  by (auto simp: kmalloc_def heap_wf_def less_SucI split: if_splits)

lemma kmalloc_alloc_ok: "kmalloc x h = (p, h') \<Longrightarrow> alloc_ok h' = alloc_ok h"
  by (auto simp: kmalloc_def split: if_splits)

lemma kfree_live [heap_simps]:
  "p \<noteq> NULL \<Longrightarrow> mem h p = Some x \<Longrightarrow> kfree p h = Some (h\<lparr>mem := (mem h)(p := None)\<rparr>)"
  by (simp add: kfree_def)

lemma kfree_null [heap_simps]: "kfree NULL h = Some h"
  by (simp add: kfree_def)

lemma load_live [heap_simps]: "mem h p = Some x \<Longrightarrow> load p h = Some x"
  by (simp add: load_def)

lemma store_obj_live [heap_simps]:
  "mem h p = Some x \<Longrightarrow> store_obj p y h = Some (h\<lparr>mem := (mem h)(p \<mapsto> y)\<rparr>)"
  by (simp add: store_obj_def)

lemma heap_wf_mem_upd [intro]:
  "heap_wf h \<Longrightarrow> mem h p = Some x \<Longrightarrow> heap_wf (h\<lparr>mem := (mem h)(p \<mapsto> y)\<rparr>)"
  by (auto simp: heap_wf_def)

lemma heap_wf_mem_sub:
  "heap_wf h \<Longrightarrow> dom m \<subseteq> dom (mem h) \<Longrightarrow> heap_wf (h\<lparr>mem := m\<rparr>)"
  by (auto simp: heap_wf_def dom_def)

section \<open>Two-dimensional arrays\<close>

definition upd2 :: "('i \<Rightarrow> 'j \<Rightarrow> 'a) \<Rightarrow> 'i \<Rightarrow> 'j \<Rightarrow> 'a \<Rightarrow> ('i \<Rightarrow> 'j \<Rightarrow> 'a)" where
  "upd2 f t i v = f(t := (f t)(i := v))"

lemma upd2_apply [simp]: "upd2 f t i v t' i' = (if t' = t \<and> i' = i then v else f t' i')"
  by (simp add: upd2_def)

section \<open>Options and restriction of maps\<close>

lemma bind_Some_eq [simp]: "(Some x \<bind> f) = f x"
  by simp

lemma restrict_map_minus_insert:
  "(m(a := None)) |` (- S) = m |` (- insert a S)"
  by (auto simp: restrict_map_def fun_eq_iff)

lemma dom_restrict_minus: "dom (m |` (- S)) = dom m - S"
  by auto

end
