(* ===== verification/Cuckoo.thy ===== *)
theory Cuckoo
  imports Throttle_Prelude
begin

text \<open>
  The cuckoo hash table of \<open>sysThrot_store.c\<close> (lines 11-218): two tables of 128 slots whose
  slots hold a pointer to a heap object, the object's key and an occupied mark. The arrays are
  functions of the table number and the slot index; that every index the code computes lies inside
  the arrays is \<open>hash_in_table\<close>. A map is itself a heap object, and so is every item, so that
  clone, destroy and insert are judged on what they allocate and free.

  The code passes an item as \<open>const void *\<close> together with a \<open>compare\<close> and a \<open>clone_item\<close>
  function pointer. Here \<open>cmp\<close> and \<open>clone\<close> are arguments in the same way, and an item that is
  only read is passed as the object the pointer refers to.
\<close>

section \<open>Data\<close>

abbreviation TABLE_SIZE :: nat where "TABLE_SIZE \<equiv> 128"
abbreviation MASK :: u32 where "MASK \<equiv> 0x7F"
abbreviation MAX_KICKS :: nat where "MAX_KICKS \<equiv> 64"

record CuckooHash =
  table :: "nat \<Rightarrow> nat \<Rightarrow> addr"
  keys :: "nat \<Rightarrow> nat \<Rightarrow> u32"
  occupied :: "nat \<Rightarrow> nat \<Rightarrow> bool"

text \<open>What a kernel pointer of the store may refer to: an \<open>int\<close> (a user id), a NUL-terminated
  string (the bytes before the NUL), a map, or the store itself with its two map pointers.\<close>

datatype kobj =
    KInt u32
  | KStr cstring
  | KMap CuckooHash
  | KStore (user_map: addr) (program_map: addr)

type_synonym heap = "kobj kheap"
type_synonym compare_fn = "kobj \<Rightarrow> kobj \<Rightarrow> bool option"
type_synonym clone_fn = "kobj \<Rightarrow> heap \<Rightarrow> (addr \<times> heap) option"

definition load_map :: "addr \<Rightarrow> heap \<Rightarrow> CuckooHash option" where
  "load_map p h = (case load p h of Some (KMap m) \<Rightarrow> Some m | _ \<Rightarrow> None)"

text \<open>The loops over the table visit, for each index, the slot of the first table and then that
  of the second.\<close>

definition slots :: "(nat \<times> nat) list" where
  "slots = concat (map (\<lambda>i. [(0, i), (1, i)]) [0..<TABLE_SIZE])"

section \<open>Operations\<close>

definition empty_map :: CuckooHash where
  "empty_map = \<lparr>table = (\<lambda>_ _. NULL), keys = (\<lambda>_ _. 0), occupied = (\<lambda>_ _. False)\<rparr>"

definition create_map :: "heap \<Rightarrow> addr \<times> heap" where
  "create_map h = kmalloc (KMap empty_map) h"

primrec free_slots :: "CuckooHash \<Rightarrow> (nat \<times> nat) list \<Rightarrow> heap \<Rightarrow> heap option" where
  "free_slots m [] h = Some h"
| "free_slots m (s # ss) h = do {
     h \<leftarrow> (case s of (t, i) \<Rightarrow> if occupied m t i then kfree (table m t i) h else Some h);
     free_slots m ss h }"

definition destroy_map :: "addr \<Rightarrow> heap \<Rightarrow> heap option" where
  "destroy_map p h =
     (if p = NULL then Some h
      else do {
        m \<leftarrow> load_map p h;
        h \<leftarrow> free_slots m slots h;
        kfree p h })"

definition clone_slot ::
    "clone_fn \<Rightarrow> CuckooHash \<Rightarrow> nat \<Rightarrow> nat \<Rightarrow> CuckooHash \<Rightarrow> heap \<Rightarrow> (bool \<times> CuckooHash \<times> heap) option" where
  "clone_slot clone src t i dst h =
     (if occupied src t i then do {
        x \<leftarrow> load (table src t i) h;
        (p, h) \<leftarrow> clone x h;
        let dst = dst\<lparr>table := upd2 (table dst) t i p\<rparr>;
        if p = NULL then Some (False, dst, h)
        else Some (True, dst\<lparr>keys := upd2 (keys dst) t i (keys src t i),
                             occupied := upd2 (occupied dst) t i True\<rparr>, h) }
      else Some (True, dst, h))"

primrec clone_slots ::
    "clone_fn \<Rightarrow> CuckooHash \<Rightarrow> (nat \<times> nat) list \<Rightarrow> CuckooHash \<Rightarrow> heap \<Rightarrow> (bool \<times> CuckooHash \<times> heap) option" where
  "clone_slots clone src [] dst h = Some (True, dst, h)"
| "clone_slots clone src (s # ss) dst h = do {
     (ok, dst, h) \<leftarrow> clone_slot clone src (fst s) (snd s) dst h;
     if \<not> ok then Some (False, dst, h) else clone_slots clone src ss dst h }"

definition clone_map :: "addr \<Rightarrow> clone_fn \<Rightarrow> heap \<Rightarrow> (addr \<times> heap) option" where
  "clone_map src clone h = do {
     let (dst, h) = create_map h;
     if dst = NULL then Some (NULL, h)
     else do {
       m \<leftarrow> load_map src h;
       (ok, d, h) \<leftarrow> clone_slots clone m slots empty_map h;
       h \<leftarrow> store_obj dst (KMap d) h;
       if ok then Some (dst, h)
       else do {
         h \<leftarrow> destroy_map dst h;
         Some (NULL, h) } } }"

definition hash1 :: "u32 \<Rightarrow> u32" where
  "hash1 key =
     (let x = key;
          x = (drop_bit 16 x XOR x) * 0x45d9f3b;
          x = (drop_bit 16 x XOR x) * 0x45d9f3b;
          x = drop_bit 16 x XOR x
      in x AND MASK)"

definition hash2 :: "u32 \<Rightarrow> u32" where
  "hash2 key =
     (let x = key;
          x = (drop_bit 16 x XOR x) * 0x3335b369;
          x = (drop_bit 16 x XOR x) * 0x3335b369;
          x = drop_bit 16 x XOR x
      in x AND MASK)"

text \<open>One test of a slot: \<open>map->occupied[t][i] && compare(map->table[t][i], item)\<close>.\<close>

definition slot_matches :: "compare_fn \<Rightarrow> CuckooHash \<Rightarrow> nat \<Rightarrow> nat \<Rightarrow> kobj \<Rightarrow> heap \<Rightarrow> bool option" where
  "slot_matches cmp m t i item h =
     (if occupied m t i then do { x \<leftarrow> load (table m t i) h; cmp x item } else Some False)"

definition contains :: "addr \<Rightarrow> u32 \<Rightarrow> kobj \<Rightarrow> compare_fn \<Rightarrow> heap \<Rightarrow> int option" where
  "contains p key item cmp h = do {
     m \<leftarrow> load_map p h;
     b1 \<leftarrow> slot_matches cmp m 0 (unat (hash1 key)) item h;
     if b1 then Some 0
     else do {
       b2 \<leftarrow> slot_matches cmp m 1 (unat (hash2 key)) item h;
       if b2 then Some 0 else Some (-1) } }"

text \<open>Writing one slot, and the eviction loop. The loop reads and writes only the map's arrays; its
  first argument is the number of iterations left, and the evicted pointer comes back when the
  iterations are used up.\<close>

definition put_slot :: "CuckooHash \<Rightarrow> nat \<Rightarrow> nat \<Rightarrow> addr \<Rightarrow> u32 \<Rightarrow> CuckooHash" where
  "put_slot m t i p k =
     m\<lparr>table := upd2 (table m) t i p, keys := upd2 (keys m) t i k\<rparr>"

definition mark_slot :: "CuckooHash \<Rightarrow> nat \<Rightarrow> nat \<Rightarrow> CuckooHash" where
  "mark_slot m t i = m\<lparr>occupied := upd2 (occupied m) t i True\<rparr>"

primrec insert_loop :: "nat \<Rightarrow> CuckooHash \<Rightarrow> u32 \<Rightarrow> addr \<Rightarrow> CuckooHash \<times> addr option" where
  "insert_loop 0 m k p = (m, Some p)"
| "insert_loop (Suc n) m k p =
     (let h1 = unat (hash1 k) in
      if \<not> occupied m 0 h1 then (mark_slot (put_slot m 0 h1 p k) 0 h1, None)
      else
        let temp = table m 0 h1; temp_key = keys m 0 h1;
            m = put_slot m 0 h1 p k;
            h2 = unat (hash2 temp_key) in
        if \<not> occupied m 1 h2 then (mark_slot (put_slot m 1 h2 temp temp_key) 1 h2, None)
        else
          let temp2 = table m 1 h2; temp_key2 = keys m 1 h2;
              m = put_slot m 1 h2 temp temp_key
          in insert_loop n m temp_key2 temp2)"

definition insert_item :: "addr \<Rightarrow> u32 \<Rightarrow> addr \<Rightarrow> compare_fn \<Rightarrow> heap \<Rightarrow> (int \<times> heap) option" where
  "insert_item p key item cmp h = do {
     x \<leftarrow> load item h;
     c \<leftarrow> contains p key x cmp h;
     if c = 0 then Some (- EEXIST, h)
     else do {
       m \<leftarrow> load_map p h;
       (case insert_loop MAX_KICKS m key item of
          (m', None) \<Rightarrow> do { h \<leftarrow> store_obj p (KMap m') h; Some (0, h) }
        | (m', Some q) \<Rightarrow> do {
            h \<leftarrow> store_obj p (KMap m') h;
            h \<leftarrow> kfree q h;
            Some (- ENOSPC, h) }) } }"

definition clear_slot :: "CuckooHash \<Rightarrow> nat \<Rightarrow> nat \<Rightarrow> CuckooHash" where
  "clear_slot m t i =
     m\<lparr>table := upd2 (table m) t i NULL, keys := upd2 (keys m) t i 0,
       occupied := upd2 (occupied m) t i False\<rparr>"

definition remove_item :: "addr \<Rightarrow> u32 \<Rightarrow> kobj \<Rightarrow> compare_fn \<Rightarrow> heap \<Rightarrow> (int \<times> heap) option" where
  "remove_item p key item cmp h = do {
     m \<leftarrow> load_map p h;
     let h1 = unat (hash1 key);
     b1 \<leftarrow> slot_matches cmp m 0 h1 item h;
     if b1 then do {
       h \<leftarrow> kfree (table m 0 h1) h;
       h \<leftarrow> store_obj p (KMap (clear_slot m 0 h1)) h;
       Some (0, h) }
     else do {
       let h2 = unat (hash2 key);
       b2 \<leftarrow> slot_matches cmp m 1 h2 item h;
       if b2 then do {
         h \<leftarrow> kfree (table m 1 h2) h;
         h \<leftarrow> store_obj p (KMap (clear_slot m 1 h2)) h;
         Some (0, h) }
       else Some (-1, h) } }"

section \<open>Well-formed maps\<close>

definition hash_idx :: "nat \<Rightarrow> u32 \<Rightarrow> nat" where
  "hash_idx t k = (if t = 0 then unat (hash1 k) else unat (hash2 k))"

definition tab :: "CuckooHash \<Rightarrow> nat \<times> nat \<Rightarrow> addr" where
  "tab m = (\<lambda>(t, i). table m t i)"

definition occ :: "CuckooHash \<Rightarrow> (nat \<times> nat) set" where
  "occ m = {(t, i). occupied m t i}"

definition ptrs :: "CuckooHash \<Rightarrow> addr set" where
  "ptrs m = tab m ` occ m"

definition items :: "heap \<Rightarrow> CuckooHash \<Rightarrow> kobj set" where
  "items h m = {x. \<exists>t i. occupied m t i \<and> mem h (table m t i) = Some x}"

text \<open>An occupied slot holds a live object of the right kind, under the key of that object, in the
  slot its key hashes to; no two slots share an object and no two objects are equal.\<close>

definition slot_ok :: "(kobj \<Rightarrow> u32) \<Rightarrow> (kobj \<Rightarrow> bool) \<Rightarrow> heap \<Rightarrow> CuckooHash \<Rightarrow> nat \<Rightarrow> nat \<Rightarrow> bool" where
  "slot_ok key ok h m t i \<longleftrightarrow>
     t < 2 \<and> (\<exists>x. mem h (table m t i) = Some x \<and> ok x \<and> keys m t i = key x \<and> i = hash_idx t (key x))"

definition map_inv :: "(kobj \<Rightarrow> u32) \<Rightarrow> (kobj \<Rightarrow> bool) \<Rightarrow> heap \<Rightarrow> CuckooHash \<Rightarrow> bool" where
  "map_inv key ok h m \<longleftrightarrow>
     (\<forall>t i. occupied m t i \<longrightarrow> slot_ok key ok h m t i) \<and> inj_on (tab m) (occ m) \<and> inj_on (mem h) (ptrs m)"

definition map_at :: "(kobj \<Rightarrow> u32) \<Rightarrow> (kobj \<Rightarrow> bool) \<Rightarrow> heap \<Rightarrow> addr \<Rightarrow> CuckooHash \<Rightarrow> bool" where
  "map_at key ok h p m \<longleftrightarrow> mem h p = Some (KMap m) \<and> map_inv key ok h m"

definition footprint :: "addr \<Rightarrow> CuckooHash \<Rightarrow> addr set" where
  "footprint p m = insert p (ptrs m)"


subsection \<open>Slots and indices\<close>

lemma mask_bound: "unat (x AND MASK) < TABLE_SIZE"
proof -
  have "unat (x AND MASK) \<le> unat MASK"
    by (rule word_and_le1 [THEN word_le_nat_alt [THEN iffD1]])
  then show ?thesis by simp
qed

lemma hash_in_table: "hash_idx t k < TABLE_SIZE"
  by (simp add: hash_idx_def hash1_def hash2_def Let_def mask_bound)

lemma set_slots: "set slots = {(t, i). t < 2 \<and> i < TABLE_SIZE}"
  by (auto simp: slots_def)

lemma distinct_slots: "distinct slots"
proof -
  have "distinct (concat (map (\<lambda>i. [(0::nat, i), (1, i)]) xs))" if "distinct xs" for xs :: "nat list"
    using that by (induction xs) auto
  then show ?thesis by (simp add: slots_def)
qed

lemma length_slots: "length slots = 2 * TABLE_SIZE"
  by (simp add: slots_def length_concat comp_def sum_list_triv)

lemma occ_iff [simp]: "(t, i) \<in> occ m \<longleftrightarrow> occupied m t i"
  by (simp add: occ_def)

lemma tab_apply [simp]: "tab m (t, i) = table m t i"
  by (simp add: tab_def)

lemma ptrsI [intro]: "occupied m t i \<Longrightarrow> table m t i \<in> ptrs m"
  using image_eqI[of "table m t i" "tab m" "(t, i)" "occ m"] by (simp add: ptrs_def)

lemma ptrsE [elim]:
  assumes "a \<in> ptrs m"
  obtains t i where "occupied m t i" "a = table m t i"
  using assms by (auto simp: ptrs_def)

lemma items_ptrs: "items h m = {x. \<exists>a \<in> ptrs m. mem h a = Some x}"
  by (fastforce simp: items_def)

lemma map_inv_cong:
  assumes "\<And>a. a \<in> ptrs m \<Longrightarrow> mem h' a = mem h a"
  shows "map_inv key ok h' m = map_inv key ok h m"
proof -
  have "slot_ok key ok h' m t i = slot_ok key ok h m t i" if "occupied m t i" for t i
    using assms[OF ptrsI[OF that]] by (simp add: slot_ok_def)
  moreover have "inj_on (mem h') (ptrs m) = inj_on (mem h) (ptrs m)"
    using assms by (rule inj_on_cong)
  ultimately show ?thesis by (auto simp: map_inv_def)
qed

lemma items_cong:
  "(\<And>a. a \<in> ptrs m \<Longrightarrow> mem h' a = mem h a) \<Longrightarrow> items h' m = items h m"
  by (auto simp: items_ptrs)

lemma map_inv_frame [simp]:
  "p \<notin> ptrs m \<Longrightarrow> map_inv key ok (h\<lparr>mem := (mem h)(p := v)\<rparr>) m = map_inv key ok h m"
  by (rule map_inv_cong) auto

lemma items_frame [simp]: "p \<notin> ptrs m \<Longrightarrow> items (h\<lparr>mem := (mem h)(p := v)\<rparr>) m = items h m"
  by (rule items_cong) auto

lemma map_inv_slot:
  assumes "map_inv key ok h m" and "occupied m t i"
  obtains x where "mem h (table m t i) = Some x" "ok x" "keys m t i = key x" "i = hash_idx t (key x)" "t < 2"
  using assms by (auto simp: map_inv_def slot_ok_def)

lemma map_inv_ptrs:
  assumes "map_inv key ok h m" and "a \<in> ptrs m"
  obtains x where "mem h a = Some x" "ok x" "x \<in> items h m"
proof -
  obtain t i where o: "occupied m t i" "a = table m t i" using assms(2) by (rule ptrsE)
  obtain x where "mem h a = Some x" "ok x" using map_inv_slot[OF assms(1) o(1)] o(2) by metis
  with o that show ?thesis by (auto simp: items_def)
qed

lemma map_inv_index: "map_inv key ok h m \<Longrightarrow> occupied m t i \<Longrightarrow> (t, i) \<in> set slots"
  by (auto simp: set_slots hash_in_table elim!: map_inv_slot)

lemma map_inv_empty: "map_inv key ok h empty_map"
  by (simp add: map_inv_def empty_map_def occ_def ptrs_def)

lemma ptrs_empty [simp]: "ptrs empty_map = {}" and items_empty [simp]: "items h empty_map = {}"
  by (simp_all add: ptrs_def items_def occ_def empty_map_def)

lemma items_iff:
  assumes "map_inv key ok h m"
  shows "x \<in> items h m \<longleftrightarrow>
    occupied m 0 (unat (hash1 (key x))) \<and> mem h (table m 0 (unat (hash1 (key x)))) = Some x \<or>
    occupied m 1 (unat (hash2 (key x))) \<and> mem h (table m 1 (unat (hash2 (key x)))) = Some x"
proof
  assume "x \<in> items h m"
  then obtain t i where o: "occupied m t i" "mem h (table m t i) = Some x" by (auto simp: items_def)
  have "i = hash_idx t (key x)" "t < 2" using map_inv_slot[OF assms o(1)] o(2) by (metis option.inject)+
  with o show "occupied m 0 (unat (hash1 (key x))) \<and> mem h (table m 0 (unat (hash1 (key x)))) = Some x \<or>
    occupied m 1 (unat (hash2 (key x))) \<and> mem h (table m 1 (unat (hash2 (key x)))) = Some x"
    by (auto simp: hash_idx_def less_2_cases_iff)
qed (auto simp: items_def)

subsection \<open>Filling and replacing one slot\<close>

definition fill_slot :: "CuckooHash \<Rightarrow> nat \<Rightarrow> nat \<Rightarrow> addr \<Rightarrow> u32 \<Rightarrow> CuckooHash" where
  "fill_slot m t i p k = mark_slot (put_slot m t i p k) t i"

lemma tab_fill [simp]: "tab (fill_slot m t i p k) = (tab m)((t, i) := p)"
  by (auto simp: tab_def fill_slot_def mark_slot_def put_slot_def)

lemma occ_fill [simp]: "occ (fill_slot m t i p k) = insert (t, i) (occ m)"
  by (auto simp: occ_def fill_slot_def mark_slot_def put_slot_def)

lemma fill_occupied: "occupied m t i \<Longrightarrow> fill_slot m t i p k = put_slot m t i p k"
  by (cases m) (auto simp: fill_slot_def mark_slot_def put_slot_def upd2_def fun_eq_iff)

lemma ptrs_fill: "ptrs (fill_slot m t i p k) = insert p (tab m ` (occ m - {(t, i)}))"
  by (auto simp: ptrs_def)

lemma slot_ok_fill:
  assumes "map_inv key ok h m" and "mem h p = Some x" and "ok x" and "t < 2"
    and "i = hash_idx t (key x)" and "occupied (fill_slot m t i p (key x)) t' i'"
  shows "slot_ok key ok h (fill_slot m t i p (key x)) t' i'"
  using assms by (auto simp: map_inv_def slot_ok_def fill_slot_def mark_slot_def put_slot_def split: if_splits)

lemma fill_slot_inv:
  assumes inv: "map_inv key ok h m" and p: "mem h p = Some x" "ok x" "p \<notin> ptrs m" and t: "t < 2"
    and inj: "inj_on (mem h) (insert p (ptrs m))" and i: "i = hash_idx t (key x)"
  shows "map_inv key ok h (fill_slot m t i p (key x))"
proof -
  have "inj_on (tab m) (insert (t, i) (occ m) - {(t, i)})"
    using inv by (auto simp: map_inv_def elim: inj_on_subset)
  then have "inj_on ((tab m)((t, i) := p)) (insert (t, i) (occ m))"
    using p(3) by (auto simp: inj_on_def ptrs_def)
  moreover have "inj_on (mem h) (ptrs (fill_slot m t i p (key x)))"
    using inj by (rule inj_on_subset) (auto simp: ptrs_fill ptrs_def)
  ultimately show ?thesis
    using slot_ok_fill[OF inv p(1,2) t i] by (simp add: map_inv_def)
qed

lemma ptrs_fill_new: "\<not> occupied m t i \<Longrightarrow> ptrs (fill_slot m t i p k) = insert p (ptrs m)"
  by (auto simp: ptrs_fill ptrs_def)

lemma ptrs_fill_swap:
  assumes "map_inv key ok h m" and "occupied m t i" and "p \<notin> ptrs m"
  shows "table m t i \<notin> ptrs (fill_slot m t i p k)"
    and "insert (table m t i) (ptrs (fill_slot m t i p k)) = insert p (ptrs m)"
proof -
  have inj: "inj_on (tab m) (occ m)" using assms(1) by (simp add: map_inv_def)
  have "tab m ` (occ m - {(t, i)}) = ptrs m - {table m t i}"
    using inj_on_image_set_diff[OF inj, of "occ m" "{(t, i)}"] assms(2) by (auto simp: ptrs_def)
  then have *: "ptrs (fill_slot m t i p k) = insert p (ptrs m - {table m t i})"
    by (simp add: ptrs_fill)
  have "table m t i \<in> ptrs m" using assms(2) by (rule ptrsI)
  with assms(3) show "table m t i \<notin> ptrs (fill_slot m t i p k)"
    and "insert (table m t i) (ptrs (fill_slot m t i p k)) = insert p (ptrs m)"
    by (auto simp: *)
qed


subsection \<open>The eviction loop\<close>

text \<open>Whatever number of iterations is left, the loop keeps a well-formed map and loses no pointer:
  the pointers of the map and the pointer in hand are, together, those of before.\<close>

lemma insert_loop_inv:
  assumes "map_inv key ok h m" and "mem h p = Some x" and "ok x" and "p \<notin> ptrs m"
    and "inj_on (mem h) (insert p (ptrs m))" and "insert_loop n m (key x) p = (m', r)"
  shows "map_inv key ok h m' \<and>
    (case r of None \<Rightarrow> ptrs m' = insert p (ptrs m)
     | Some q \<Rightarrow> q \<notin> ptrs m' \<and> insert q (ptrs m') = insert p (ptrs m))"
  using assms
proof (induction n arbitrary: m p x)
  case 0
  then show ?case by auto
next
  case (Suc n)
  note prems = Suc.prems
  define i where "i = hash_idx 0 (key x)"
  define m1 where "m1 = fill_slot m 0 i p (key x)"
  have m1: "map_inv key ok h m1"
    unfolding m1_def by (rule fill_slot_inv[OF prems(1-4) _ prems(5) i_def]) simp
  show ?case
  proof (cases "occupied m 0 i")
    case False
    then have "m' = m1" "r = None"
      using prems(6) by (auto simp: Let_def i_def m1_def fill_slot_def hash_idx_def)
    with False m1 show ?thesis by (simp add: m1_def ptrs_fill_new)
  next
    case True
    define q where "q = table m 0 i"
    obtain y where y: "mem h q = Some y" "ok y" "keys m 0 i = key y"
      using map_inv_slot[OF prems(1) True] by (metis q_def)
    have q: "q \<notin> ptrs m1" "insert q (ptrs m1) = insert p (ptrs m)"
      using ptrs_fill_swap[OF prems(1) True prems(4)] by (simp_all add: q_def m1_def)
    then have qinj: "inj_on (mem h) (insert q (ptrs m1))" using prems(5) by simp
    define j where "j = hash_idx 1 (key y)"
    define m2 where "m2 = fill_slot m1 1 j q (key y)"
    have m2: "map_inv key ok h m2"
      unfolding m2_def by (rule fill_slot_inv[OF m1 y(1,2) q(1) _ qinj j_def]) simp
    have m1_put: "put_slot m 0 i p (key x) = m1" using True by (simp add: m1_def fill_occupied)
    show ?thesis
    proof (cases "occupied m1 1 j")
      case False
      then have "m' = m2" "r = None"
        using prems(6) True y(3) m1_put
        by (auto simp: Let_def i_def j_def m2_def q_def fill_slot_def hash_idx_def)
      with False m2 q(2) show ?thesis by (simp add: m2_def ptrs_fill_new)
    next
      case occ2: True
      define e where "e = table m1 1 j"
      obtain z where z: "mem h e = Some z" "ok z" "keys m1 1 j = key z"
        using map_inv_slot[OF m1 occ2] by (metis e_def)
      have e: "e \<notin> ptrs m2" "insert e (ptrs m2) = insert q (ptrs m1)"
        using ptrs_fill_swap[OF m1 occ2 q(1)] by (simp_all add: e_def m2_def)
      have m2_put: "put_slot m1 1 j q (key y) = m2" using occ2 by (simp add: m2_def fill_occupied)
      have "insert_loop n m2 (key z) e = (m', r)"
        using prems(6) True occ2 y(3) z(3) m1_put m2_put
        by (simp add: Let_def i_def j_def q_def e_def hash_idx_def)
      moreover have "inj_on (mem h) (insert e (ptrs m2))" using e(2) qinj by simp
      ultimately have "map_inv key ok h m' \<and>
        (case r of None \<Rightarrow> ptrs m' = insert e (ptrs m2)
         | Some q \<Rightarrow> q \<notin> ptrs m' \<and> insert q (ptrs m') = insert e (ptrs m2))"
        using Suc.IH[OF m2 z(1,2) e(1)] by blast
      then show ?thesis unfolding e(2) q(2) .
    qed
  qed
qed

lemma insert_loop_free: "\<not> occupied m 0 (unat (hash1 k)) \<Longrightarrow> snd (insert_loop (Suc n) m k p) = None"
  by (simp add: Let_def)

subsection \<open>Operations on a map, for any item type\<close>

text \<open>The contract of the two function pointers: \<open>compare\<close> decides equality of the objects and
  \<open>clone_item\<close> allocates an equal one. It is all the table relies on.\<close>

locale item_ops =
  fixes cmp :: compare_fn and clone :: clone_fn and key :: "kobj \<Rightarrow> u32" and ok :: "kobj \<Rightarrow> bool"
  assumes cmp_ok: "ok a \<Longrightarrow> ok b \<Longrightarrow> cmp a b = Some (a = b)"
    and clone_ok: "ok a \<Longrightarrow> clone a h = Some (kmalloc a h)"
    and ok_item [simp]: "\<not> ok (KMap m)" "\<not> ok (KStore u v)"
begin

lemma map_at_ptr: "map_at key ok h p m \<Longrightarrow> p \<notin> ptrs m"
  using ok_item(1) by (metis map_at_def map_inv_ptrs option.inject)

lemma load_map_at: "map_at key ok h p m \<Longrightarrow> load_map p h = Some m"
  by (simp add: map_at_def load_map_def load_def)

lemma slot_matches_eq:
  assumes "map_inv key ok h m" and "ok x"
  shows "slot_matches cmp m t i x h = Some (occupied m t i \<and> mem h (table m t i) = Some x)"
proof (cases "occupied m t i")
  case True
  from map_inv_slot[OF assms(1) this] obtain y where "mem h (table m t i) = Some y" "ok y" by metis
  with True show ?thesis by (simp add: slot_matches_def load_def cmp_ok assms(2))
qed (simp add: slot_matches_def)

lemma contains_eq:
  assumes "map_at key ok h p m" and "ok x"
  shows "contains p (key x) x cmp h = Some (if x \<in> items h m then 0 else -1)"
proof -
  have inv: "map_inv key ok h m" using assms(1) by (simp add: map_at_def)
  show ?thesis
    by (auto simp: contains_def load_map_at[OF assms(1)] slot_matches_eq[OF inv assms(2)]
        items_iff[OF inv])
qed

lemma insert_item_cases:
  assumes at: "map_at key ok h p m" and q: "mem h q = Some x" "ok x" "q \<notin> ptrs m"
    and new: "x \<notin> items h m" and wf: "heap_wf h"
  obtains (stored) m' where
      "insert_item p (key x) q cmp h = Some (0, h\<lparr>mem := (mem h)(p \<mapsto> KMap m')\<rparr>)"
      "map_inv key ok h m'" "ptrs m' = insert q (ptrs m)"
  | (full) m' e where
      "insert_item p (key x) q cmp h =
         Some (- ENOSPC, h\<lparr>mem := (mem h)(p \<mapsto> KMap m', e := None)\<rparr>)"
      "map_inv key ok h m'" "e \<notin> ptrs m'" "insert e (ptrs m') = insert q (ptrs m)"
      "occupied m 0 (unat (hash1 (key x)))"
proof -
  have inv: "map_inv key ok h m" using at by (simp add: map_at_def)
  have inj: "inj_on (mem h) (insert q (ptrs m))"
  proof -
    have "mem h a \<noteq> Some x" if "a \<in> ptrs m" for a
      using new that by (auto simp: items_ptrs)
    then have "mem h q \<notin> mem h ` (ptrs m - {q})" using q(1) by (metis DiffD1 imageE)
    then show ?thesis using inv by (simp add: map_inv_def)
  qed
  have qp: "q \<noteq> p" using at q ok_item(1) by (auto simp: map_at_def)
  obtain m' r where loop: "insert_loop MAX_KICKS m (key x) q = (m', r)" by fastforce
  note res = insert_loop_inv[OF inv q inj loop]
  have eq: "insert_item p (key x) q cmp h =
    (case r of None \<Rightarrow> Some (0, h\<lparr>mem := (mem h)(p \<mapsto> KMap m')\<rparr>)
     | Some e \<Rightarrow> kfree e (h\<lparr>mem := (mem h)(p \<mapsto> KMap m')\<rparr>) \<bind> (\<lambda>h. Some (- ENOSPC, h)))"
    using at q new loop
    by (auto simp: insert_item_def load_live contains_eq load_map_at map_at_def store_obj_live
        split: option.splits)
  show ?thesis
  proof (cases r)
    case None
    with eq res show ?thesis by (intro stored[of m']) simp_all
  next
    case (Some e)
    then have e: "e \<notin> ptrs m'" "insert e (ptrs m') = insert q (ptrs m)" using res by auto
    then have "e \<in> insert q (ptrs m)" by blast
    then obtain y where "mem h e = Some y" "e \<noteq> p"
      using q(1) qp map_at_ptr[OF at] map_inv_ptrs[OF inv] by (metis insert_iff)
    moreover have "occupied m 0 (unat (hash1 (key x)))"
      using loop Some insert_loop_free[of m "key x" "MAX_KICKS - 1" q] by force
    ultimately show ?thesis
      using eq res Some e heap_wfD[OF wf] by (intro full[of m' e]) (auto simp: kfree_def)
  qed
qed


lemma clear_slot_inv:
  assumes "map_inv key ok h m" and "occupied m t i"
  shows "map_inv key ok h (clear_slot m t i)" and "ptrs (clear_slot m t i) = ptrs m - {table m t i}"
proof -
  have occ: "occ (clear_slot m t i) = occ m - {(t, i)}"
    by (auto simp: occ_def clear_slot_def)
  have tab: "tab (clear_slot m t i) s = tab m s" if "s \<noteq> (t, i)" for s
    using that by (cases s) (auto simp: clear_slot_def)
  have inj: "inj_on (tab m) (occ m)" "inj_on (mem h) (ptrs m)"
    using assms(1) by (simp_all add: map_inv_def)
  have "ptrs (clear_slot m t i) = tab m ` (occ m - {(t, i)})"
    unfolding ptrs_def occ by (rule image_cong) (auto simp: tab)
  also have "\<dots> = ptrs m - {table m t i}"
    using inj_on_image_set_diff[OF inj(1), of "occ m" "{(t, i)}"] assms(2) by (auto simp: ptrs_def)
  finally show p: "ptrs (clear_slot m t i) = ptrs m - {table m t i}" .
  have "inj_on (tab (clear_slot m t i)) (occ m - {(t, i)}) = inj_on (tab m) (occ m - {(t, i)})"
    by (rule inj_on_cong) (auto simp: tab)
  then have "inj_on (tab (clear_slot m t i)) (occ (clear_slot m t i))"
    using inj(1) by (auto simp: occ elim: inj_on_subset)
  moreover have "slot_ok key ok h (clear_slot m t i) t' i'" if "occupied (clear_slot m t i) t' i'" for t' i'
    using that assms(1) by (auto simp: map_inv_def slot_ok_def clear_slot_def split: if_splits)
  ultimately show "map_inv key ok h (clear_slot m t i)"
    using inj(2) by (auto simp: map_inv_def p elim: inj_on_subset)
qed

lemma remove_item_found:
  assumes at: "map_at key ok h p m" and x: "ok x" "x \<in> items h m" and wf: "heap_wf h"
  obtains m' q where "remove_item p (key x) x cmp h = Some (0, h\<lparr>mem := (mem h)(q := None, p \<mapsto> KMap m')\<rparr>)"
    "map_inv key ok h m'" "q \<in> ptrs m" "mem h q = Some x" "ptrs m' = ptrs m - {q}"
proof -
  have inv: "map_inv key ok h m" using at by (simp add: map_at_def)
  define i where "i t = hash_idx t (key x)" for t
  define hit where "hit t \<longleftrightarrow> occupied m t (i t) \<and> mem h (table m t (i t)) = Some x" for t
  have "hit 0 \<or> hit 1"
    using x(2) by (auto simp: items_iff[OF inv] hit_def i_def hash_idx_def)
  then obtain t where t: "hit t" and first: "t = 0 \<or> (t = 1 \<and> \<not> hit 0)" by auto
  define q where "q = table m t (i t)"
  have q: "q \<in> ptrs m" "mem h q = Some x" "occupied m t (i t)"
    using t by (auto simp: hit_def q_def)
  have "q \<noteq> p" using q(1) map_at_ptr[OF at] by auto
  have "q \<noteq> NULL" using heap_wfD[OF wf q(2)] by simp
  have "kfree q h = Some (h\<lparr>mem := (mem h)(q := None)\<rparr>)"
    using \<open>q \<noteq> NULL\<close> q(2) by (rule kfree_live)
  moreover have "store_obj p y (h\<lparr>mem := (mem h)(q := None)\<rparr>) =
      Some (h\<lparr>mem := (mem h)(q := None, p \<mapsto> y)\<rparr>)" for y
    using at \<open>q \<noteq> p\<close> by (simp add: store_obj_def map_at_def)
  ultimately have "remove_item p (key x) x cmp h =
      Some (0, h\<lparr>mem := (mem h)(q := None, p \<mapsto> KMap (clear_slot m t (i t)))\<rparr>)"
    using first t
    by (auto simp: remove_item_def load_map_at[OF at] slot_matches_eq[OF inv x(1)] hit_def i_def
        hash_idx_def q_def Let_def)
  then show ?thesis
    using clear_slot_inv[OF inv q(3)] q by (intro that) (auto simp: q_def)
qed

lemma remove_item_absent:
  assumes at: "map_at key ok h p m" and x: "ok x" "x \<notin> items h m"
  shows "remove_item p (key x) x cmp h = Some (-1, h)"
proof -
  have inv: "map_inv key ok h m" using at by (simp add: map_at_def)
  show ?thesis
    using x(2) by (auto simp: remove_item_def load_map_at[OF at] slot_matches_eq[OF inv x(1)]
        items_iff[OF inv] Let_def)
qed

lemma free_slots_eq:
  assumes "map_inv key ok h0 m" and "distinct ss" and "heap_wf h"
    and "\<And>s. s \<in> set ss \<Longrightarrow> s \<in> occ m \<Longrightarrow> mem h (tab m s) = mem h0 (tab m s)"
  shows "free_slots m ss h = Some (h\<lparr>mem := mem h |` (- (tab m ` (set ss \<inter> occ m)))\<rparr>)"
  using assms(2-)
proof (induction ss arbitrary: h)
  case Nil
  then show ?case by simp
next
  case (Cons s ss)
  obtain t i where s: "s = (t, i)" by fastforce
  show ?case
  proof (cases "occupied m t i")
    case False
    with Cons s show ?thesis by (auto simp: Int_insert_left)
  next
    case True
    obtain x where "mem h (table m t i) = Some x"
      using map_inv_slot[OF assms(1) True] Cons.prems(3)[of s] True s by auto
    moreover from this have "table m t i \<noteq> NULL" using heap_wfD[OF Cons.prems(2)] by fastforce
    ultimately have free: "kfree (table m t i) h = Some (h\<lparr>mem := (mem h)(table m t i := None)\<rparr>)"
      by (simp add: kfree_live)
    let ?h = "h\<lparr>mem := (mem h)(table m t i := None)\<rparr>"
    have inj: "inj_on (tab m) (occ m)" using assms(1) by (simp add: map_inv_def)
    have "mem ?h (tab m s') = mem h0 (tab m s')" if "s' \<in> set ss" "s' \<in> occ m" for s'
    proof -
      have "tab m s' \<noteq> tab m s" using that Cons.prems(1) True s inj_on_eq_iff[OF inj, of s' s] by auto
      then show ?thesis using Cons.prems(3)[of s'] that s by simp
    qed
    moreover have "heap_wf ?h" using Cons.prems(2) by (rule heap_wf_mem_sub) auto
    ultimately have "free_slots m ss ?h = Some (?h\<lparr>mem := mem ?h |` (- (tab m ` (set ss \<inter> occ m)))\<rparr>)"
      using Cons.prems(1) by (intro Cons.IH) simp_all
    moreover have "mem ?h |` (- (tab m ` (set ss \<inter> occ m))) = mem h |` (- (tab m ` (set (s # ss) \<inter> occ m)))"
      using True s by (auto simp: restrict_map_def fun_eq_iff Int_insert_left)
    ultimately show ?thesis using True free s by simp
  qed
qed

lemma destroy_map_eq:
  assumes at: "map_at key ok h p m" and wf: "heap_wf h"
  shows "destroy_map p h = Some (h\<lparr>mem := mem h |` (- footprint p m)\<rparr>)"
proof -
  have inv: "map_inv key ok h m" using at by (simp add: map_at_def)
  have "set slots \<inter> occ m = occ m"
    using map_inv_index[OF inv] by auto
  then have *: "free_slots m slots h = Some (h\<lparr>mem := mem h |` (- ptrs m)\<rparr>)"
    using free_slots_eq[OF inv distinct_slots wf] by (simp add: ptrs_def)
  have p: "p \<noteq> NULL" "p \<notin> ptrs m" "mem h p = Some (KMap m)"
    using at heap_wfD[OF wf] map_at_ptr[OF at] by (auto simp: map_at_def)
  then have "kfree p (h\<lparr>mem := mem h |` (- ptrs m)\<rparr>) =
      Some (h\<lparr>mem := (mem h |` (- ptrs m))(p := None)\<rparr>)"
    by (simp add: kfree_def)
  moreover have "(mem h |` (- ptrs m))(p := None) = mem h |` (- footprint p m)"
    by (auto simp: footprint_def restrict_map_def fun_eq_iff)
  ultimately show ?thesis
    using p * by (simp add: destroy_map_def load_map_at[OF at])
qed


text \<open>The copy loop, after the slots of \<open>D\<close>: the copy has exactly the source's occupied slots of
  \<open>D\<close>, each with an equal object of its own that was allocated after \<open>h0\<close>, and the rest of the
  memory is as in \<open>h0\<close>.\<close>

definition cloned :: "CuckooHash \<Rightarrow> CuckooHash \<Rightarrow> (nat \<times> nat) set \<Rightarrow> heap \<Rightarrow> heap \<Rightarrow> bool" where
  "cloned src dst D h0 h \<longleftrightarrow>
     occ dst = occ src \<inter> D \<and>
     (\<forall>t i. occupied dst t i \<longrightarrow> keys dst t i = keys src t i) \<and>
     (\<forall>s \<in> occ dst. mem h (tab dst s) = mem h0 (tab src s) \<and> brk h0 \<le> tab dst s \<and> tab dst s < brk h) \<and>
     inj_on (tab dst) (occ dst) \<and>
     (\<forall>a. a \<notin> ptrs dst \<longrightarrow> mem h a = mem h0 a) \<and> brk h0 \<le> brk h \<and> heap_wf h"

lemma cloned_init: "heap_wf h \<Longrightarrow> cloned src empty_map {} h h"
  by (simp add: cloned_def occ_def empty_map_def)

lemma cloned_skip: "cloned src dst D h0 h \<Longrightarrow> s \<notin> occ src \<Longrightarrow> cloned src dst (insert s D) h0 h"
  by (auto simp: cloned_def)

lemma cloned_fail:
  assumes "cloned src dst D h0 h" and "(t, i) \<notin> D"
  shows "cloned src (dst\<lparr>table := upd2 (table dst) t i p\<rparr>) D h0 (h\<lparr>brk := Suc (brk h)\<rparr>)"
proof -
  let ?d = "dst\<lparr>table := upd2 (table dst) t i p\<rparr>"
  have occ: "occ ?d = occ dst" by (simp add: occ_def)
  have tab: "tab ?d s = tab dst s" if "s \<in> occ dst" for s
    using that assms by (cases s) (auto simp: cloned_def)
  have ptrs: "ptrs ?d = ptrs dst" unfolding ptrs_def occ by (rule image_cong) (auto simp: tab)
  have "inj_on (tab ?d) (occ dst) = inj_on (tab dst) (occ dst)"
    by (rule inj_on_cong) (auto simp: tab)
  with assms(1) show ?thesis
    unfolding cloned_def occ ptrs by (auto simp: tab heap_wf_def less_Suc_eq)
qed

lemma cloned_step:
  assumes cl: "cloned src dst D h0 h" and s: "occupied src t i" "(t, i) \<notin> D"
    and x: "mem h0 (table src t i) = Some x"
  defines "d \<equiv> dst\<lparr>table := upd2 (table dst) t i (brk h), keys := upd2 (keys dst) t i (keys src t i),
                occupied := upd2 (occupied dst) t i True\<rparr>"
  shows "cloned src d (insert (t, i) D) h0 (h\<lparr>mem := (mem h)(brk h \<mapsto> x), brk := Suc (brk h)\<rparr>)"
proof -
  let ?h = "h\<lparr>mem := (mem h)(brk h \<mapsto> x), brk := Suc (brk h)\<rparr>"
  have occ: "occ d = insert (t, i) (occ dst)" by (auto simp: d_def occ_def)
  have nd: "(t, i) \<notin> occ dst" using cl s(2) by (auto simp: cloned_def)
  have tab: "tab d = (tab dst)((t, i) := brk h)"
    by (auto simp: d_def tab_def fun_eq_iff)
  have fresh: "brk h \<notin> tab dst ` occ dst" using cl unfolding cloned_def by (metis imageE less_irrefl)
  have ptrs: "ptrs d = insert (brk h) (ptrs dst)" using nd by (auto simp: ptrs_def occ tab)
  have inj: "inj_on (tab d) (occ d)"
    using cl nd fresh by (auto simp: cloned_def occ tab inj_on_fun_updI)
  have wf: "heap_wf ?h" using cl by (auto simp: cloned_def heap_wf_def less_Suc_eq)
  have old: "mem ?h (tab d s) = mem h0 (tab src s) \<and> brk h0 \<le> tab d s \<and> tab d s < brk ?h"
    if "s \<in> occ d" for s
  proof (cases "s = (t, i)")
    case True
    then show ?thesis using x cl by (simp add: tab cloned_def)
  next
    case False
    then have "s \<in> occ dst" using that by (simp add: occ)
    moreover from this have "tab dst s \<noteq> brk h" using fresh by (metis imageI)
    ultimately show ?thesis using False cl by (auto simp: tab cloned_def less_Suc_eq)
  qed
  have keys: "occupied d t' i' \<longrightarrow> keys d t' i' = keys src t' i'" for t' i'
    using cl by (auto simp: d_def cloned_def)
  show ?thesis
    unfolding cloned_def using cl s(1) inj wf old keys occ ptrs by (auto simp: cloned_def)
qed


lemma cloned_inv:
  assumes inv: "map_inv key ok h0 src" and cl: "cloned src dst D h0 h"
  shows "map_inv key ok h dst"
proof -
  have sub: "occ dst \<subseteq> occ src" using cl by (auto simp: cloned_def)
  have mem: "mem h (tab dst s) = mem h0 (tab src s)" if "s \<in> occ dst" for s
    using cl that by (simp add: cloned_def)
  have "slot_ok key ok h dst t i" if "occupied dst t i" for t i
  proof -
    have "(t, i) \<in> occ src" using that sub by (metis occ_iff subsetD)
    then have "slot_ok key ok h0 src t i" using inv by (simp add: map_inv_def)
    moreover have "keys dst t i = keys src t i" using cl that by (simp add: cloned_def)
    ultimately show ?thesis using mem[of "(t, i)"] that by (simp add: slot_ok_def)
  qed
  moreover have "inj_on (mem h) (ptrs dst)"
  proof -
    have "inj_on (mem h0 \<circ> tab src) (occ src)"
      using inv by (auto simp: map_inv_def ptrs_def comp_inj_on)
    then have "inj_on (mem h0 \<circ> tab src) (occ dst)" using sub by (rule inj_on_subset)
    moreover have "inj_on (mem h \<circ> tab dst) (occ dst) = inj_on (mem h0 \<circ> tab src) (occ dst)"
      by (rule inj_on_cong) (simp add: mem)
    ultimately show ?thesis unfolding ptrs_def by (metis inj_on_imageI)
  qed
  ultimately show ?thesis using cl unfolding map_inv_def cloned_def by metis
qed

lemma cloned_items:
  assumes "cloned src dst D h0 h" and "occ src \<subseteq> D"
  shows "items h dst = items h0 src"
proof -
  have o: "occ dst = occ src" and m: "\<forall>s \<in> occ dst. mem h (tab dst s) = mem h0 (tab src s)"
    using assms by (auto simp: cloned_def)
  have "items g m = {x. \<exists>s \<in> occ m. mem g (tab m s) = Some x}" for g m
    by (auto simp: items_ptrs ptrs_def)
  with o m show ?thesis by auto
qed

lemma clone_slots_cloned:
  assumes inv: "map_inv key ok h0 src" and wf0: "heap_wf h0"
    and "cloned src dst D h0 h" and "distinct ss" and "set ss \<inter> D = {}"
  shows "\<exists>b d h' D'. clone_slots clone src ss dst h = Some (b, d, h') \<and> cloned src d D' h0 h' \<and>
    alloc_ok h' = alloc_ok h \<and> (b \<longrightarrow> D' = D \<union> set ss) \<and> (\<not> b \<longrightarrow> (\<exists>n. \<not> alloc_ok h n))"
  using assms(3-)
proof (induction ss arbitrary: dst D h)
  case Nil
  then show ?case by auto
next
  case (Cons s ss)
  obtain t i where s: "s = (t, i)" by fastforce
  have nD: "(t, i) \<notin> D" using Cons.prems s by auto
  show ?case
  proof (cases "occupied src t i")
    case False
    then have "cloned src dst (insert s D) h0 h" using Cons.prems(1) s by (simp add: cloned_skip)
    from Cons.IH[OF this] Cons.prems False s show ?thesis by (auto simp: clone_slot_def)
  next
    case True
    obtain x where x: "mem h0 (table src t i) = Some x" "ok x"
      using map_inv_slot[OF inv True] by metis
    have "table src t i \<notin> ptrs dst"
      using heap_wfD[OF wf0 x(1)] Cons.prems(1) unfolding cloned_def ptrs_def by (metis imageE leD)
    then have hx: "mem h (table src t i) = Some x" using Cons.prems(1) x(1) by (simp add: cloned_def)
    have wf: "heap_wf h" using Cons.prems(1) by (simp add: cloned_def)
    obtain p h1 where k: "kmalloc x h = (p, h1)" by fastforce
    note aok = kmalloc_alloc_ok[OF k]
    from k wf show ?thesis
    proof (cases rule: kmalloc_cases)
      case fail
      moreover have "\<not> alloc_ok h (brk h)" using fail(1) k heap_wf_brk[OF wf] by (auto simp: kmalloc_def split: if_splits)
      ultimately show ?thesis
        using True hx x(2) k s cloned_fail[OF Cons.prems(1) nD, of NULL]
        by (auto simp: clone_slot_def load_def clone_ok)
    next
      case ok
      note st = cloned_step[OF Cons.prems(1) True nD x(1)]
      have "\<exists>b d h' D'. clone_slots clone src ss (dst\<lparr>table := upd2 (table dst) t i p,
            keys := upd2 (keys dst) t i (keys src t i), occupied := upd2 (occupied dst) t i True\<rparr>) h1
            = Some (b, d, h') \<and> cloned src d D' h0 h' \<and> alloc_ok h' = alloc_ok h1 \<and>
            (b \<longrightarrow> D' = insert (t, i) D \<union> set ss) \<and> (\<not> b \<longrightarrow> (\<exists>n. \<not> alloc_ok h1 n))"
        using st Cons.prems s unfolding ok(1,3) by (intro Cons.IH) auto
      then show ?thesis
        using True hx x(2) k s ok(2) aok by (simp add: clone_slot_def load_def clone_ok)
    qed
  qed
qed

text \<open>What storing the finished (or abandoned) copy \<open>d\<close> in the new map object gives; \<open>new_map h\<close>
  is the heap after the allocation of that object.\<close>

definition new_map :: "heap \<Rightarrow> heap" where
  "new_map h = h\<lparr>mem := (mem h)(brk h \<mapsto> KMap empty_map), brk := Suc (brk h)\<rparr>"

lemma alloc_new_map [simp]: "alloc_ok (new_map h) = alloc_ok h"
  by (simp add: new_map_def)

lemma new_map_source:
  assumes inv: "map_inv key ok h m" and wf: "heap_wf h"
  shows "map_inv key ok (new_map h) m" and "items (new_map h) m = items h m"
proof -
  have "mem (new_map h) a = mem h a" if "a \<in> ptrs m" for a
    using map_inv_ptrs[OF inv that] heap_wfD[OF wf] by (metis fun_upd_apply kheap.select_convs(1)
        kheap.surjective kheap.update_convs(1,2) less_irrefl new_map_def)
  then show "map_inv key ok (new_map h) m" and "items (new_map h) m = items h m"
    using inv map_inv_cong[of m "new_map h" h key ok] items_cong[of m "new_map h" h] by auto
qed

lemma cloned_stored:
  assumes inv: "map_inv key ok h m" and wf: "heap_wf h" and cl: "cloned m d D (new_map h) h2"
  defines "h3 \<equiv> h2\<lparr>mem := (mem h2)(brk h \<mapsto> KMap d)\<rparr>"
  shows "mem h2 (brk h) = Some (KMap empty_map)" and "brk h \<notin> ptrs d" and "map_at key ok h3 (brk h) d"
    and "\<And>a. a \<notin> footprint (brk h) d \<Longrightarrow> mem h3 a = mem h a"
    and "\<And>a. a \<in> footprint (brk h) d \<Longrightarrow> brk h \<le> a \<and> a < brk h3"
    and "heap_wf h3" and "brk h \<le> brk h3"
proof -
  have wf2: "heap_wf h2" and b2: "Suc (brk h) \<le> brk h2" using cl by (auto simp: cloned_def new_map_def)
  have pd: "Suc (brk h) \<le> a \<and> a < brk h2" if "a \<in> ptrs d" for a
    using that cl unfolding cloned_def ptrs_def new_map_def by (metis (no_types, lifting) imageE
        kheap.select_convs(2) kheap.surjective kheap.update_convs(1,2))
  show qd: "brk h \<notin> ptrs d" using pd by fastforce
  then show q2: "mem h2 (brk h) = Some (KMap empty_map)" using cl by (simp add: cloned_def new_map_def)
  show "map_at key ok h3 (brk h) d"
    using cloned_inv[OF new_map_source(1)[OF inv wf] cl] qd
    by (simp add: map_at_def h3_def)
  show "mem h3 a = mem h a" if "a \<notin> footprint (brk h) d" for a
    using that cl by (simp add: h3_def footprint_def cloned_def new_map_def)
  show "brk h \<le> a \<and> a < brk h3" if "a \<in> footprint (brk h) d" for a
    using that pd[of a] b2 by (auto simp: footprint_def h3_def)
  show "heap_wf h3" unfolding h3_def using wf2 q2 by (rule heap_wf_mem_upd)
  show "brk h \<le> brk h3" using b2 by (simp add: h3_def)
qed

lemma clone_map_cases:
  assumes at: "map_at key ok h p m" and wf: "heap_wf h"
  obtains (nomem) h' where "clone_map p clone h = Some (NULL, h')" "mem h' = mem h"
      "heap_wf h'" "brk h \<le> brk h'" "alloc_ok h' = alloc_ok h" "\<exists>n. \<not> alloc_ok h n"
  | (copy) q h' m' where "clone_map p clone h = Some (q, h')" "q \<noteq> NULL" "map_at key ok h' q m'"
      "items h' m' = items h m" "\<And>a. a \<notin> footprint q m' \<Longrightarrow> mem h' a = mem h a"
      "\<And>a. a \<in> footprint q m' \<Longrightarrow> brk h \<le> a \<and> a < brk h'"
      "heap_wf h'" "brk h \<le> brk h'" "alloc_ok h' = alloc_ok h"
proof (cases "alloc_ok h (brk h)")
  case False
  then show ?thesis
    using wf by (intro nomem[of "h\<lparr>brk := Suc (brk h)\<rparr>"])
      (auto simp: clone_map_def create_map_def kmalloc_def heap_wf_def less_Suc_eq)
next
  case True
  have c: "create_map h = (brk h, new_map h)" and wf1: "heap_wf (new_map h)"
    using True wf by (auto simp: create_map_def kmalloc_def new_map_def heap_wf_def less_Suc_eq)
  have inv: "map_inv key ok h m" and pm: "mem h p = Some (KMap m)" using at by (auto simp: map_at_def)
  have at1: "load_map p (new_map h) = Some m"
    using pm heap_wfD[OF wf pm] by (simp add: load_map_def load_def new_map_def)
  note src = new_map_source[OF inv wf]
  obtain b d h2 D where d: "clone_slots clone m slots empty_map (new_map h) = Some (b, d, h2)"
      "cloned m d D (new_map h) h2" "alloc_ok h2 = alloc_ok (new_map h)" "b \<longrightarrow> D = set slots" "\<not> b \<longrightarrow> (\<exists>n. \<not> alloc_ok h n)"
    using clone_slots_cloned[OF src(1) wf1 cloned_init[OF wf1] distinct_slots]
    by (simp, metis)
  define h3 where "h3 = h2\<lparr>mem := (mem h2)(brk h \<mapsto> KMap d)\<rparr>"
  note st = cloned_stored[OF inv wf d(2), folded h3_def]
  have eq: "clone_map p clone h =
      (if b then Some (brk h, h3) else destroy_map (brk h) h3 \<bind> (\<lambda>h. Some (NULL, h)))"
    using c at1 d(1) st(1) heap_wf_brk[OF wf] by (simp add: clone_map_def store_obj_def h3_def)
  have aok: "alloc_ok h3 = alloc_ok h" using d(3) by (simp add: h3_def new_map_def)
  show ?thesis
  proof (cases b)
    case True
    have "occ m \<subseteq> set slots" using map_inv_index[OF inv] by auto
    then have "items h3 d = items h m"
      using cloned_items[OF d(2)] d(4) True st(2) src(2) by (simp add: h3_def)
    with True eq st aok heap_wf_brk[OF wf] show ?thesis by (intro copy[of "brk h" h3 d]) simp_all
  next
    case False
    have "mem h3 |` (- footprint (brk h) d) = mem h"
      using st(4,5) heap_wf_fresh[OF wf] by (auto simp: restrict_map_def fun_eq_iff)
    then have "clone_map p clone h = Some (NULL, h3\<lparr>mem := mem h\<rparr>)"
      using False eq destroy_map_eq[OF st(3,6)] by simp
    moreover have "heap_wf (h3\<lparr>mem := mem h\<rparr>)"
      using wf st(7) unfolding heap_wf_def by (simp, metis less_le_trans)
    ultimately show ?thesis using st(7) aok False d(5) by (intro nomem[of "h3\<lparr>mem := mem h\<rparr>"]) simp_all
  qed
qed

end

end
