(* ===== verification/Store.thy ===== *)
theory Store
  imports Cuckoo
begin

text \<open>
  The store of monitored users and programs (\<open>sysThrot_store.c\<close>, lines 220-513): two cuckoo maps
  behind one heap object. A writer never changes a published map: it clones the map, changes the
  clone, publishes the clone's address and destroys the old map. The functions for users and those
  for programs are the same text over different \<open>compare\<close>, \<open>clone\<close> and key functions; the
  common part up to the publication is \<open>prepare_add\<close> and \<open>prepare_remove\<close>, which take these
  functions as arguments. The critical section under \<open>write_lock\<close> is one step here.
\<close>

section \<open>Keys, comparison and cloning\<close>

definition getKeyFromUserId :: "u32 \<Rightarrow> u32" where
  "getKeyFromUserId user_id = user_id"

text \<open>The kernel builds with unsigned \<open>char\<close> and wrapping \<open>int\<close>; \<open>% 0xFFFFFFFF\<close> is an unsigned
  remainder.\<close>

fun program_hash :: "u32 \<Rightarrow> cstring \<Rightarrow> u32" where
  "program_hash hash [] = hash"
| "program_hash hash (c # cs) = program_hash ((hash * 31 + ucast c) mod 0xFFFFFFFF) cs"

definition getKeyFromProgramName :: "cstring \<Rightarrow> u32" where
  "getKeyFromProgramName program_name = program_hash 0 program_name"

text \<open>\<open>strcmp\<close> on the bytes before the terminating NUL, which reads as 0.\<close>

fun strcmp :: "cstring \<Rightarrow> cstring \<Rightarrow> int" where
  "strcmp [] [] = 0"
| "strcmp [] (y # ys) = - uint y"
| "strcmp (x # xs) [] = uint x"
| "strcmp (x # xs) (y # ys) = (if x = y then strcmp xs ys else uint x - uint y)"

definition compareUser :: compare_fn where
  "compareUser a b = (case (a, b) of (KInt x, KInt y) \<Rightarrow> Some (x = y) | _ \<Rightarrow> None)"

definition compareProgram :: compare_fn where
  "compareProgram a b = (case (a, b) of (KStr x, KStr y) \<Rightarrow> Some (strcmp x y = 0) | _ \<Rightarrow> None)"

definition cloneUser :: clone_fn where
  "cloneUser item h = (case item of KInt v \<Rightarrow> Some (kmalloc (KInt v) h) | _ \<Rightarrow> None)"

definition cloneProgram :: clone_fn where
  "cloneProgram item h = (case item of KStr s \<Rightarrow> Some (kmalloc (KStr s) h) | _ \<Rightarrow> None)"

section \<open>Operations\<close>

definition load_store :: "addr \<Rightarrow> heap \<Rightarrow> (addr \<times> addr) option" where
  "load_store sp h = (case load sp h of Some (KStore u p) \<Rightarrow> Some (u, p) | _ \<Rightarrow> None)"

text \<open>\<open>init_sysThrot_store\<close> returns its code and leaves the new pointer in \<open>*store\<close>, on every path
  that got past the first allocation.\<close>

definition init_sysThrot_store :: "heap \<Rightarrow> (int \<times> addr \<times> heap) option" where
  "init_sysThrot_store h = do {
     let (sp, h) = kmalloc (KStore NULL NULL) h;
     if sp = NULL then Some (- ENOMEM, NULL, h)
     else do {
       let (u, h) = create_map h;
       let (p, h) = create_map h;
       if u = NULL \<or> p = NULL then do {
         h \<leftarrow> destroy_map u h;
         h \<leftarrow> destroy_map p h;
         h \<leftarrow> kfree sp h;
         Some (- ENOMEM, sp, h) }
       else do {
         h \<leftarrow> store_obj sp (KStore u p) h;
         Some (0, sp, h) } } }"

definition destroy_sysThrot_store :: "addr \<Rightarrow> heap \<Rightarrow> (int \<times> heap) option" where
  "destroy_sysThrot_store sp h =
     (if sp = NULL then Some (- EINVAL, h)
      else do {
        (u, p) \<leftarrow> load_store sp h;
        h \<leftarrow> store_obj sp (KStore NULL NULL) h;
        h \<leftarrow> destroy_map u h;
        h \<leftarrow> destroy_map p h;
        h \<leftarrow> kfree sp h;
        Some (0, h) })"

definition prepare_add ::
    "compare_fn \<Rightarrow> clone_fn \<Rightarrow> u32 \<Rightarrow> kobj \<Rightarrow> addr \<Rightarrow> heap \<Rightarrow> (int \<times> addr \<times> heap) option" where
  "prepare_add cmp clone key item old h = do {
     c \<leftarrow> contains old key item cmp h;
     if c = 0 then Some (- EEXIST, NULL, h)
     else do {
       (new, h) \<leftarrow> clone_map old clone h;
       if new = NULL then Some (- ENOMEM, NULL, h)
       else do {
         (it, h) \<leftarrow> clone item h;
         if it = NULL then do { h \<leftarrow> destroy_map new h; Some (- ENOMEM, NULL, h) }
         else do {
           (r, h) \<leftarrow> insert_item new key it cmp h;
           if r \<noteq> 0 then do { h \<leftarrow> destroy_map new h; Some (- ENOSPC, NULL, h) }
           else Some (0, new, h) } } } }"

definition prepare_remove ::
    "compare_fn \<Rightarrow> clone_fn \<Rightarrow> u32 \<Rightarrow> kobj \<Rightarrow> addr \<Rightarrow> heap \<Rightarrow> (int \<times> addr \<times> heap) option" where
  "prepare_remove cmp clone key item old h = do {
     c \<leftarrow> contains old key item cmp h;
     if c \<noteq> 0 then Some (- EINVAL, NULL, h)
     else do {
       (new, h) \<leftarrow> clone_map old clone h;
       if new = NULL then Some (- ENOMEM, NULL, h)
       else do {
         (r, h) \<leftarrow> remove_item new key item cmp h;
         if r \<noteq> 0 then do { h \<leftarrow> destroy_map new h; Some (- EINVAL, NULL, h) }
         else Some (0, new, h) } } }"

definition add_user_to_store :: "addr \<Rightarrow> u32 \<Rightarrow> heap \<Rightarrow> (int \<times> heap) option" where
  "add_user_to_store sp uid h = do {
     (u, p) \<leftarrow> load_store sp h;
     (r, new, h) \<leftarrow> prepare_add compareUser cloneUser (getKeyFromUserId uid) (KInt uid) u h;
     if r \<noteq> 0 then Some (r, h)
     else do {
       h \<leftarrow> store_obj sp (KStore new p) h;
       h \<leftarrow> destroy_map u h;
       Some (0, h) } }"

definition remove_user_from_store :: "addr \<Rightarrow> u32 \<Rightarrow> heap \<Rightarrow> (int \<times> heap) option" where
  "remove_user_from_store sp uid h = do {
     (u, p) \<leftarrow> load_store sp h;
     (r, new, h) \<leftarrow> prepare_remove compareUser cloneUser (getKeyFromUserId uid) (KInt uid) u h;
     if r \<noteq> 0 then Some (r, h)
     else do {
       h \<leftarrow> store_obj sp (KStore new p) h;
       h \<leftarrow> destroy_map u h;
       Some (0, h) } }"

definition find_user_in_store :: "addr \<Rightarrow> u32 \<Rightarrow> heap \<Rightarrow> int option" where
  "find_user_in_store sp uid h = do {
     (u, p) \<leftarrow> load_store sp h;
     contains u (getKeyFromUserId uid) (KInt uid) compareUser h }"

definition add_program_to_store :: "addr \<Rightarrow> cstring \<Rightarrow> heap \<Rightarrow> (int \<times> heap) option" where
  "add_program_to_store sp name h = do {
     (u, p) \<leftarrow> load_store sp h;
     (r, new, h) \<leftarrow> prepare_add compareProgram cloneProgram (getKeyFromProgramName name) (KStr name) p h;
     if r \<noteq> 0 then Some (r, h)
     else do {
       h \<leftarrow> store_obj sp (KStore u new) h;
       h \<leftarrow> destroy_map p h;
       Some (0, h) } }"

definition remove_program_from_store :: "addr \<Rightarrow> cstring \<Rightarrow> heap \<Rightarrow> (int \<times> heap) option" where
  "remove_program_from_store sp name h = do {
     (u, p) \<leftarrow> load_store sp h;
     (r, new, h) \<leftarrow> prepare_remove compareProgram cloneProgram (getKeyFromProgramName name) (KStr name) p h;
     if r \<noteq> 0 then Some (r, h)
     else do {
       h \<leftarrow> store_obj sp (KStore u new) h;
       h \<leftarrow> destroy_map p h;
       Some (0, h) } }"

definition find_program_in_store :: "addr \<Rightarrow> cstring \<Rightarrow> heap \<Rightarrow> int option" where
  "find_program_in_store sp name h = do {
     (u, p) \<leftarrow> load_store sp h;
     contains p (getKeyFromProgramName name) (KStr name) compareProgram h }"

text \<open>The listings fill the caller's array in slot order; the model returns what was written. The
  listing of programs stops after \<open>MAX_STORE_PROGRAMS\<close> names and truncates each to
  \<open>TASK_COMM_LEN - 1\<close> bytes (\<open>strscpy\<close>).\<close>

abbreviation MAX_STORE_USERS :: nat where "MAX_STORE_USERS \<equiv> 256"
abbreviation MAX_STORE_PROGRAMS :: nat where "MAX_STORE_PROGRAMS \<equiv> 64"
abbreviation TASK_COMM_LEN :: nat where "TASK_COMM_LEN \<equiv> 16"

fun list_users :: "CuckooHash \<Rightarrow> (nat \<times> nat) list \<Rightarrow> heap \<Rightarrow> u32 list option" where
  "list_users m [] h = Some []"
| "list_users m ((t, i) # ss) h =
     (if occupied m t i then
        (case load (table m t i) h of
           Some (KInt v) \<Rightarrow> map_option ((#) v) (list_users m ss h)
         | _ \<Rightarrow> None)
      else list_users m ss h)"

definition get_all_users_from_store :: "addr \<Rightarrow> heap \<Rightarrow> u32 list option" where
  "get_all_users_from_store sp h = do {
     (u, p) \<leftarrow> load_store sp h;
     m \<leftarrow> load_map u h;
     list_users m slots h }"

fun list_programs :: "CuckooHash \<Rightarrow> (nat \<times> nat) list \<Rightarrow> nat \<Rightarrow> heap \<Rightarrow> cstring list option" where
  "list_programs m [] count h = Some []"
| "list_programs m ((t, i) # ss) count h =
     (if count < MAX_STORE_PROGRAMS \<and> occupied m t i then
        (case load (table m t i) h of
           Some (KStr s) \<Rightarrow>
             map_option ((#) (take (TASK_COMM_LEN - 1) s)) (list_programs m ss (Suc count) h)
         | _ \<Rightarrow> None)
      else list_programs m ss count h)"

definition get_all_programs_from_store :: "addr \<Rightarrow> heap \<Rightarrow> cstring list option" where
  "get_all_programs_from_store sp h = do {
     (u, p) \<leftarrow> load_store sp h;
     m \<leftarrow> load_map p h;
     list_programs m slots 0 h }"


section \<open>Preparing a new map\<close>

text \<open>\<open>same_mem h h'\<close>: \<open>h'\<close> differs from \<open>h\<close> only in addresses that were tried and given back.
  \<open>fresh_map\<close>: \<open>h'\<close> has one more well-formed map, made of objects allocated since \<open>h\<close>.\<close>

definition later :: "heap \<Rightarrow> heap \<Rightarrow> bool" where
  "later h h' \<longleftrightarrow> heap_wf h' \<and> brk h \<le> brk h' \<and> alloc_ok h' = alloc_ok h"

definition same_mem :: "heap \<Rightarrow> heap \<Rightarrow> bool" where
  "same_mem h h' \<longleftrightarrow> mem h' = mem h \<and> later h h'"

definition fresh_map :: "(kobj \<Rightarrow> u32) \<Rightarrow> (kobj \<Rightarrow> bool) \<Rightarrow> heap \<Rightarrow> heap \<Rightarrow> addr \<Rightarrow> CuckooHash \<Rightarrow> bool" where
  "fresh_map key ok h h' q m \<longleftrightarrow>
     q \<noteq> NULL \<and> map_at key ok h' q m \<and> later h h' \<and>
     (\<forall>a. a \<notin> footprint q m \<longrightarrow> mem h' a = mem h a) \<and>
     (\<forall>a \<in> footprint q m. brk h \<le> a \<and> a < brk h')"

lemma later_refl: "heap_wf h \<Longrightarrow> later h h"
  by (simp add: later_def)

lemma later_trans: "later h h' \<Longrightarrow> later h' h'' \<Longrightarrow> later h h''"
  by (auto simp: later_def)

context item_ops
begin

text \<open>Destroying a fresh map gives the old memory back.\<close>

lemma destroy_fresh:
  assumes wf: "heap_wf h" and at: "map_at key ok h' q m" and lt: "later h h'"
    and other: "\<And>a. a \<notin> footprint q m \<Longrightarrow> a < brk h \<Longrightarrow> mem h' a = mem h a"
    and gone: "\<And>a. a \<notin> footprint q m \<Longrightarrow> brk h \<le> a \<Longrightarrow> mem h' a = None"
    and fresh: "\<And>a. a \<in> footprint q m \<Longrightarrow> brk h \<le> a"
  shows "\<exists>h''. destroy_map q h' = Some h'' \<and> same_mem h h''"
proof -
  have "mem h' |` (- footprint q m) = mem h"
  proof
    fix a
    show "(mem h' |` (- footprint q m)) a = mem h a"
      using other[of a] gone[of a] fresh[of a] heap_wf_fresh[OF wf, of a]
      by (cases "a \<in> footprint q m"; cases "a < brk h") auto
  qed
  moreover have "heap_wf (h'\<lparr>mem := mem h\<rparr>)"
    using wf lt unfolding heap_wf_def later_def by (simp, metis less_le_trans)
  ultimately show ?thesis
    using destroy_map_eq[OF at] lt by (auto simp: same_mem_def later_def)
qed

lemma fresh_map_new:
  assumes "heap_wf h" and "fresh_map key ok h h' q m" and "q' \<noteq> NULL" and "brk h' \<le> q'"
  shows "q' \<notin> footprint q m" and "mem h' q' = None"
  using assms heap_wf_fresh[of h' q'] by (auto simp: fresh_map_def later_def)

lemma alloc_beside_fresh:
  assumes wf: "heap_wf h" and fm: "fresh_map key ok h h1 q m"
    and k: "kmalloc x h1 = (it, h2)" "it \<noteq> NULL"
  shows "it \<notin> footprint q m" and "mem h2 it = Some x" and "map_at key ok h2 q m"
    and "items h2 m = items h1 m" and "later h h2"
    and "\<And>a. a \<notin> insert it (footprint q m) \<Longrightarrow> mem h2 a = mem h a"
    and "\<And>a. a \<in> insert it (footprint q m) \<Longrightarrow> brk h \<le> a \<and> a < brk h2"
proof -
  have at1: "map_at key ok h1 q m" and lt1: "later h h1" and wf1: "heap_wf h1"
    using fm by (auto simp: fresh_map_def later_def)
  have it: "it = brk h1" and h2: "h2 = h1\<lparr>mem := (mem h1)(it \<mapsto> x), brk := Suc (brk h1)\<rparr>"
    using k by (auto simp: kmalloc_def split: if_splits)
  show itf: "it \<notin> footprint q m" using fresh_map_new[OF wf fm k(2)] it by simp
  then have agree: "mem h2 a = mem h1 a" if "a \<in> ptrs m" for a using that h2 by (auto simp: footprint_def)
  show "mem h2 it = Some x" by (simp add: h2)
  show "map_at key ok h2 q m"
    using at1 itf map_inv_cong[of m h2 h1, OF agree] by (auto simp: map_at_def h2 footprint_def)
  show "items h2 m = items h1 m" using agree by (rule items_cong)
  show "later h h2" using lt1 heap_wf_kmalloc[OF wf1 k(1)] h2 by (auto simp: later_def)
  show "mem h2 a = mem h a" if "a \<notin> insert it (footprint q m)" for a
    using that fm h2 by (simp add: fresh_map_def)
  show "brk h \<le> a \<and> a < brk h2" if "a \<in> insert it (footprint q m)" for a
    using that fm h2 it lt1 by (auto simp: fresh_map_def later_def less_Suc_eq)
qed

lemma items_first_slot:
  assumes "map_inv key ok h m" and "occupied m 0 (unat (hash1 k))"
  shows "\<exists>y \<in> items h m. hash1 (key y) = hash1 k"
proof -
  obtain y where "mem h (table m 0 (unat (hash1 k))) = Some y" "unat (hash1 k) = hash_idx 0 (key y)"
    using map_inv_slot[OF assms] by metis
  with assms(2) show ?thesis by (intro bexI[of _ y]) (auto simp: items_def hash_idx_def word_unat_eq_iff)
qed

lemma insert_fresh:
  assumes wf: "heap_wf h" and fm: "fresh_map key ok h h1 q m" and x: "ok x" "x \<notin> items h1 m"
    and k: "kmalloc x h1 = (it, h2)" "it \<noteq> NULL"
  obtains (stored) h3 m' where "insert_item q (key x) it cmp h2 = Some (0, h3)"
      "fresh_map key ok h h3 q m'" "items h3 m' = insert x (items h1 m)"
  | (full) h3 h4 where "insert_item q (key x) it cmp h2 = Some (- ENOSPC, h3)"
      "destroy_map q h3 = Some h4" "same_mem h h4" "\<exists>y \<in> items h1 m. hash1 (key y) = hash1 (key x)"
proof -
  note a = alloc_beside_fresh[OF wf fm k]
  have wf2: "heap_wf h2" using a(5) by (simp add: later_def)
  have itm: "it \<notin> ptrs m" and itq: "it \<noteq> q" using a(1) by (auto simp: footprint_def)
  have q0: "q \<notin> ptrs m" using map_at_ptr[OF a(3)] .
  have new: "x \<notin> items h2 m" using x(2) a(4) by simp
  from a(3,2) x(1) itm new wf2 show ?thesis
  proof (cases rule: insert_item_cases)
    case (stored m')
    let ?h3 = "h2\<lparr>mem := (mem h2)(q \<mapsto> KMap m')\<rparr>"
    have qm: "q \<notin> ptrs m'" using stored(3) itq q0 by auto
    have fp: "footprint q m' = insert it (footprint q m)" by (auto simp: footprint_def stored(3))
    have "items ?h3 m' = insert x (items h1 m)"
      using qm a(2) a(4) by (auto simp: items_ptrs stored(3))
    moreover have "later h ?h3"
      using a(3,5) heap_wf_mem_upd[OF wf2] by (auto simp: later_def map_at_def)
    then have "fresh_map key ok h ?h3 q m'"
      using stored(2) qm fm a(6,7)
      by (auto simp: fresh_map_def map_at_def fp) (auto simp: footprint_def)
    ultimately show ?thesis using that(1)[OF stored(1)] by blast
  next
    case (full m' e)
    let ?h3 = "h2\<lparr>mem := (mem h2)(q \<mapsto> KMap m', e := None)\<rparr>"
    have fp: "insert e (footprint q m') = insert it (footprint q m)"
      using full(4) by (auto simp: footprint_def)
    have qe: "q \<noteq> e" "q \<notin> ptrs m'" using full(4) itq q0 by auto
    have "map_inv key ok ?h3 m' = map_inv key ok h2 m'" using full(3) qe by (intro map_inv_cong) auto
    then have "map_at key ok ?h3 q m'" using full(2) qe by (simp add: map_at_def)
    moreover have "later h ?h3"
      using a(3,5) by (auto simp: later_def map_at_def heap_wf_def)
    moreover have "mem ?h3 b = (if brk h \<le> b then None else mem h b)" if "b \<notin> footprint q m'" for b
    proof (cases "b = e")
      case True
      then have "brk h \<le> b" using a(7)[of b] fp by blast
      then show ?thesis using True by simp
    next
      case False
      then have "b \<notin> insert it (footprint q m)" using that fp by blast
      then show ?thesis using False that a(6) heap_wf_fresh[OF wf, of b] by (simp add: footprint_def)
    qed
    ultimately obtain h4 where "destroy_map q ?h3 = Some h4" "same_mem h h4"
      using destroy_fresh[OF wf] a(7) fp by (metis insertCI not_le)
    moreover have "\<exists>y \<in> items h1 m. hash1 (key y) = hash1 (key x)"
      using items_first_slot[of h2 m "key x"] full(5) a(3,4) by (simp add: map_at_def)
    ultimately show ?thesis using that(2)[OF full(1)] by blast
  qed
qed

lemma clone_fresh:
  assumes "map_at key ok h p m" and "heap_wf h"
  obtains (nomem) h' where "clone_map p clone h = Some (NULL, h')" "same_mem h h'" "\<exists>n. \<not> alloc_ok h n"
  | (copy) q h' m' where "clone_map p clone h = Some (q, h')" "fresh_map key ok h h' q m'"
      "items h' m' = items h m"
  using assms
proof (cases rule: clone_map_cases)
  case (nomem h')
  then show ?thesis by (intro that(1)) (auto simp: same_mem_def later_def)
next
  case (copy q h' m')
  then show ?thesis by (intro that(2)[of q h' m']) (auto simp: fresh_map_def later_def)
qed

lemma drop_fresh:
  assumes wf: "heap_wf h" and fm: "fresh_map key ok h h1 q m" and k: "kmalloc x h1 = (NULL, h2)"
  shows "\<exists>h3. destroy_map q h2 = Some h3 \<and> same_mem h h3"
proof -
  have at1: "map_at key ok h1 q m" and lt1: "later h h1" and wf1: "heap_wf h1"
    using fm by (auto simp: fresh_map_def later_def)
  have h2: "h2 = h1\<lparr>brk := Suc (brk h1)\<rparr>"
    using k wf1 by (auto simp: kmalloc_def heap_wf_def split: if_splits)
  have "map_at key ok h2 q m" "later h h2"
    using at1 map_inv_cong[of m h2 h1] lt1 heap_wf_kmalloc[OF wf1 k] by (auto simp: map_at_def later_def h2)
  moreover have "mem h2 a = mem h a" if "a \<notin> footprint q m" for a
    using that fm by (simp add: fresh_map_def h2)
  moreover have "brk h \<le> a" if "a \<in> footprint q m" for a
    using that fm by (simp add: fresh_map_def)
  ultimately show ?thesis
    using destroy_fresh[OF wf, of h2 q m] heap_wf_fresh[OF wf] by metis
qed

lemma prepare_add_cases:
  assumes at: "map_at key ok h p m" and wf: "heap_wf h" and x: "ok x"
  obtains (refused) r h' where "prepare_add cmp clone (key x) x p h = Some (r, NULL, h')"
      "same_mem h h'" "r = - EEXIST \<longleftrightarrow> x \<in> items h m" "r \<in> {- EEXIST, - ENOMEM, - ENOSPC}"
      "r = - ENOMEM \<longrightarrow> (\<exists>n. \<not> alloc_ok h n)"
      "r = - ENOSPC \<longrightarrow> (\<exists>y \<in> items h m. hash1 (key y) = hash1 (key x))"
  | (added) q h' m' where "prepare_add cmp clone (key x) x p h = Some (0, q, h')"
      "x \<notin> items h m" "fresh_map key ok h h' q m'" "items h' m' = insert x (items h m)"
proof (cases "x \<in> items h m")
  case True
  then show ?thesis
    using wf contains_eq[OF at x] by (intro refused[of "- EEXIST" h])
      (auto simp: prepare_add_def same_mem_def later_def)
next
  case False
  note c = contains_eq[OF at x]
  from at wf show ?thesis
  proof (cases rule: clone_fresh)
    case (nomem h')
    with False c show ?thesis by (intro refused[of "- ENOMEM" h']) (auto simp: prepare_add_def)
  next
    case (copy q h1 m1)
    have q: "q \<noteq> NULL" using copy(2) by (simp add: fresh_map_def)
    obtain it h2 where k: "kmalloc x h1 = (it, h2)" by fastforce
    show ?thesis
    proof (cases "it = NULL")
      case True
      then obtain h3 where "destroy_map q h2 = Some h3" "same_mem h h3"
        using drop_fresh[OF wf copy(2)] k by blast
      moreover have "\<exists>n. \<not> alloc_ok h n"
      proof -
        have "\<not> alloc_ok h1 (brk h1)" "alloc_ok h1 = alloc_ok h"
          using k True heap_wf_brk[of h1] copy(2) by (auto simp: kmalloc_def fresh_map_def later_def split: if_splits)
        then show ?thesis by auto
      qed
      ultimately show ?thesis using True False c copy(1) q k
        by (intro refused[of "- ENOMEM" h3]) (auto simp: prepare_add_def clone_ok[OF x])
    next
      case it: False
      have new: "x \<notin> items h1 m1" using False copy(3) by simp
      from wf copy(2) x new k it show ?thesis
      proof (cases rule: insert_fresh)
        case (stored h3 m')
        with False c copy q k it show ?thesis
          by (intro added[of q h3 m']) (auto simp: prepare_add_def clone_ok[OF x])
      next
        case (full h3 h4)
        with False c copy q k it show ?thesis
          by (intro refused[of "- ENOSPC" h4]) (auto simp: prepare_add_def clone_ok[OF x])
      qed
    qed
  qed
qed


lemma remove_fresh:
  assumes wf: "heap_wf h" and fm: "fresh_map key ok h h1 q m" and x: "ok x" "x \<in> items h1 m"
  obtains h2 m' where "remove_item q (key x) x cmp h1 = Some (0, h2)"
    "fresh_map key ok h h2 q m'" "items h2 m' = items h1 m - {x}"
proof -
  have at1: "map_at key ok h1 q m" and wf1: "heap_wf h1"
    using fm by (auto simp: fresh_map_def later_def)
  obtain m' e where r: "remove_item q (key x) x cmp h1 = Some (0, h1\<lparr>mem := (mem h1)(e := None, q \<mapsto> KMap m')\<rparr>)"
      "map_inv key ok h1 m'" "e \<in> ptrs m" "mem h1 e = Some x" "ptrs m' = ptrs m - {e}"
    using remove_item_found[OF at1 x wf1] .
  let ?h2 = "h1\<lparr>mem := (mem h1)(e := None, q \<mapsto> KMap m')\<rparr>"
  have q: "q \<notin> ptrs m" "q \<notin> ptrs m'" "e \<noteq> q" using map_at_ptr[OF at1] r(3,5) by auto
  have agree: "mem ?h2 a = mem h1 a" if "a \<in> ptrs m'" for a using that q r(5) by auto
  have inj: "inj_on (mem h1) (ptrs m)" using at1 by (simp add: map_at_def map_inv_def)
  have "items ?h2 m' = items h1 m'" using agree by (rule items_cong)
  also have "\<dots> = items h1 m - {x}"
    using r(3-5) inj_onD[OF inj _ r(3)] by (auto simp: items_ptrs) metis
  finally have it: "items ?h2 m' = items h1 m - {x}" .
  have fp: "footprint q m' = footprint q m - {e}" using q(3) r(5) by (auto simp: footprint_def)
  have e: "brk h \<le> e" "mem h e = None"
    using fm r(3) heap_wf_fresh[OF wf, of e] by (auto simp: fresh_map_def footprint_def)
  have "map_at key ok ?h2 q m'"
    using r(2) map_inv_cong[of m' ?h2 h1, OF agree] by (auto simp: map_at_def)
  moreover have "later h ?h2" using fm at1 by (auto simp: fresh_map_def later_def map_at_def heap_wf_def)
  ultimately have "fresh_map key ok h ?h2 q m'"
    using fm e q(3) by (auto simp: fresh_map_def fp) (auto simp: footprint_def)
  from that[OF r(1) this it] show ?thesis .
qed


lemma prepare_remove_cases:
  assumes at: "map_at key ok h p m" and wf: "heap_wf h" and x: "ok x"
  obtains (refused) r h' where "prepare_remove cmp clone (key x) x p h = Some (r, NULL, h')"
      "same_mem h h'" "r = - EINVAL \<longleftrightarrow> x \<notin> items h m" "r \<in> {- EINVAL, - ENOMEM}"
      "r = - ENOMEM \<longrightarrow> (\<exists>n. \<not> alloc_ok h n)"
  | (removed) q h' m' where "prepare_remove cmp clone (key x) x p h = Some (0, q, h')"
      "x \<in> items h m" "fresh_map key ok h h' q m'" "items h' m' = items h m - {x}"
proof (cases "x \<in> items h m")
  case False
  then show ?thesis
    using wf contains_eq[OF at x] by (intro refused[of "- EINVAL" h])
      (auto simp: prepare_remove_def same_mem_def later_def)
next
  case True
  note c = contains_eq[OF at x]
  from at wf show ?thesis
  proof (cases rule: clone_fresh)
    case (nomem h')
    with True c show ?thesis by (intro refused[of "- ENOMEM" h']) (auto simp: prepare_remove_def)
  next
    case (copy q h1 m1)
    then have q: "q \<noteq> NULL" and x1: "x \<in> items h1 m1" using True by (auto simp: fresh_map_def)
    obtain h2 m' where "remove_item q (key x) x cmp h1 = Some (0, h2)"
        "fresh_map key ok h h2 q m'" "items h2 m' = items h1 m1 - {x}"
      using remove_fresh[OF wf copy(2) x x1] .
    with True c copy q show ?thesis
      by (intro removed[of q h2 m']) (auto simp: prepare_remove_def)
  qed
qed

end

section \<open>The store in memory\<close>

text \<open>\<open>layout\<close>: the object \<open>x\<close> at \<open>sp\<close>, a map of one kind at \<open>a\<close>, a map of another kind at
  \<open>b\<close> and the addresses \<open>R\<close> of everyone else are live, disjoint, and all that is live.\<close>

definition layout ::
    "(kobj \<Rightarrow> u32) \<Rightarrow> (kobj \<Rightarrow> bool) \<Rightarrow> (kobj \<Rightarrow> u32) \<Rightarrow> (kobj \<Rightarrow> bool) \<Rightarrow> addr \<Rightarrow> kobj \<Rightarrow> addr set \<Rightarrow>
     heap \<Rightarrow> addr \<Rightarrow> CuckooHash \<Rightarrow> addr \<Rightarrow> CuckooHash \<Rightarrow> bool" where
  "layout k1 o1 k2 o2 sp x R h a ma b mb \<longleftrightarrow>
     heap_wf h \<and> mem h sp = Some x \<and> map_at k1 o1 h a ma \<and> map_at k2 o2 h b mb \<and>
     sp \<notin> footprint a ma \<union> footprint b mb \<union> R \<and> footprint a ma \<inter> footprint b mb = {} \<and>
     R \<inter> (footprint a ma \<union> footprint b mb) = {} \<and>
     dom (mem h) = insert sp (footprint a ma \<union> footprint b mb \<union> R)"

lemma layout_sym:
  "layout k1 o1 k2 o2 sp x R h a ma b mb = layout k2 o2 k1 o1 sp x R h b mb a ma"
  by (auto simp: layout_def)

lemma map_at_cong:
  assumes "\<And>a. a \<in> footprint p m \<Longrightarrow> mem h' a = mem h a"
  shows "map_at k ok h' p m = map_at k ok h p m"
  using assms map_inv_cong[of m h' h] by (simp add: map_at_def footprint_def)

lemma map_at_frame [simp]:
  "sp \<notin> footprint p m \<Longrightarrow> map_at k ok (h\<lparr>mem := (mem h)(sp := v)\<rparr>) p m = map_at k ok h p m"
  by (rule map_at_cong) auto

lemma layout_same_mem:
  assumes "layout k1 o1 k2 o2 sp x R h a ma b mb" and "same_mem h h'"
  shows "layout k1 o1 k2 o2 sp x R h' a ma b mb"
  using assms map_at_cong[of a ma h' h] map_at_cong[of b mb h' h]
  by (simp add: layout_def same_mem_def later_def)

text \<open>Publication: the new map is linked in and the old one destroyed. Nothing is leaked and
  nobody else's memory is touched.\<close>

context item_ops
begin

lemma fresh_old:
  assumes "heap_wf h" and "fresh_map key ok h h1 q m" and "c \<in> dom (mem h)"
  shows "c \<notin> footprint q m" and "mem h1 c = mem h c"
  using assms heap_wfD[OF assms(1)] unfolding fresh_map_def by (metis domD leD)+

lemma fresh_dom:
  assumes fm: "fresh_map key ok h h1 q m"
  shows "dom (mem h1) = dom (mem h) \<union> footprint q m"
proof -
  have "c \<in> dom (mem h1)" if "c \<in> footprint q m" for c
    using that fm by (auto simp: fresh_map_def map_at_def footprint_def elim: map_inv_ptrs)
  moreover have "c \<in> dom (mem h1) \<longleftrightarrow> c \<in> dom (mem h)" if "c \<notin> footprint q m" for c
    using that fm by (simp add: fresh_map_def domIff)
  ultimately show ?thesis by blast
qed

lemma publish:
  assumes lay: "layout key ok k2 o2 sp x R h a ma b mb" and fm: "fresh_map key ok h h1 q m"
  obtains h2 h3 where "store_obj sp y h1 = Some h2" "destroy_map a h2 = Some h3"
    "layout key ok k2 o2 sp y R h3 q m b mb" "items h3 m = items h1 m" "items h3 mb = items h mb"
    "\<forall>r \<in> R. mem h3 r = mem h r"
proof -
  have wf: "heap_wf h" and wf1: "heap_wf h1" using lay fm by (auto simp: layout_def fresh_map_def later_def)
  note old = fresh_old[OF wf fm]
  have dom: "dom (mem h) = insert sp (footprint a ma \<union> footprint b mb \<union> R)" using lay by (simp add: layout_def)
  have qd: "c \<notin> footprint a ma \<and> c \<notin> footprint b mb \<and> c \<notin> R \<and> c \<noteq> sp" if "c \<in> footprint q m" for c
    using that old(1)[of c] dom by auto
  define h2 where "h2 = h1\<lparr>mem := (mem h1)(sp \<mapsto> y)\<rparr>"
  have sp1: "mem h1 sp = Some x" using old(2)[of sp] lay by (auto simp: layout_def)
  have st: "store_obj sp y h1 = Some h2" using sp1 by (simp add: store_obj_def h2_def)
  have wf2: "heap_wf h2" unfolding h2_def using wf1 sp1 by (rule heap_wf_mem_upd)
  have keep: "mem h2 c = mem h c" if "c \<in> footprint a ma \<union> footprint b mb \<union> R" for c
    using that old(2)[of c] dom lay by (auto simp: h2_def layout_def)
  have ata: "map_at key ok h2 a ma"
    using lay map_at_cong[of a ma h2 h key ok] keep by (simp add: layout_def)
  define h3 where "h3 = h2\<lparr>mem := mem h2 |` (- footprint a ma)\<rparr>"
  have de: "destroy_map a h2 = Some h3" unfolding h3_def using ata wf2 by (rule destroy_map_eq)
  have disj: "c \<notin> footprint a ma" if "c \<in> footprint b mb \<union> R" for c
    using that lay unfolding layout_def by blast
  have keep3: "mem h3 c = mem h c" if "c \<in> footprint b mb \<union> R" for c
    using that keep[of c] disj[OF that] by (simp add: h3_def)
  have new3: "mem h3 c = mem h1 c" if "c \<in> footprint q m" for c
    using that qd[OF that] by (simp add: h3_def h2_def)
  have "dom (mem h3) = insert sp (dom (mem h1)) - footprint a ma" by (auto simp: h3_def h2_def)
  then have dom3: "dom (mem h3) = insert sp (footprint q m \<union> footprint b mb \<union> R)"
    using lay qd disj unfolding fresh_dom[OF fm] dom layout_def by blast
  have "heap_wf h3" unfolding h3_def using wf2 by (rule heap_wf_mem_sub) auto
  moreover have "map_at key ok h3 q m" "map_at k2 o2 h3 b mb"
    using fm lay map_at_cong[of q m h3 h1 key ok] map_at_cong[of b mb h3 h k2 o2] new3 keep3
    by (auto simp: fresh_map_def layout_def)
  moreover have "mem h3 sp = Some y" using lay by (auto simp: h3_def h2_def layout_def)
  moreover have "sp \<notin> footprint q m \<union> footprint b mb \<union> R" "footprint q m \<inter> footprint b mb = {}"
    "R \<inter> (footprint q m \<union> footprint b mb) = {}"
    using lay qd unfolding layout_def by blast+
  ultimately have lay3: "layout key ok k2 o2 sp y R h3 q m b mb" by (simp add: layout_def dom3)
  have "items h3 m = items h1 m" "items h3 mb = items h mb"
    using new3 keep3 by (intro items_cong; simp add: footprint_def)+
  with lay3 that[OF st de] keep3 show ?thesis by blast
qed

end

subsection \<open>Users and programs as items\<close>

definition user_key :: "kobj \<Rightarrow> u32" where
  "user_key x = (case x of KInt v \<Rightarrow> getKeyFromUserId v | _ \<Rightarrow> 0)"

definition user_ok :: "kobj \<Rightarrow> bool" where
  "user_ok x = (case x of KInt _ \<Rightarrow> True | _ \<Rightarrow> False)"

definition program_key :: "kobj \<Rightarrow> u32" where
  "program_key x = (case x of KStr s \<Rightarrow> getKeyFromProgramName s | _ \<Rightarrow> 0)"

definition program_ok :: "kobj \<Rightarrow> bool" where
  "program_ok x = (case x of KStr s \<Rightarrow> 0 \<notin> set s | _ \<Rightarrow> False)"

lemma uint_pos: "x \<noteq> 0 \<Longrightarrow> 0 < uint x"
  by (metis less_le uint_0_iff unsigned_greater_eq)

lemma strcmp_zero: "0 \<notin> set a \<Longrightarrow> 0 \<notin> set b \<Longrightarrow> strcmp a b = 0 \<longleftrightarrow> a = b"
  by (induction a b rule: strcmp.induct) (auto dest: uint_pos simp: word_uint_eq_iff)

interpretation users: item_ops compareUser cloneUser user_key user_ok
  by unfold_locales
    (auto simp: compareUser_def cloneUser_def user_ok_def split: kobj.splits)

interpretation programs: item_ops compareProgram cloneProgram program_key program_ok
  by unfold_locales
    (auto simp: compareProgram_def cloneProgram_def program_ok_def strcmp_zero split: kobj.splits)


section \<open>The store's contract\<close>

definition store_inv :: "addr \<Rightarrow> addr set \<Rightarrow> heap \<Rightarrow> bool" where
  "store_inv sp R h \<longleftrightarrow>
     (\<exists>u mu p mp. layout user_key user_ok program_key program_ok sp (KStore u p) R h u mu p mp)"

text \<open>What the store holds: the user ids and the program names its two maps point to.\<close>

definition store_users :: "addr \<Rightarrow> heap \<Rightarrow> u32 set" where
  "store_users sp h =
     {v. \<exists>u p m. mem h sp = Some (KStore u p) \<and> mem h u = Some (KMap m) \<and> KInt v \<in> items h m}"

definition store_programs :: "addr \<Rightarrow> heap \<Rightarrow> cstring set" where
  "store_programs sp h =
     {s. \<exists>u p m. mem h sp = Some (KStore u p) \<and> mem h p = Some (KMap m) \<and> KStr s \<in> items h m}"

lemma layout_users:
  "layout k1 o1 k2 o2 sp (KStore u p) R h u mu p mp \<Longrightarrow> store_users sp h = {v. KInt v \<in> items h mu}"
  by (auto simp: layout_def map_at_def store_users_def)

lemma layout_programs:
  "layout k1 o1 k2 o2 sp (KStore u p) R h u mu p mp \<Longrightarrow> store_programs sp h = {s. KStr s \<in> items h mp}"
  by (auto simp: layout_def map_at_def store_programs_def)

lemmas layout_contents = layout_users layout_programs

lemma layout_load:
  "layout k1 o1 k2 o2 sp (KStore u p) R h u mu p mp \<Longrightarrow> load_store sp h = Some (u, p)"
  by (simp add: layout_def load_store_def load_def)

lemma same_mem_contents:
  "same_mem h h' \<Longrightarrow> store_users sp h' = store_users sp h"
  "same_mem h h' \<Longrightarrow> store_programs sp h' = store_programs sp h"
  "same_mem h h' \<Longrightarrow> mem h' = mem h"
  by (simp_all add: same_mem_def store_users_def store_programs_def items_def)

lemma store_inv_same_mem: "store_inv sp R h \<Longrightarrow> same_mem h h' \<Longrightarrow> store_inv sp R h'"
  by (meson layout_same_mem store_inv_def)

lemma user_item [simp]: "user_ok (KInt v)" "user_key (KInt v) = getKeyFromUserId v"
  by (simp_all add: user_ok_def user_key_def)

lemma program_item [simp]: "program_ok (KStr s) \<longleftrightarrow> 0 \<notin> set s" "program_key (KStr s) = getKeyFromProgramName s"
  by (simp_all add: program_ok_def program_key_def)

text \<open>The frame every operation respects: the store stays well-formed among the same neighbours,
  whose memory is unchanged.\<close>

definition store_frame :: "addr \<Rightarrow> addr set \<Rightarrow> heap \<Rightarrow> heap \<Rightarrow> bool" where
  "store_frame sp R h h' \<longleftrightarrow> store_inv sp R h' \<and> (\<forall>r \<in> R. mem h' r = mem h r)"

lemma publish_users:
  assumes lay: "layout user_key user_ok program_key program_ok sp (KStore u p) R h u mu p mp"
    and fm: "fresh_map user_key user_ok h h1 q m"
  obtains h2 h3 where "store_obj sp (KStore q p) h1 = Some h2" "destroy_map u h2 = Some h3"
    "store_frame sp R h h3" "store_users sp h3 = {v. KInt v \<in> items h1 m}"
    "store_programs sp h3 = store_programs sp h"
proof (rule users.publish[OF lay fm, where y = "KStore q p"])
  fix h2 h3
  assume s: "store_obj sp (KStore q p) h1 = Some h2" "destroy_map u h2 = Some h3"
    and l: "layout user_key user_ok program_key program_ok sp (KStore q p) R h3 q m p mp"
    and i: "items h3 m = items h1 m" "items h3 mp = items h mp" and R: "\<forall>r \<in> R. mem h3 r = mem h r"
  then have "store_frame sp R h h3" by (auto simp: store_frame_def store_inv_def)
  with s show ?thesis
    using that[of h2 h3] layout_contents[OF l] layout_contents[OF lay] i by simp
qed

lemma publish_programs:
  assumes lay: "layout user_key user_ok program_key program_ok sp (KStore u p) R h u mu p mp"
    and fm: "fresh_map program_key program_ok h h1 q m"
  obtains h2 h3 where "store_obj sp (KStore u q) h1 = Some h2" "destroy_map p h2 = Some h3"
    "store_frame sp R h h3" "store_programs sp h3 = {s. KStr s \<in> items h1 m}"
    "store_users sp h3 = store_users sp h"
proof (rule programs.publish[OF lay[unfolded layout_sym[of user_key]] fm, where y = "KStore u q"])
  fix h2 h3
  assume s: "store_obj sp (KStore u q) h1 = Some h2" "destroy_map p h2 = Some h3"
    and l: "layout program_key program_ok user_key user_ok sp (KStore u q) R h3 q m u mu"
    and i: "items h3 m = items h1 m" "items h3 mu = items h mu" and R: "\<forall>r \<in> R. mem h3 r = mem h r"
  note l' = l[unfolded layout_sym[of program_key]]
  from l' R have "store_frame sp R h h3" by (auto simp: store_frame_def store_inv_def)
  with s show ?thesis
    using that[of h2 h3] layout_contents[OF l'] layout_contents[OF lay] i by simp
qed

lemma store_invE:
  assumes "store_inv sp R h"
  obtains u mu p mp where
    "layout user_key user_ok program_key program_ok sp (KStore u p) R h u mu p mp"
    "heap_wf h" "map_at user_key user_ok h u mu" "map_at program_key program_ok h p mp"
    "load_store sp h = Some (u, p)" "store_users sp h = {v. KInt v \<in> items h mu}"
    "store_programs sp h = {s. KStr s \<in> items h mp}"
proof -
  obtain u mu p mp where "layout user_key user_ok program_key program_ok sp (KStore u p) R h u mu p mp"
    using assms by (auto simp: store_inv_def)
  then show ?thesis
    using that[of u p mu mp] layout_contents layout_load by (auto simp: layout_def)
qed

lemma user_items:
  assumes "map_at user_key user_ok h u m" and "y \<in> items h m"
  shows "\<exists>v. y = KInt v \<and> KInt v \<in> items h m"
proof -
  have "user_ok y" using assms by (auto simp: map_at_def items_def elim!: map_inv_slot)
  with assms(2) show ?thesis by (auto simp: user_ok_def split: kobj.splits)
qed

lemma program_items:
  assumes "map_at program_key program_ok h p m" and "y \<in> items h m"
  shows "\<exists>s. y = KStr s \<and> KStr s \<in> items h m"
proof -
  have "program_ok y" using assms by (auto simp: map_at_def items_def elim!: map_inv_slot)
  with assms(2) show ?thesis by (auto simp: program_ok_def split: kobj.splits)
qed

lemma add_user_cases:
  assumes "store_inv sp R h"
  obtains (refused) r h' where "add_user_to_store sp uid h = Some (r, h')" "same_mem h h'"
      "r = - EEXIST \<longleftrightarrow> uid \<in> store_users sp h" "r \<in> {- EEXIST, - ENOMEM, - ENOSPC}"
      "r = - ENOMEM \<longrightarrow> (\<exists>n. \<not> alloc_ok h n)"
      "r = - ENOSPC \<longrightarrow> (\<exists>y \<in> store_users sp h. hash1 (getKeyFromUserId y) = hash1 (getKeyFromUserId uid))"
  | (added) h' where "add_user_to_store sp uid h = Some (0, h')" "uid \<notin> store_users sp h"
      "store_frame sp R h h'" "store_users sp h' = insert uid (store_users sp h)"
      "store_programs sp h' = store_programs sp h"
  using assms
proof (rule store_invE)
  fix u mu p mp
  assume lay: "layout user_key user_ok program_key program_ok sp (KStore u p) R h u mu p mp"
    and wf: "heap_wf h" and at: "map_at user_key user_ok h u mu" and ld: "load_store sp h = Some (u, p)"
    and c: "store_users sp h = {v. KInt v \<in> items h mu}"
  have ok: "user_ok (KInt uid)" by simp
  from at wf ok show ?thesis
  proof (cases rule: users.prepare_add_cases)
    case (refused r h')
    moreover from this have "r \<noteq> 0" by auto
    moreover have "r = - ENOSPC \<longrightarrow> (\<exists>y \<in> store_users sp h. hash1 (getKeyFromUserId y) = hash1 (getKeyFromUserId uid))"
    proof
      assume "r = - ENOSPC"
      then obtain y where "y \<in> items h mu" "hash1 (user_key y) = hash1 (getKeyFromUserId uid)"
        using refused(6) by auto
      with user_items[OF at this(1)] c show "\<exists>y \<in> store_users sp h. hash1 (getKeyFromUserId y) = hash1 (getKeyFromUserId uid)" by auto
    qed
    ultimately show ?thesis
      using ld c by (intro that(1)[of r h']) (simp_all add: add_user_to_store_def)
  next
    case (added q h1 m)
    from lay added(3) show ?thesis
    proof (rule publish_users)
      fix h2 h3
      assume "store_obj sp (KStore q p) h1 = Some h2" "destroy_map u h2 = Some h3"
        "store_frame sp R h h3" "store_users sp h3 = {v. KInt v \<in> items h1 m}"
        "store_programs sp h3 = store_programs sp h"
      with added c ld show ?thesis by (intro that(2)[of h3]) (auto simp: add_user_to_store_def)
    qed
  qed
qed

lemma remove_user_cases:
  assumes "store_inv sp R h"
  obtains (refused) r h' where "remove_user_from_store sp uid h = Some (r, h')" "same_mem h h'"
      "r = - EINVAL \<longleftrightarrow> uid \<notin> store_users sp h" "r \<in> {- EINVAL, - ENOMEM}"
      "r = - ENOMEM \<longrightarrow> (\<exists>n. \<not> alloc_ok h n)"
  | (removed) h' where "remove_user_from_store sp uid h = Some (0, h')" "uid \<in> store_users sp h"
      "store_frame sp R h h'" "store_users sp h' = store_users sp h - {uid}"
      "store_programs sp h' = store_programs sp h"
  using assms
proof (rule store_invE)
  fix u mu p mp
  assume lay: "layout user_key user_ok program_key program_ok sp (KStore u p) R h u mu p mp"
    and wf: "heap_wf h" and at: "map_at user_key user_ok h u mu" and ld: "load_store sp h = Some (u, p)"
    and c: "store_users sp h = {v. KInt v \<in> items h mu}"
  have ok: "user_ok (KInt uid)" by simp
  from at wf ok show ?thesis
  proof (cases rule: users.prepare_remove_cases)
    case (refused r h')
    moreover from this have "r \<noteq> 0" by auto
    ultimately show ?thesis
      using ld c by (intro that(1)[of r h']) (simp_all add: remove_user_from_store_def)
  next
    case (removed q h1 m)
    from lay removed(3) show ?thesis
    proof (rule publish_users)
      fix h2 h3
      assume "store_obj sp (KStore q p) h1 = Some h2" "destroy_map u h2 = Some h3"
        "store_frame sp R h h3" "store_users sp h3 = {v. KInt v \<in> items h1 m}"
        "store_programs sp h3 = store_programs sp h"
      with removed c ld show ?thesis by (intro that(2)[of h3]) (auto simp: remove_user_from_store_def)
    qed
  qed
qed

lemma add_program_cases:
  assumes "store_inv sp R h" and nul: "0 \<notin> set name"
  obtains (refused) r h' where "add_program_to_store sp name h = Some (r, h')" "same_mem h h'"
      "r = - EEXIST \<longleftrightarrow> name \<in> store_programs sp h" "r \<in> {- EEXIST, - ENOMEM, - ENOSPC}"
      "r = - ENOMEM \<longrightarrow> (\<exists>n. \<not> alloc_ok h n)"
      "r = - ENOSPC \<longrightarrow> (\<exists>y \<in> store_programs sp h. hash1 (getKeyFromProgramName y) = hash1 (getKeyFromProgramName name))"
  | (added) h' where "add_program_to_store sp name h = Some (0, h')" "name \<notin> store_programs sp h"
      "store_frame sp R h h'" "store_programs sp h' = insert name (store_programs sp h)"
      "store_users sp h' = store_users sp h"
  using assms(1)
proof (rule store_invE)
  fix u mu p mp
  assume lay: "layout user_key user_ok program_key program_ok sp (KStore u p) R h u mu p mp"
    and wf: "heap_wf h" and at: "map_at program_key program_ok h p mp" and ld: "load_store sp h = Some (u, p)"
    and c: "store_programs sp h = {s. KStr s \<in> items h mp}"
  have ok: "program_ok (KStr name)" using nul by simp
  from at wf ok show ?thesis
  proof (cases rule: programs.prepare_add_cases)
    case (refused r h')
    moreover from this have "r \<noteq> 0" by auto
    moreover have "r = - ENOSPC \<longrightarrow> (\<exists>y \<in> store_programs sp h. hash1 (getKeyFromProgramName y) = hash1 (getKeyFromProgramName name))"
    proof
      assume "r = - ENOSPC"
      then obtain y where "y \<in> items h mp" "hash1 (program_key y) = hash1 (getKeyFromProgramName name)"
        using refused(6) by auto
      with program_items[OF at this(1)] c show "\<exists>y \<in> store_programs sp h. hash1 (getKeyFromProgramName y) = hash1 (getKeyFromProgramName name)" by auto
    qed
    ultimately show ?thesis
      using ld c by (intro that(1)[of r h']) (simp_all add: add_program_to_store_def)
  next
    case (added q h1 m)
    from lay added(3) show ?thesis
    proof (rule publish_programs)
      fix h2 h3
      assume "store_obj sp (KStore u q) h1 = Some h2" "destroy_map p h2 = Some h3"
        "store_frame sp R h h3" "store_programs sp h3 = {s. KStr s \<in> items h1 m}"
        "store_users sp h3 = store_users sp h"
      with added c ld show ?thesis by (intro that(2)[of h3]) (auto simp: add_program_to_store_def)
    qed
  qed
qed

lemma remove_program_cases:
  assumes "store_inv sp R h" and nul: "0 \<notin> set name"
  obtains (refused) r h' where "remove_program_from_store sp name h = Some (r, h')" "same_mem h h'"
      "r = - EINVAL \<longleftrightarrow> name \<notin> store_programs sp h" "r \<in> {- EINVAL, - ENOMEM}"
      "r = - ENOMEM \<longrightarrow> (\<exists>n. \<not> alloc_ok h n)"
  | (removed) h' where "remove_program_from_store sp name h = Some (0, h')" "name \<in> store_programs sp h"
      "store_frame sp R h h'" "store_programs sp h' = store_programs sp h - {name}"
      "store_users sp h' = store_users sp h"
  using assms(1)
proof (rule store_invE)
  fix u mu p mp
  assume lay: "layout user_key user_ok program_key program_ok sp (KStore u p) R h u mu p mp"
    and wf: "heap_wf h" and at: "map_at program_key program_ok h p mp" and ld: "load_store sp h = Some (u, p)"
    and c: "store_programs sp h = {s. KStr s \<in> items h mp}"
  have ok: "program_ok (KStr name)" using nul by simp
  from at wf ok show ?thesis
  proof (cases rule: programs.prepare_remove_cases)
    case (refused r h')
    moreover from this have "r \<noteq> 0" by auto
    ultimately show ?thesis
      using ld c by (intro that(1)[of r h']) (simp_all add: remove_program_from_store_def)
  next
    case (removed q h1 m)
    from lay removed(3) show ?thesis
    proof (rule publish_programs)
      fix h2 h3
      assume "store_obj sp (KStore u q) h1 = Some h2" "destroy_map p h2 = Some h3"
        "store_frame sp R h h3" "store_programs sp h3 = {s. KStr s \<in> items h1 m}"
        "store_users sp h3 = store_users sp h"
      with removed c ld show ?thesis by (intro that(2)[of h3]) (auto simp: remove_program_from_store_def)
    qed
  qed
qed


subsection \<open>Lookup and listing\<close>

lemma find_user_eq:
  assumes "store_inv sp R h"
  shows "find_user_in_store sp uid h = Some (if uid \<in> store_users sp h then 0 else -1)"
  using assms by (elim store_invE)
    (simp add: find_user_in_store_def users.contains_eq[where x = "KInt uid", simplified])

lemma find_program_eq:
  assumes "store_inv sp R h" and "0 \<notin> set name"
  shows "find_program_in_store sp name h = Some (if name \<in> store_programs sp h then 0 else -1)"
  using assms by (elim store_invE)
    (simp add: find_program_in_store_def programs.contains_eq[where x = "KStr name", simplified])

definition slot_user :: "heap \<Rightarrow> CuckooHash \<Rightarrow> nat \<times> nat \<Rightarrow> u32" where
  "slot_user h m s = (case mem h (tab m s) of Some (KInt v) \<Rightarrow> v | _ \<Rightarrow> 0)"

definition slot_program :: "heap \<Rightarrow> CuckooHash \<Rightarrow> nat \<times> nat \<Rightarrow> cstring" where
  "slot_program h m s = (case mem h (tab m s) of Some (KStr v) \<Rightarrow> v | _ \<Rightarrow> [])"

lemma slot_user_mem:
  "map_inv user_key user_ok h m \<Longrightarrow> s \<in> occ m \<Longrightarrow> mem h (tab m s) = Some (KInt (slot_user h m s))"
  by (cases s) (auto simp: slot_user_def user_ok_def elim!: map_inv_slot split: kobj.splits)

lemma slot_program_mem:
  "map_inv program_key program_ok h m \<Longrightarrow> s \<in> occ m \<Longrightarrow> mem h (tab m s) = Some (KStr (slot_program h m s))"
  by (cases s) (auto simp: slot_program_def program_ok_def elim!: map_inv_slot split: kobj.splits)

lemma list_users_eq:
  assumes "map_inv user_key user_ok h m"
  shows "list_users m ss h = Some (map (slot_user h m) (filter (\<lambda>s. s \<in> occ m) ss))"
proof (induction ss)
  case (Cons s ss)
  obtain t i where "s = (t, i)" by fastforce
  with Cons slot_user_mem[OF assms, of s] show ?case by (simp add: load_def)
qed simp

lemma list_programs_eq:
  assumes "map_inv program_key program_ok h m"
  shows "list_programs m ss n h = Some (take (MAX_STORE_PROGRAMS - n)
    (map (\<lambda>s. take (TASK_COMM_LEN - 1) (slot_program h m s)) (filter (\<lambda>s. s \<in> occ m) ss)))"
proof (induction ss arbitrary: n)
  case (Cons s ss)
  obtain t i where "s = (t, i)" by fastforce
  moreover have "MAX_STORE_PROGRAMS - n = Suc (MAX_STORE_PROGRAMS - Suc n)" if "n < MAX_STORE_PROGRAMS"
    using that by (rule Suc_diff_Suc[symmetric])
  ultimately show ?case using Cons slot_program_mem[OF assms, of s] by (auto simp: load_def)
qed simp

lemma slots_occ:
  assumes "map_inv key ok h m"
  shows "set (filter (\<lambda>s. s \<in> occ m) slots) = occ m"
  using map_inv_index[OF assms] by auto

lemma slots_values:
  assumes inv: "map_inv key ok h m" and val: "\<And>s. s \<in> occ m \<Longrightarrow> mem h (tab m s) = Some (K (val s))"
    and K: "inj K"
  shows "distinct (map val (filter (\<lambda>s. s \<in> occ m) slots))"
    and "set (map val (filter (\<lambda>s. s \<in> occ m) slots)) = {v. K v \<in> items h m}"
proof -
  have "inj_on (mem h \<circ> tab m) (occ m)"
    using inv by (auto simp: map_inv_def ptrs_def comp_inj_on)
  then have "inj_on val (occ m)" using val by (auto simp: inj_on_def)
  then show "distinct (map val (filter (\<lambda>s. s \<in> occ m) slots))"
    unfolding distinct_map slots_occ[OF inv] using distinct_slots by simp
  have "K v \<in> items h m \<longleftrightarrow> (\<exists>s \<in> occ m. mem h (tab m s) = Some (K v))" for v
    by (simp add: items_ptrs ptrs_def)
  also have "(\<exists>s \<in> occ m. mem h (tab m s) = Some (K v)) \<longleftrightarrow> v \<in> val ` occ m" for v
    using val K by (auto simp: inj_eq image_iff cong: bex_cong)
  finally have "{v. K v \<in> items h m} = val ` occ m" by blast
  then show "set (map val (filter (\<lambda>s. s \<in> occ m) slots)) = {v. K v \<in> items h m}"
    unfolding set_map slots_occ[OF inv] by simp
qed

subsection \<open>Initialisation and destruction\<close>

lemma destroy_new_map:
  assumes "heap_wf h" and "mem h p = Some (KMap empty_map)"
  shows "destroy_map p h = Some (h\<lparr>mem := (mem h)(p := None)\<rparr>)"
proof -
  have "map_at user_key user_ok h p empty_map" using assms(2) by (simp add: map_at_def map_inv_empty)
  from users.destroy_map_eq[OF this assms(1)] have
    "destroy_map p h = Some (h\<lparr>mem := mem h |` (- {p})\<rparr>)" by (simp add: footprint_def)
  moreover have "mem h |` (- {p}) = (mem h)(p := None)" by (auto simp: restrict_map_def)
  ultimately show ?thesis by simp
qed

lemma destroy_null [simp]: "destroy_map NULL h = Some h"
  by (simp add: destroy_map_def)

lemma init_store_cases:
  assumes wf: "heap_wf h"
  obtains (ok) h' where "init_sysThrot_store h = Some (0, brk h, h')"
      "h' = \<lparr>mem = (mem h)(brk h \<mapsto> KStore (Suc (brk h)) (Suc (Suc (brk h))),
               Suc (brk h) \<mapsto> KMap empty_map, Suc (Suc (brk h)) \<mapsto> KMap empty_map),
             brk = Suc (Suc (Suc (brk h))), alloc_ok = alloc_ok h\<rparr>"
  | (nomem) sp h' where "init_sysThrot_store h = Some (- ENOMEM, sp, h')" "mem h' = mem h"
      "sp = NULL \<or> sp = brk h" "\<exists>n. \<not> alloc_ok h n"
proof -
  have fresh: "mem h (brk h) = None" "mem h (Suc (brk h)) = None" "mem h (Suc (Suc (brk h))) = None"
    using heap_wf_fresh[OF wf] by simp_all
  have b: "0 < brk h" using wf by (rule heap_wf_brk)
  have wfs: "heap_wf (h\<lparr>mem := (mem h)(brk h \<mapsto> x, Suc (brk h) \<mapsto> y), brk := Suc (Suc (Suc (brk h)))\<rparr>)"
    "heap_wf (h\<lparr>mem := (mem h)(brk h \<mapsto> x, Suc (Suc (brk h)) \<mapsto> y), brk := Suc (Suc (Suc (brk h)))\<rparr>)" for x y
    using wf by (auto simp: heap_wf_def less_Suc_eq)
  consider "\<not> alloc_ok h (brk h)"
    | "alloc_ok h (brk h)" "alloc_ok h (Suc (brk h))" "alloc_ok h (Suc (Suc (brk h)))"
    | "alloc_ok h (brk h)" "alloc_ok h (Suc (brk h))" "\<not> alloc_ok h (Suc (Suc (brk h)))"
    | "alloc_ok h (brk h)" "\<not> alloc_ok h (Suc (brk h))" "alloc_ok h (Suc (Suc (brk h)))"
    | "alloc_ok h (brk h)" "\<not> alloc_ok h (Suc (brk h))" "\<not> alloc_ok h (Suc (Suc (brk h)))"
    by blast
  then show ?thesis
  proof cases
    case 1
    then show ?thesis by (intro nomem[of NULL "h\<lparr>brk := Suc (brk h)\<rparr>"]) (auto simp: init_sysThrot_store_def kmalloc_def)
  next
    case 2
    then show ?thesis using b
      by (intro ok) (auto simp: init_sysThrot_store_def create_map_def kmalloc_def store_obj_def fun_upd_twist)
  next
    case 3
    then show ?thesis using b fresh destroy_new_map[OF wfs(1)]
      by (intro nomem[of "brk h" "h\<lparr>brk := Suc (Suc (Suc (brk h)))\<rparr>"]) (auto simp: init_sysThrot_store_def create_map_def kmalloc_def kfree_def fun_upd_idem)
  next
    case 4
    then show ?thesis using b fresh destroy_new_map[OF wfs(2)]
      by (intro nomem[of "brk h" "h\<lparr>brk := Suc (Suc (Suc (brk h)))\<rparr>"]) (auto simp: init_sysThrot_store_def create_map_def kmalloc_def kfree_def fun_upd_idem)
  next
    case 5
    then show ?thesis using b fresh
      by (intro nomem[of "brk h" "h\<lparr>brk := Suc (Suc (Suc (brk h)))\<rparr>"]) (auto simp: init_sysThrot_store_def create_map_def kmalloc_def kfree_def fun_upd_idem)
  qed
qed

text \<open>The heap after a successful \<open>init_sysThrot_store\<close> on an empty heap.\<close>

definition booted_heap :: heap where
  "booted_heap = \<lparr>mem = [0x1000 \<mapsto> KStore 0x1001 0x1002, 0x1001 \<mapsto> KMap empty_map, 0x1002 \<mapsto> KMap empty_map],
                  brk = 0x1003, alloc_ok = (\<lambda>_. True)\<rparr>"

lemma booted_heap_inv: "store_inv 0x1000 {} booted_heap"
proof -
  have "layout user_key user_ok program_key program_ok 0x1000 (KStore 0x1001 0x1002) {} booted_heap 0x1001 empty_map 0x1002 empty_map"
    by (auto simp: layout_def booted_heap_def heap_wf_def map_at_def map_inv_empty footprint_def split: if_splits)
  then show ?thesis by (auto simp: store_inv_def)
qed

lemma booted_heap_contents: "store_users 0x1000 booted_heap = {}" "store_programs 0x1000 booted_heap = {}"
  by (auto simp: store_users_def store_programs_def booted_heap_def items_def empty_map_def split: if_splits)

lemma booted_heap_alloc: "alloc_ok booted_heap n"
  by (simp add: booted_heap_def)


subsection \<open>The interface the rest of the module uses\<close>

text \<open>A set of keys behind three operations that return the code's error numbers. Any sequence of
  additions and removals behaves as on a set, and the lookup answers from that set.\<close>

datatype 'k member_op = Add 'k | Remove 'k

fun op_key :: "'k member_op \<Rightarrow> 'k" where
  "op_key (Add k) = k"
| "op_key (Remove k) = k"

locale membership =
  fixes add remove :: "'k \<Rightarrow> heap \<Rightarrow> (int \<times> heap) option" and find :: "'k \<Rightarrow> heap \<Rightarrow> int option"
    and elems :: "heap \<Rightarrow> 'k set" and inv :: "heap \<Rightarrow> bool" and valid :: "'k \<Rightarrow> bool"
  assumes add_law: "inv h \<Longrightarrow> valid k \<Longrightarrow> \<exists>r h'. add k h = Some (r, h') \<and> inv h' \<and>
      elems h' = (if r = 0 then insert k (elems h) else elems h) \<and> (r = 0 \<longrightarrow> k \<notin> elems h)"
    and remove_law: "inv h \<Longrightarrow> valid k \<Longrightarrow> \<exists>r h'. remove k h = Some (r, h') \<and> inv h' \<and>
      elems h' = (if r = 0 then elems h - {k} else elems h) \<and> (r = 0 \<longrightarrow> k \<in> elems h)"
    and find_law: "inv h \<Longrightarrow> valid k \<Longrightarrow> find k h = Some (if k \<in> elems h then 0 else -1)"

text \<open>Running a sequence of operations, with its return codes, and the effect on the abstract set.\<close>

fun run_ops :: "('k \<Rightarrow> heap \<Rightarrow> (int \<times> heap) option) \<Rightarrow> ('k \<Rightarrow> heap \<Rightarrow> (int \<times> heap) option) \<Rightarrow>
    'k member_op list \<Rightarrow> heap \<Rightarrow> (int list \<times> heap) option" where
  "run_ops add remove [] h = Some ([], h)"
| "run_ops add remove (Add k # ops) h =
     do { (r, h) \<leftarrow> add k h; (rs, h) \<leftarrow> run_ops add remove ops h; Some (r # rs, h) }"
| "run_ops add remove (Remove k # ops) h =
     do { (r, h) \<leftarrow> remove k h; (rs, h) \<leftarrow> run_ops add remove ops h; Some (r # rs, h) }"

fun set_ops :: "'k member_op list \<Rightarrow> int list \<Rightarrow> 'k set \<Rightarrow> 'k set" where
  "set_ops (Add k # ops) (r # rs) S = set_ops ops rs (if r = 0 then insert k S else S)"
| "set_ops (Remove k # ops) (r # rs) S = set_ops ops rs (if r = 0 then S - {k} else S)"
| "set_ops ops rs S = S"

lemma set_ops_subset: "set_ops ops rs S \<subseteq> S \<union> op_key ` set ops"
  by (induction ops rs S rule: set_ops.induct) auto

context membership
begin

lemma run_ops_refines:
  assumes "inv h" and "\<forall>p \<in> set ops. valid (op_key p)"
  shows "\<exists>rs h'. run_ops add remove ops h = Some (rs, h') \<and> inv h' \<and> length rs = length ops \<and>
    elems h' = set_ops ops rs (elems h)"
  using assms
proof (induction ops arbitrary: h)
  case Nil
  then show ?case by simp
next
  case (Cons x ops)
  have v: "valid (op_key x)" and vs: "\<forall>p \<in> set ops. valid (op_key p)" using Cons.prems by auto
  show ?case
  proof (cases x)
    case (Add k)
    then obtain r h1 where a: "add k h = Some (r, h1)" "inv h1"
        "elems h1 = (if r = 0 then insert k (elems h) else elems h)"
      using add_law[OF Cons.prems(1), of k] v by auto
    obtain rs h' where "run_ops add remove ops h1 = Some (rs, h')" "inv h'" "length rs = length ops"
        "elems h' = set_ops ops rs (elems h1)"
      using Cons.IH[OF a(2) vs] by blast
    with Add a show ?thesis by simp
  next
    case (Remove k)
    then obtain r h1 where a: "remove k h = Some (r, h1)" "inv h1"
        "elems h1 = (if r = 0 then elems h - {k} else elems h)"
      using remove_law[OF Cons.prems(1), of k] v by auto
    obtain rs h' where "run_ops add remove ops h1 = Some (rs, h')" "inv h'" "length rs = length ops"
        "elems h' = set_ops ops rs (elems h1)"
      using Cons.IH[OF a(2) vs] by blast
    with Remove a show ?thesis by simp
  qed
qed

lemma find_after_add:
  "inv h \<Longrightarrow> valid k \<Longrightarrow> valid k' \<Longrightarrow> add k h = Some (0, h') \<Longrightarrow>
    find k' h' = (if k' = k then Some 0 else find k' h)"
  using add_law[of h k] find_law[of h k'] find_law[of h' k'] by auto

lemma find_after_remove:
  "inv h \<Longrightarrow> valid k \<Longrightarrow> valid k' \<Longrightarrow> remove k h = Some (0, h') \<Longrightarrow>
    find k' h' = (if k' = k then Some (-1) else find k' h)"
  using remove_law[of h k] find_law[of h k'] find_law[of h' k'] by auto

lemma add_remove_roundtrip:
  "inv h \<Longrightarrow> valid k \<Longrightarrow> add k h = Some (0, h1) \<Longrightarrow> remove k h1 = Some (r, h2) \<Longrightarrow> r = 0 \<Longrightarrow>
    elems h2 = elems h"
  using add_law[of h k] remove_law[of h1 k] by auto

end

lemma store_frame_same: "store_inv sp R h \<Longrightarrow> same_mem h h' \<Longrightarrow> store_frame sp R h h'"
  by (simp add: store_frame_def store_inv_same_mem same_mem_contents)

lemma store_frame_inv: "store_frame sp R h h' \<Longrightarrow> store_inv sp R h'"
  by (simp add: store_frame_def)

lemma add_user_law:
  assumes inv: "store_inv sp R h"
  shows "\<exists>r h'. add_user_to_store sp k h = Some (r, h') \<and> store_inv sp R h' \<and>
    store_users sp h' = (if r = 0 then insert k (store_users sp h) else store_users sp h) \<and> (r = 0 \<longrightarrow> k \<notin> store_users sp h)"
  using assms
proof (cases rule: add_user_cases[where uid = k])
  case (refused r h')
  then have "r \<noteq> 0" by auto
  then show ?thesis
    using refused same_mem_contents[OF refused(2)] store_inv_same_mem[OF inv refused(2)]
    by (intro exI[of _ r] exI[of _ h']) simp
next
  case (added h')
  then show ?thesis by (intro exI[of _ 0] exI[of _ h']) (simp add: store_frame_inv)
qed

lemma remove_user_law:
  assumes inv: "store_inv sp R h"
  shows "\<exists>r h'. remove_user_from_store sp k h = Some (r, h') \<and> store_inv sp R h' \<and>
    store_users sp h' = (if r = 0 then store_users sp h - {k} else store_users sp h) \<and> (r = 0 \<longrightarrow> k \<in> store_users sp h)"
  using assms
proof (cases rule: remove_user_cases[where uid = k])
  case (refused r h')
  then have "r \<noteq> 0" by auto
  then show ?thesis
    using refused same_mem_contents[OF refused(2)] store_inv_same_mem[OF inv refused(2)]
    by (intro exI[of _ r] exI[of _ h']) simp
next
  case (removed h')
  then show ?thesis by (intro exI[of _ 0] exI[of _ h']) (simp add: store_frame_inv)
qed

lemma add_program_law:
  assumes inv: "store_inv sp R h" and "0 \<notin> set k"
  shows "\<exists>r h'. add_program_to_store sp k h = Some (r, h') \<and> store_inv sp R h' \<and>
    store_programs sp h' = (if r = 0 then insert k (store_programs sp h) else store_programs sp h) \<and> (r = 0 \<longrightarrow> k \<notin> store_programs sp h)"
  using assms
proof (cases rule: add_program_cases[where name = k])
  case (refused r h')
  then have "r \<noteq> 0" by auto
  then show ?thesis
    using refused same_mem_contents[OF refused(2)] store_inv_same_mem[OF inv refused(2)]
    by (intro exI[of _ r] exI[of _ h']) simp
next
  case (added h')
  then show ?thesis by (intro exI[of _ 0] exI[of _ h']) (simp add: store_frame_inv)
qed

lemma remove_program_law:
  assumes inv: "store_inv sp R h" and "0 \<notin> set k"
  shows "\<exists>r h'. remove_program_from_store sp k h = Some (r, h') \<and> store_inv sp R h' \<and>
    store_programs sp h' = (if r = 0 then store_programs sp h - {k} else store_programs sp h) \<and> (r = 0 \<longrightarrow> k \<in> store_programs sp h)"
  using assms
proof (cases rule: remove_program_cases[where name = k])
  case (refused r h')
  then have "r \<noteq> 0" by auto
  then show ?thesis
    using refused same_mem_contents[OF refused(2)] store_inv_same_mem[OF inv refused(2)]
    by (intro exI[of _ r] exI[of _ h']) simp
next
  case (removed h')
  then show ?thesis by (intro exI[of _ 0] exI[of _ h']) (simp add: store_frame_inv)
qed

interpretation user_members: membership "add_user_to_store sp" "remove_user_from_store sp"
  "find_user_in_store sp" "store_users sp" "store_inv sp R" "\<lambda>_. True" for sp R
  by unfold_locales (erule add_user_law remove_user_law find_user_eq)+

interpretation program_members: membership "add_program_to_store sp" "remove_program_from_store sp"
  "find_program_in_store sp" "store_programs sp" "store_inv sp R" "\<lambda>s. 0 \<notin> set s" for sp R
  by unfold_locales (erule (1) add_program_law remove_program_law find_program_eq)+


section \<open>Properties\<close>

text \<open>C10: Adding a user never faults, leaks nothing and touches nobody else's memory. It returns 0
  only when the user is new, and then the user is in the store; \<open>-EEXIST\<close> exactly when the user
  was there; \<open>-ENOMEM\<close> only when an allocation fails; \<open>-ENOSPC\<close> only when some registered user
  hashes to the same first slot. On each of these errors the memory is as before the call.\<close>

theorem add_user_to_store_correct:
  assumes "store_inv sp R h"
  shows "\<exists>r h'. add_user_to_store sp uid h = Some (r, h') \<and> store_frame sp R h h' \<and>
    store_programs sp h' = store_programs sp h \<and>
    (if r = 0 then uid \<notin> store_users sp h \<and> store_users sp h' = insert uid (store_users sp h)
     else mem h' = mem h \<and> r \<in> {- EEXIST, - ENOMEM, - ENOSPC} \<and>
          (r = - EEXIST \<longleftrightarrow> uid \<in> store_users sp h) \<and> (r = - ENOMEM \<longrightarrow> (\<exists>n. \<not> alloc_ok h n)) \<and>
          (r = - ENOSPC \<longrightarrow> (\<exists>y \<in> store_users sp h. hash1 (getKeyFromUserId y) = hash1 (getKeyFromUserId uid))))"
  using assms
proof (cases rule: add_user_cases[where uid = uid])
  case (refused r h')
  then show ?thesis
    using same_mem_contents[OF refused(2)] store_frame_same[OF assms refused(2)]
    by (intro exI[of _ r] exI[of _ h']) auto
next
  case (added h')
  then show ?thesis by (intro exI[of _ 0] exI[of _ h']) simp
qed

theorem add_user_to_store_correct_witness:
  "\<exists>h'. add_user_to_store 0x1000 1000 booted_heap = Some (0, h') \<and> store_inv 0x1000 {} h' \<and>
    store_users 0x1000 h' = {1000}"
  using add_user_to_store_correct[OF booted_heap_inv, of 1000]
  by (auto simp: booted_heap_contents booted_heap_alloc store_frame_def split: if_splits)

text \<open>Removing a user never faults, leaks nothing and touches nobody else's memory. It returns 0
  exactly when the user was in the store and is gone afterwards; \<open>-EINVAL\<close> exactly when the user
  was not there; \<open>-ENOMEM\<close> only when an allocation fails. On errors the memory is as before the
  call.\<close>

lemma remove_user_from_store_correct:
  assumes "store_inv sp R h"
  shows "\<exists>r h'. remove_user_from_store sp uid h = Some (r, h') \<and> store_frame sp R h h' \<and>
    store_programs sp h' = store_programs sp h \<and>
    (if r = 0 then uid \<in> store_users sp h \<and> store_users sp h' = store_users sp h - {uid}
     else mem h' = mem h \<and> r \<in> {- EINVAL, - ENOMEM} \<and>
          (r = - EINVAL \<longleftrightarrow> uid \<notin> store_users sp h) \<and> (r = - ENOMEM \<longrightarrow> (\<exists>n. \<not> alloc_ok h n)))"
  using assms
proof (cases rule: remove_user_cases[where uid = uid])
  case (refused r h')
  then show ?thesis
    using same_mem_contents[OF refused(2)] store_frame_same[OF assms refused(2)]
    by (intro exI[of _ r] exI[of _ h']) auto
next
  case (removed h')
  then show ?thesis by (intro exI[of _ 0] exI[of _ h']) simp
qed

text \<open>Adding a program name has the same contract as adding a user, on the set of names; the
  hash of the name only chooses slots, so names with equal hashes are never confused.\<close>

lemma add_program_to_store_correct:
  assumes "store_inv sp R h" and "0 \<notin> set name"
  shows "\<exists>r h'. add_program_to_store sp name h = Some (r, h') \<and> store_frame sp R h h' \<and>
    store_users sp h' = store_users sp h \<and>
    (if r = 0 then name \<notin> store_programs sp h \<and> store_programs sp h' = insert name (store_programs sp h)
     else mem h' = mem h \<and> r \<in> {- EEXIST, - ENOMEM, - ENOSPC} \<and>
          (r = - EEXIST \<longleftrightarrow> name \<in> store_programs sp h) \<and> (r = - ENOMEM \<longrightarrow> (\<exists>n. \<not> alloc_ok h n)) \<and>
          (r = - ENOSPC \<longrightarrow> (\<exists>y \<in> store_programs sp h. hash1 (getKeyFromProgramName y) = hash1 (getKeyFromProgramName name))))"
  using assms
proof (cases rule: add_program_cases[where name = name])
  case (refused r h')
  then show ?thesis
    using same_mem_contents[OF refused(2)] store_frame_same[OF assms(1) refused(2)]
    by (intro exI[of _ r] exI[of _ h']) auto
next
  case (added h')
  then show ?thesis by (intro exI[of _ 0] exI[of _ h']) simp
qed

text \<open>Removing a program name has the same contract as removing a user.\<close>

lemma remove_program_from_store_correct:
  assumes "store_inv sp R h" and "0 \<notin> set name"
  shows "\<exists>r h'. remove_program_from_store sp name h = Some (r, h') \<and> store_frame sp R h h' \<and>
    store_users sp h' = store_users sp h \<and>
    (if r = 0 then name \<in> store_programs sp h \<and> store_programs sp h' = store_programs sp h - {name}
     else mem h' = mem h \<and> r \<in> {- EINVAL, - ENOMEM} \<and>
          (r = - EINVAL \<longleftrightarrow> name \<notin> store_programs sp h) \<and> (r = - ENOMEM \<longrightarrow> (\<exists>n. \<not> alloc_ok h n)))"
  using assms
proof (cases rule: remove_program_cases[where name = name])
  case (refused r h')
  then show ?thesis
    using same_mem_contents[OF refused(2)] store_frame_same[OF assms(1) refused(2)]
    by (intro exI[of _ r] exI[of _ h']) auto
next
  case (removed h')
  then show ?thesis by (intro exI[of _ 0] exI[of _ h']) simp
qed

text \<open>Any sequence of registrations and deregistrations of users runs without a fault, and what
  the lookup of the hot path answers afterwards is membership in the set obtained by performing the
  successful operations on a set.\<close>

lemma user_store_refines_set:
  assumes "store_inv sp R h"
  shows "\<exists>rs h'. run_ops (add_user_to_store sp) (remove_user_from_store sp) ops h = Some (rs, h') \<and>
    store_inv sp R h' \<and> length rs = length ops \<and>
    (\<forall>uid. find_user_in_store sp uid h' =
       Some (if uid \<in> set_ops ops rs (store_users sp h) then 0 else -1))"
proof -
  obtain rs h' where "run_ops (add_user_to_store sp) (remove_user_from_store sp) ops h = Some (rs, h')"
      "store_inv sp R h'" "length rs = length ops" "store_users sp h' = set_ops ops rs (store_users sp h)"
    using user_members.run_ops_refines[OF assms, of ops] by auto
  then show ?thesis by (intro exI[of _ rs] exI[of _ h']) (simp add: find_user_eq)
qed

text \<open>The listing of users gives every registered user exactly once and at most
  \<open>MAX_STORE_USERS\<close> of them, so it fits the array its caller allocates, and it never reads memory
  that is not live.\<close>

lemma get_all_users_complete:
  assumes "store_inv sp R h"
  shows "\<exists>us. get_all_users_from_store sp h = Some us \<and> set us = store_users sp h \<and> distinct us \<and>
    length us \<le> MAX_STORE_USERS"
  using assms
proof (rule store_invE)
  fix u mu p mp
  assume at: "map_at user_key user_ok h u mu" and ld: "load_store sp h = Some (u, p)"
    and c: "store_users sp h = {v. KInt v \<in> items h mu}"
  let ?us = "map (slot_user h mu) (filter (\<lambda>s. s \<in> occ mu) slots)"
  have inv: "map_inv user_key user_ok h mu" using at by (simp add: map_at_def)
  have "get_all_users_from_store sp h = Some ?us"
    using ld users.load_map_at[OF at] list_users_eq[OF inv] by (simp add: get_all_users_from_store_def)
  moreover have "distinct ?us" "set ?us = store_users sp h"
    unfolding c using slots_values[where K = KInt and val = "slot_user h mu", OF inv slot_user_mem[OF inv]] by (simp_all add: inj_def)
  moreover have "length ?us \<le> MAX_STORE_USERS"
    using length_filter_le[of "\<lambda>s. s \<in> occ mu" slots] by (simp add: length_slots)
  ultimately show ?thesis by blast
qed

text \<open>The listing of programs writes at most \<open>MAX_STORE_PROGRAMS\<close> names, each shorter than
  \<open>TASK_COMM_LEN\<close> and a prefix of a registered name; when no more than \<open>MAX_STORE_PROGRAMS\<close>
  names are registered and all are shorter than \<open>TASK_COMM_LEN\<close>, it is exactly the set of
  registered names.\<close>

lemma get_all_programs_bounded:
  assumes "store_inv sp R h"
  shows "\<exists>ps. get_all_programs_from_store sp h = Some ps \<and> length ps \<le> MAX_STORE_PROGRAMS \<and>
    (\<forall>s \<in> set ps. length s < TASK_COMM_LEN \<and> (\<exists>n \<in> store_programs sp h. s = take (TASK_COMM_LEN - 1) n)) \<and>
    (card (store_programs sp h) \<le> MAX_STORE_PROGRAMS \<and>
     (\<forall>n \<in> store_programs sp h. length n < TASK_COMM_LEN) \<longrightarrow> set ps = store_programs sp h)"
  using assms
proof (rule store_invE)
  fix u mu p mp
  assume at: "map_at program_key program_ok h p mp" and ld: "load_store sp h = Some (u, p)"
    and c: "store_programs sp h = {v. KStr v \<in> items h mp}"
  let ?ns = "map (slot_program h mp) (filter (\<lambda>s. s \<in> occ mp) slots)"
  let ?ps = "take MAX_STORE_PROGRAMS (map (take (TASK_COMM_LEN - 1)) ?ns)"
  have inv: "map_inv program_key program_ok h mp" using at by (simp add: map_at_def)
  have ret: "get_all_programs_from_store sp h = Some ?ps"
    using ld programs.load_map_at[OF at] list_programs_eq[OF inv, of slots 0]
    by (simp add: get_all_programs_from_store_def comp_def)
  have ns: "distinct ?ns" "set ?ns = store_programs sp h"
    unfolding c using slots_values[where K = KStr and val = "slot_program h mp", OF inv slot_program_mem[OF inv]] by (simp_all add: inj_def)
  have part: "length s < TASK_COMM_LEN \<and> (\<exists>n \<in> store_programs sp h. s = take (TASK_COMM_LEN - 1) n)"
    if "s \<in> set ?ps" for s
  proof -
    have "s \<in> take (TASK_COMM_LEN - 1) ` set ?ns" using in_set_takeD[OF that] by (simp add: image_image)
    then show ?thesis using ns(2) by auto
  qed
  have all: "set ?ps = store_programs sp h"
    if few: "card (store_programs sp h) \<le> MAX_STORE_PROGRAMS" and short: "\<forall>n \<in> store_programs sp h. length n < TASK_COMM_LEN"
  proof -
    have "map (take (TASK_COMM_LEN - 1)) ?ns = ?ns" using short ns(2) by (intro map_idI) auto
    moreover have "length ?ns \<le> MAX_STORE_PROGRAMS" using few distinct_card[OF ns(1)] ns(2) by simp
    ultimately have "?ps = ?ns" by simp
    with ns(2) show ?thesis by simp
  qed
  show ?thesis using ret part all by (intro exI[of _ ?ps]) simp
qed

text \<open>Destroying the store frees exactly the store: the object itself, both maps and every item,
  each once, and what remains live is the memory of the others, unchanged.\<close>

lemma destroy_store_frees_all:
  assumes "store_inv sp R h"
  shows "\<exists>h'. destroy_sysThrot_store sp h = Some (0, h') \<and> dom (mem h') = R \<and>
    (\<forall>r \<in> R. mem h' r = mem h r)"
  using assms
proof (rule store_invE)
  fix u mu p mp
  assume lay: "layout user_key user_ok program_key program_ok sp (KStore u p) R h u mu p mp"
    and wf: "heap_wf h" and ld: "load_store sp h = Some (u, p)"
  have sp: "mem h sp = Some (KStore u p)" "sp \<noteq> NULL"
    using lay heap_wfD[OF wf] by (auto simp: layout_def)
  define h1 where "h1 = h\<lparr>mem := (mem h)(sp \<mapsto> KStore NULL NULL)\<rparr>"
  have st: "store_obj sp (KStore NULL NULL) h = Some h1" using sp by (simp add: store_obj_def h1_def)
  have wf1: "heap_wf h1" unfolding h1_def using wf sp(1) by (rule heap_wf_mem_upd)
  have at1: "map_at user_key user_ok h1 u mu"
    using lay by (simp add: layout_def h1_def)
  define h2 where "h2 = h1\<lparr>mem := mem h1 |` (- footprint u mu)\<rparr>"
  have d1: "destroy_map u h1 = Some h2" unfolding h2_def using at1 wf1 by (rule users.destroy_map_eq)
  have wf2: "heap_wf h2" unfolding h2_def using wf1 by (rule heap_wf_mem_sub) auto
  have "mem h2 a = mem h a" if "a \<in> footprint p mp" for a
    using that lay by (auto simp: layout_def h2_def h1_def restrict_map_def)
  then have at2: "map_at program_key program_ok h2 p mp"
    using lay map_at_cong[of p mp h2 h] by (auto simp: layout_def)
  define h3 where "h3 = h2\<lparr>mem := mem h2 |` (- footprint p mp)\<rparr>"
  have d2: "destroy_map p h2 = Some h3" unfolding h3_def using at2 wf2 by (rule programs.destroy_map_eq)
  have "mem h3 sp = Some (KStore NULL NULL)" using lay by (auto simp: layout_def h3_def h2_def h1_def)
  then have k: "kfree sp h3 = Some (h3\<lparr>mem := (mem h3)(sp := None)\<rparr>)" using sp(2) by (simp add: kfree_live)
  have m: "(mem h3)(sp := None) = mem h |` R"
    using lay by (auto simp: layout_def h3_def h2_def h1_def restrict_map_def fun_eq_iff dom_def)
  have "destroy_sysThrot_store sp h = Some (0, h3\<lparr>mem := mem h |` R\<rparr>)"
    using sp(2) ld st d1 d2 k m by (simp add: destroy_sysThrot_store_def)
  moreover have "dom (mem h |` R) = R" using lay by (auto simp: layout_def)
  ultimately show ?thesis by simp
qed

text \<open>Initialisation either returns 0 with a well-formed, empty store beside the memory that was
  live before, or fails with \<open>-ENOMEM\<close> after a failed allocation, having given back everything it
  allocated.\<close>

lemma init_store_correct:
  assumes "heap_wf h"
  shows "\<exists>r sp h'. init_sysThrot_store h = Some (r, sp, h') \<and> (\<forall>a \<in> dom (mem h). mem h' a = mem h a) \<and>
    (if r = 0 then store_inv sp (dom (mem h)) h' \<and> store_users sp h' = {} \<and> store_programs sp h' = {}
     else r = - ENOMEM \<and> mem h' = mem h \<and> (\<exists>n. \<not> alloc_ok h n))"
  using assms
proof (cases rule: init_store_cases)
  case (ok h')
  let ?u = "Suc (brk h)" and ?p = "Suc (Suc (brk h))"
  have old: "brk h \<notin> dom (mem h)" "?u \<notin> dom (mem h)" "?p \<notin> dom (mem h)"
    using heap_wf_fresh[OF assms] by (simp_all add: domIff)
  have "heap_wf h'" using assms by (auto simp: heap_wf_def ok(2) less_Suc_eq)
  then have lay: "layout user_key user_ok program_key program_ok (brk h) (KStore ?u ?p) (dom (mem h))
      h' ?u empty_map ?p empty_map"
    using old by (auto simp: layout_def map_at_def map_inv_empty footprint_def ok(2))
  have "\<forall>a \<in> dom (mem h). mem h' a = mem h a" using old by (auto simp: ok(2))
  then show ?thesis
    using lay layout_contents[OF lay] ok(1) by (auto simp: store_inv_def)
next
  case (nomem sp h')
  then show ?thesis by auto
qed

text \<open>C11: A failed initialisation leaves in \<open>*store\<close> either NULL or the address of the object it has
  just freed, and any membership lookup through that pointer faults. \<open>sysThrot_init\<close> ignores the
  return code and goes on to serve lookups.\<close>

theorem failed_init_leaves_unusable_pointer:
  assumes "heap_wf h" and "init_sysThrot_store h = Some (r, sp, h')" and "r \<noteq> 0"
  shows "find_user_in_store sp uid h' = None \<and> find_program_in_store sp name h' = None"
  using assms(1)
proof (cases rule: init_store_cases)
  case (ok h'')
  then show ?thesis using assms by simp
next
  case (nomem sp' h'')
  then have "mem h' sp = None" using assms heap_wf_fresh[OF assms(1)] by auto
  then show ?thesis
    by (simp add: find_user_in_store_def find_program_in_store_def load_store_def load_def)
qed

theorem failed_init_leaves_unusable_pointer_witness:
  "\<exists>r sp h'. init_sysThrot_store (empty_heap (\<lambda>n. n = 0x1000)) = Some (r, sp, h') \<and> sp \<noteq> NULL \<and>
    find_user_in_store sp 1000 h' = None"
proof -
  have *: "init_sysThrot_store (empty_heap (\<lambda>n. n = 0x1000)) =
      Some (- ENOMEM, 0x1000, \<lparr>mem = Map.empty, brk = 0x1003, alloc_ok = (\<lambda>n. n = 0x1000)\<rparr>)"
    by (simp add: init_sysThrot_store_def create_map_def kmalloc_def kfree_def empty_heap_def fun_upd_idem)
  show ?thesis using failed_init_leaves_unusable_pointer[OF heap_wf_empty *] * by simp
qed

end
