(* ===== verification/Queue.thy ===== *)
theory Queue
  imports Throttle_Prelude
begin

text \<open>
  The queue of blocked threads (\<open>sysThrot_queue.c\<close>). Elements live in a slab cache, modelled by a
  heap of its own; \<open>global_queue\<close> and \<open>junk_list\<close> are the two intrusive lists, as lists of
  element addresses. Every function is one critical section under \<open>queue_lock\<close> (and
  \<open>junk_lock\<close>), except \<open>add_to_queue\<close>, which allocates before it takes the lock: its two halves
  are \<open>queue_alloc\<close> and \<open>queue_link\<close>. Allocating from or freeing to a cache that has been
  destroyed is a fault. \<open>wake_up_flag\<close> and \<open>exited\<close> only ever hold 0 or 1.
\<close>

section \<open>Data\<close>

record queue_elem =
  wake_up_flag :: bool
  exited :: bool

record queue =
  slab :: "queue_elem kheap"
  queue_cache :: bool
  global_queue :: "addr list"
  junk_list :: "addr list"
  current_in_queue :: int

text \<open>What \<open>add_to_queue\<close> returns: NULL, the marker \<open>(int *)1\<close>, or the address of the element
  whose flag the thread will watch.\<close>

datatype add_result = AddNull | AddOff | AddFlag addr

section \<open>Operations\<close>

definition kmem_cache_free :: "addr \<Rightarrow> queue \<Rightarrow> queue option" where
  "kmem_cache_free p q =
     (if queue_cache q then do { s \<leftarrow> kfree p (slab q); Some (q\<lparr>slab := s\<rparr>) } else None)"

text \<open>\<open>created\<close> says whether \<open>kmem_cache_create\<close> returned a cache.\<close>

definition init_queue :: "bool \<Rightarrow> queue \<Rightarrow> int \<times> queue" where
  "init_queue created q =
     (let q = q\<lparr>queue_cache := created\<rparr> in if \<not> created then (- ENOMEM, q) else (0, q))"

definition queue_alloc :: "queue \<Rightarrow> (addr \<times> queue) option" where
  "queue_alloc q =
     (if queue_cache q
      then let (p, s) = kmalloc \<lparr>wake_up_flag = False, exited = False\<rparr> (slab q)
           in Some (p, q\<lparr>slab := s\<rparr>)
      else None)"

definition queue_link :: "bool \<Rightarrow> addr \<Rightarrow> queue \<Rightarrow> (add_result \<times> queue) option" where
  "queue_link working p q =
     (if \<not> working then do { q \<leftarrow> kmem_cache_free p q; Some (AddOff, q) }
      else Some (AddFlag p, q\<lparr>current_in_queue := current_in_queue q + 1,
                               global_queue := global_queue q @ [p]\<rparr>))"

definition add_to_queue :: "bool \<Rightarrow> queue \<Rightarrow> (add_result \<times> queue) option" where
  "add_to_queue working q = do {
     (p, q) \<leftarrow> queue_alloc q;
     if p = NULL then Some (AddNull, q) else queue_link working p q }"

definition move_to_junk :: "addr \<Rightarrow> queue \<Rightarrow> queue" where
  "move_to_junk p q =
     q\<lparr>global_queue := remove1 p (global_queue q), junk_list := junk_list q @ [p]\<rparr>"

definition set_wake_up :: "addr \<Rightarrow> queue \<Rightarrow> queue option" where
  "set_wake_up p q = do {
     e \<leftarrow> load p (slab q);
     s \<leftarrow> store_obj p (e\<lparr>wake_up_flag := True\<rparr>) (slab q);
     Some (q\<lparr>slab := s\<rparr>) }"

fun unqueue_loop :: "addr list \<Rightarrow> int \<Rightarrow> queue \<Rightarrow> (int \<times> queue) option" where
  "unqueue_loop [] missing q = Some (missing, q)"
| "unqueue_loop (data # rest) missing q = do {
     e \<leftarrow> load data (slab q);
     if exited e then
       (let q = move_to_junk data q
        in unqueue_loop rest missing (q\<lparr>current_in_queue := current_in_queue q - 1\<rparr>))
     else if missing \<le> 0 then Some (missing, q)
     else do {
       q \<leftarrow> set_wake_up data q;
       unqueue_loop rest (missing - 1) (move_to_junk data q) } }"

definition unqueue :: "int \<Rightarrow> queue \<Rightarrow> (int \<times> queue) option" where
  "unqueue n q = do {
     (missing, q) \<leftarrow> unqueue_loop (global_queue q) n q;
     Some (n - missing, q\<lparr>current_in_queue := current_in_queue q - (n - missing)\<rparr>) }"

fun free_junk_loop :: "addr list \<Rightarrow> queue \<Rightarrow> queue option" where
  "free_junk_loop [] q = Some q"
| "free_junk_loop (data # rest) q = do {
     e \<leftarrow> load data (slab q);
     if exited e then do {
       q \<leftarrow> kmem_cache_free data (q\<lparr>junk_list := remove1 data (junk_list q)\<rparr>);
       free_junk_loop rest q }
     else free_junk_loop rest q }"

definition free_junk :: "queue \<Rightarrow> queue option" where
  "free_junk q = free_junk_loop (junk_list q) q"

definition set_exited_flag :: "addr \<Rightarrow> queue \<Rightarrow> queue option" where
  "set_exited_flag p q = do {
     e \<leftarrow> load p (slab q);
     s \<leftarrow> store_obj p (e\<lparr>exited := True\<rparr>) (slab q);
     Some (q\<lparr>slab := s\<rparr>) }"

fun wake_all :: "addr list \<Rightarrow> queue \<Rightarrow> queue option" where
  "wake_all [] q = Some q"
| "wake_all (data # rest) q = do { q \<leftarrow> set_wake_up data q; wake_all rest q }"

definition wake_up_queue :: "queue \<Rightarrow> (int \<times> queue) option" where
  "wake_up_queue q = do {
     let waiting = global_queue q;
     q \<leftarrow> wake_all waiting q;
     Some (int (length waiting),
           q\<lparr>global_queue := [], junk_list := junk_list q @ waiting, current_in_queue := 0\<rparr>) }"

definition destroy_queue :: "queue \<Rightarrow> (int \<times> queue) option" where
  "destroy_queue q = do {
     q \<leftarrow> free_junk q;
     Some (0, q\<lparr>queue_cache := False\<rparr>) }"

section \<open>Invariant\<close>

definition has_exited :: "queue \<Rightarrow> addr \<Rightarrow> bool" where
  "has_exited q p = (case mem (slab q) p of Some e \<Rightarrow> exited e | None \<Rightarrow> False)"

definition is_woken :: "queue \<Rightarrow> addr \<Rightarrow> bool" where
  "is_woken q p = (case mem (slab q) p of Some e \<Rightarrow> wake_up_flag e | None \<Rightarrow> False)"

text \<open>The live elements are those of the two lists and those in the set \<open>H\<close> of elements that are
  allocated but not yet linked. An element of \<open>global_queue\<close> has not been woken; one of
  \<open>junk_list\<close> has been woken or has left.\<close>

definition queue_inv :: "addr set \<Rightarrow> queue \<Rightarrow> bool" where
  "queue_inv H q \<longleftrightarrow>
     heap_wf (slab q) \<and> distinct (global_queue q @ junk_list q) \<and>
     set (global_queue q @ junk_list q) \<inter> H = {} \<and>
     dom (mem (slab q)) = set (global_queue q @ junk_list q) \<union> H \<and>
     current_in_queue q = int (length (global_queue q)) \<and>
     (\<forall>p \<in> set (global_queue q). \<not> is_woken q p) \<and>
     (\<forall>p \<in> set (junk_list q). is_woken q p \<or> has_exited q p)"


section \<open>What a pass over the queue does\<close>

text \<open>The part of the queue that \<open>unqueue n\<close> takes off: every thread that has left, and the first
  \<open>n\<close> that have not.\<close>

fun processed :: "(addr \<Rightarrow> bool) \<Rightarrow> int \<Rightarrow> addr list \<Rightarrow> addr list" where
  "processed gone n [] = []"
| "processed gone n (p # ps) =
     (if gone p then p # processed gone n ps
      else if n \<le> 0 then [] else p # processed gone (n - 1) ps)"

definition mark_woken :: "addr set \<Rightarrow> (addr \<rightharpoonup> queue_elem) \<Rightarrow> (addr \<rightharpoonup> queue_elem)" where
  "mark_woken W m = (\<lambda>p. if p \<in> W then map_option (\<lambda>e. e\<lparr>wake_up_flag := True\<rparr>) (m p) else m p)"

abbreviation present :: "queue \<Rightarrow> addr list \<Rightarrow> addr list" where
  "present q ps \<equiv> filter (\<lambda>p. \<not> has_exited q p) ps"

lemma processed_prefix: "processed gone n ps @ drop (length (processed gone n ps)) ps = ps"
  by (induction gone n ps rule: processed.induct) auto

lemma processed_woken:
  "filter (\<lambda>p. \<not> gone p) (processed gone n ps) = take (nat n) (filter (\<lambda>p. \<not> gone p) ps)"
proof (induction gone n ps rule: processed.induct)
  case (2 gone n p ps)
  then show ?case by (cases "nat n") (auto simp: nat_diff_distrib)
qed simp

lemma processed_length: "min (nat n) (length ps) \<le> length (processed gone n ps)"
proof (induction gone n ps rule: processed.induct)
  case (2 gone n p ps)
  show ?case
  proof (cases "gone p \<or> n \<le> 0")
    case True
    then show ?thesis using 2 by fastforce
  next
    case False
    then have "min (nat (n - 1)) (length ps) \<le> length (processed gone (n - 1) ps)"
      using 2 by simp
    then show ?thesis using False by simp
  qed
qed simp

lemma processed_subset: "set (processed gone n ps) \<subseteq> set ps"
  using processed_prefix [of gone n ps] by (metis set_append sup_ge1)

lemma mark_woken_dom [simp]: "dom (mark_woken W m) = dom m"
  by (auto simp: mark_woken_def dom_def split: if_splits)

lemma mark_woken_empty [simp]: "mark_woken {} m = m"
  by (simp add: mark_woken_def)

lemma mark_woken_insert:
  "m p = Some e \<Longrightarrow> mark_woken W (m(p \<mapsto> e\<lparr>wake_up_flag := True\<rparr>)) = mark_woken (insert p W) m"
  by (auto simp: mark_woken_def fun_eq_iff)

lemma mark_woken_exited [simp]:
  "mem (slab q') = mark_woken W (mem (slab q)) \<Longrightarrow> has_exited q' p = has_exited q p"
  by (auto simp: mark_woken_def has_exited_def split: option.splits)

lemma mark_woken_is_woken:
  "mem (slab q') = mark_woken W (mem (slab q)) \<Longrightarrow>
   is_woken q' p = (is_woken q p \<or> p \<in> W \<and> p \<in> dom (mem (slab q)))"
  by (auto simp: mark_woken_def is_woken_def split: option.splits)

lemma heap_wf_mark_woken [simp]: "heap_wf (s\<lparr>mem := mark_woken W (mem s)\<rparr>) = heap_wf s"
  by (auto simp: heap_wf_def mark_woken_def split: if_splits)

lemma set_wake_up_eq:
  "p \<in> dom (mem (slab q)) \<Longrightarrow>
   set_wake_up p q = Some (q\<lparr>slab := slab q\<lparr>mem := mark_woken {p} (mem (slab q))\<rparr>\<rparr>)"
  using mark_woken_insert [of "mem (slab q)" p _ "{}"]
  by (auto simp: set_wake_up_def load_def store_obj_def)

lemma mark_woken_mark_woken [simp]: "mark_woken V (mark_woken W m) = mark_woken (V \<union> W) m"
  by (auto simp: mark_woken_def fun_eq_iff option.map_comp comp_def split: option.splits)


section \<open>The operations on well-formed queues\<close>

lemma queue_invD:
  assumes "queue_inv H q"
  shows "heap_wf (slab q)" and "distinct (global_queue q)" and "distinct (junk_list q)"
    and "set (global_queue q) \<inter> set (junk_list q) = {}"
    and "set (global_queue q) \<subseteq> dom (mem (slab q))" and "set (junk_list q) \<subseteq> dom (mem (slab q))"
    and "H \<subseteq> dom (mem (slab q))" and "current_in_queue q = int (length (global_queue q))"
  using assms by (auto simp: queue_inv_def)

lemma load_elem: "p \<in> dom (mem (slab q)) \<Longrightarrow> \<exists>e. load p (slab q) = Some e \<and> exited e = has_exited q p"
  by (auto simp: load_def has_exited_def)

lemma unqueue_loop_eq:
  assumes "set ps \<subseteq> dom (mem (slab q))" and "distinct ps" and "global_queue q = ps"
  shows "unqueue_loop ps n q =
    Some (n - int (length (present q (processed (has_exited q) n ps))),
      q\<lparr>slab := slab q\<lparr>mem := mark_woken (set (present q (processed (has_exited q) n ps))) (mem (slab q))\<rparr>,
        global_queue := drop (length (processed (has_exited q) n ps)) ps,
        junk_list := junk_list q @ processed (has_exited q) n ps,
        current_in_queue := current_in_queue q
          - int (length (filter (has_exited q) (processed (has_exited q) n ps)))\<rparr>)"
  using assms
proof (induction ps arbitrary: n q)
  case Nil
  then show ?case by simp
next
  case (Cons p ps)
  obtain e where e: "load p (slab q) = Some e" "exited e = has_exited q p"
    using load_elem [of p q] Cons.prems by auto
  show ?case
  proof (cases "has_exited q p \<or> n \<le> 0")
    case True
    have same: "has_exited (q\<lparr>global_queue := a, junk_list := b, current_in_queue := c\<rparr>) = has_exited q" for a b c
      by (simp add: has_exited_def fun_eq_iff)
    from True show ?thesis
      using Cons.prems e Cons.IH [of "q\<lparr>global_queue := ps, junk_list := junk_list q @ [p],
        current_in_queue := current_in_queue q - 1\<rparr>" n]
      by (auto simp: move_to_junk_def same simp del: set_filter)
  next
    case False
    let ?q = "q\<lparr>slab := slab q\<lparr>mem := mark_woken {p} (mem (slab q))\<rparr>, global_queue := ps,
      junk_list := junk_list q @ [p]\<rparr>"
    have same: "has_exited ?q = has_exited q"
      by (intro ext mark_woken_exited) simp
    have "unqueue_loop (p # ps) n q = unqueue_loop ps (n - 1) ?q"
      using False Cons.prems e set_wake_up_eq [of p q] by (simp add: move_to_junk_def)
    then show ?thesis
      using False Cons.prems Cons.IH [of ?q "n - 1"] by (simp add: same del: set_filter)
  qed
qed

definition unqueued :: "int \<Rightarrow> queue \<Rightarrow> queue" where
  "unqueued n q = (let out = processed (has_exited q) n (global_queue q) in
     q\<lparr>slab := slab q\<lparr>mem := mark_woken (set (present q out)) (mem (slab q))\<rparr>,
       global_queue := drop (length out) (global_queue q), junk_list := junk_list q @ out,
       current_in_queue := current_in_queue q - int (length out)\<rparr>)"

lemma length_filter_split: "length (filter P xs) + length (filter (\<lambda>x. \<not> P x) xs) = length xs"
  by (induction xs) auto

lemma unqueue_eq:
  assumes "queue_inv H q"
  shows "unqueue n q =
    Some (int (length (take (nat n) (present q (global_queue q)))), unqueued n q)"
proof -
  let ?out = "processed (has_exited q) n (global_queue q)"
  have "int (length (filter (has_exited q) ?out)) + int (length (present q ?out)) = int (length ?out)"
    using length_filter_split [of "has_exited q" ?out] by linarith
  then show ?thesis
    using unqueue_loop_eq [OF _ _ refl, of q n] queue_invD [OF assms]
    by (simp add: unqueue_def unqueued_def Let_def algebra_simps flip: processed_woken del: set_filter length_take)
qed


lemma queue_inv_unqueued:
  assumes "queue_inv H q"
  shows "queue_inv H (unqueued n q)"
proof -
  let ?out = "processed (has_exited q) n (global_queue q)" and ?q = "unqueued n q"
  have mem: "mem (slab ?q) = mark_woken (set (present q ?out)) (mem (slab q))"
    and gq: "global_queue q = ?out @ global_queue ?q" and jl: "junk_list ?q = junk_list q @ ?out"
    by (simp_all add: unqueued_def Let_def processed_prefix)
  note woken = mark_woken_is_woken [OF mem] and gone = mark_woken_exited [OF mem]
  have dist: "distinct (?out @ global_queue ?q)"
    using queue_invD(2) [OF assms] gq by simp
  have len: "length (global_queue q) = length ?out + length (global_queue ?q)"
    using arg_cong [OF gq, of length] by simp
  have sets: "set (global_queue q) = set ?out \<union> set (global_queue ?q)"
    using arg_cong [OF gq, of set] by simp
  have "heap_wf (slab ?q)" and "dom (mem (slab ?q)) = dom (mem (slab q))"
    using queue_invD(1) [OF assms] by (simp_all add: unqueued_def Let_def)
  moreover have "current_in_queue ?q = int (length (global_queue ?q))"
  proof -
    have "current_in_queue ?q = current_in_queue q - int (length ?out)"
      by (simp add: unqueued_def Let_def)
    then show ?thesis using queue_invD(8) [OF assms] len by linarith
  qed
  moreover have "distinct (global_queue ?q @ junk_list ?q)"
    using queue_invD(3,4) [OF assms] dist sets unfolding jl by auto
  moreover have "set (global_queue ?q @ junk_list ?q) = set (global_queue q @ junk_list q)"
    using sets jl by auto
  moreover have "\<not> is_woken ?q p" if "p \<in> set (global_queue ?q)" for p
    using assms that dist sets by (auto simp: queue_inv_def woken)
  moreover have "is_woken ?q p \<or> has_exited ?q p" if "p \<in> set (junk_list ?q)" for p
    using assms that sets queue_invD(5) [OF assms] unfolding jl woken gone queue_inv_def by auto
  ultimately show ?thesis
    using assms unfolding queue_inv_def by simp
qed

definition junk_freed :: "queue \<Rightarrow> queue" where
  "junk_freed q =
     q\<lparr>slab := slab q\<lparr>mem := mem (slab q) |` (- {p \<in> set (junk_list q). has_exited q p})\<rparr>,
       junk_list := present q (junk_list q)\<rparr>"

lemma free_junk_loop_eq:
  assumes "set ps \<subseteq> dom (mem (slab q))" and "NULL \<notin> set ps" and "distinct ps"
    and "distinct (junk_list q)" and "set ps \<subseteq> set (junk_list q)" and "queue_cache q"
  shows "free_junk_loop ps q = Some (
    q\<lparr>slab := slab q\<lparr>mem := mem (slab q) |` (- {p \<in> set ps. has_exited q p})\<rparr>,
      junk_list := filter (\<lambda>p. \<not> (p \<in> set ps \<and> has_exited q p)) (junk_list q)\<rparr>)"
  using assms
proof (induction ps arbitrary: q)
  case Nil
  then show ?case by simp
next
  case (Cons p ps)
  obtain e where e: "load p (slab q) = Some e" "exited e = has_exited q p"
    using load_elem [of p q] Cons.prems by auto
  show ?case
  proof (cases "has_exited q p")
    case False
    then have "{x \<in> set (p # ps). has_exited q x} = {x \<in> set ps. has_exited q x}"
      and "filter (\<lambda>x. \<not> (x \<in> set (p # ps) \<and> has_exited q x)) (junk_list q) =
           filter (\<lambda>x. \<not> (x \<in> set ps \<and> has_exited q x)) (junk_list q)"
      by (auto intro: filter_cong)
    note eqs = this
    show ?thesis unfolding eqs using False Cons.prems e Cons.IH [of q] by simp
  next
    case True
    let ?q = "q\<lparr>slab := slab q\<lparr>mem := (mem (slab q))(p := None)\<rparr>,
      junk_list := remove1 p (junk_list q)\<rparr>"
    have exits: "has_exited ?q x = (x \<noteq> p \<and> has_exited q x)" for x
      by (simp add: has_exited_def)
    have "free_junk_loop (p # ps) q = free_junk_loop ps ?q"
      using True Cons.prems e by (auto simp: kmem_cache_free_def kfree_def intro!: arg_cong [of _ _ "free_junk_loop ps"])
    also have "\<dots> = Some (?q\<lparr>slab := slab ?q\<lparr>mem := mem (slab ?q) |` (- {x \<in> set ps. has_exited ?q x})\<rparr>,
      junk_list := filter (\<lambda>x. \<not> (x \<in> set ps \<and> has_exited ?q x)) (junk_list ?q)\<rparr>)"
      using Cons.prems by (intro Cons.IH) auto
    also have "mem (slab ?q) |` (- {x \<in> set ps. has_exited ?q x}) =
        mem (slab q) |` (- {x \<in> set (p # ps). has_exited q x})"
      using True Cons.prems by (auto simp: exits restrict_map_def fun_eq_iff)
    also have "filter (\<lambda>x. \<not> (x \<in> set ps \<and> has_exited ?q x)) (junk_list ?q) =
        filter (\<lambda>x. \<not> (x \<in> set (p # ps) \<and> has_exited q x)) (junk_list q)"
      unfolding exits using True Cons.prems
      by (auto simp: distinct_remove1_removeAll removeAll_filter_not_eq intro!: filter_cong)
    finally show ?thesis by simp
  qed
qed

lemma free_junk_eq:
  assumes "queue_inv H q" and "queue_cache q"
  shows "free_junk q = Some (junk_freed q)"
proof -
  have "NULL \<notin> set (junk_list q)"
    using queue_invD [OF assms(1)] heap_wf_null by fastforce
  moreover have "filter (\<lambda>p. \<not> (p \<in> set (junk_list q) \<and> has_exited q p)) (junk_list q) =
      present q (junk_list q)"
    by (rule filter_cong) auto
  ultimately show ?thesis
    using free_junk_loop_eq [of "junk_list q" q] queue_invD [OF assms(1)] assms(2)
    by (simp add: free_junk_def junk_freed_def)
qed


lemma junk_freed_simps [simp]:
  "global_queue (junk_freed q) = global_queue q" "junk_list (junk_freed q) = present q (junk_list q)"
  "current_in_queue (junk_freed q) = current_in_queue q" "queue_cache (junk_freed q) = queue_cache q"
  "mem (slab (junk_freed q)) = mem (slab q) |` (- {p \<in> set (junk_list q). has_exited q p})"
  by (simp_all add: junk_freed_def)

lemma junk_freed_has_exited:
  "has_exited (junk_freed q) p = (has_exited q p \<and> p \<notin> set (junk_list q))"
  by (auto simp: has_exited_def restrict_map_def)

lemma junk_freed_is_woken:
  "is_woken (junk_freed q) p = (is_woken q p \<and> \<not> (p \<in> set (junk_list q) \<and> has_exited q p))"
  by (auto simp: is_woken_def restrict_map_def)

lemma queue_inv_junk_freed:
  assumes "queue_inv H q"
  shows "queue_inv H (junk_freed q)"
proof -
  have "heap_wf (slab (junk_freed q))"
    using queue_invD(1) [OF assms] by (simp add: junk_freed_def heap_wf_mem_sub)
  moreover have "dom (mem (slab (junk_freed q))) =
      set (global_queue (junk_freed q) @ junk_list (junk_freed q)) \<union> H"
    using assms by (auto simp: queue_inv_def)
  ultimately show ?thesis
    using assms by (auto simp: queue_inv_def junk_freed_is_woken)
qed

lemma queue_alloc_cases:
  assumes "queue_inv H q" and "queue_cache q"
  obtains (fail) s where "queue_alloc q = Some (NULL, q\<lparr>slab := s\<rparr>)"
      "queue_inv H (q\<lparr>slab := s\<rparr>)" "mem s = mem (slab q)"
  | (ok) p s where "queue_alloc q = Some (p, q\<lparr>slab := s\<rparr>)" "p \<noteq> NULL" "p \<notin> dom (mem (slab q))"
      "mem s = (mem (slab q))(p \<mapsto> \<lparr>wake_up_flag = False, exited = False\<rparr>)"
      "queue_inv (insert p H) (q\<lparr>slab := s\<rparr>)"
proof -
  obtain p s where k: "kmalloc \<lparr>wake_up_flag = False, exited = False\<rparr> (slab q) = (p, s)"
    by fastforce
  have wf: "heap_wf (slab q)" by (rule queue_invD(1) [OF assms(1)])
  have wf': "heap_wf s" by (rule heap_wf_kmalloc [OF wf k])
  have eq: "queue_alloc q = Some (p, q\<lparr>slab := s\<rparr>)"
    using k assms(2) by (simp add: queue_alloc_def)
  from k wf show thesis
  proof (cases rule: kmalloc_cases)
    case fail: fail
    moreover have "queue_inv H (q\<lparr>slab := s\<rparr>)"
      using assms(1) wf' fail unfolding queue_inv_def is_woken_def has_exited_def by simp
    ultimately show thesis using that(1) [of s] eq by simp
  next
    case new: ok
    then have p: "p \<notin> dom (mem (slab q))"
      using heap_wf_fresh [OF wf, of p] by auto
    have live: "r \<noteq> p" if "r \<in> set (global_queue q @ junk_list q) \<union> H" for r
      using p that assms(1) by (auto simp: queue_inv_def)
    have "queue_inv (insert p H) (q\<lparr>slab := s\<rparr>)"
      using assms(1) wf' new live unfolding queue_inv_def is_woken_def has_exited_def by auto
    then show thesis using that(2) [OF eq] new p by simp
  qed
qed

lemma queue_alloc_null:
  "queue_alloc q = Some (p, q') \<Longrightarrow> queue_inv H q \<Longrightarrow> p = NULL \<longleftrightarrow> \<not> alloc_ok (slab q) (brk (slab q))"
  using heap_wf_brk [OF queue_invD(1), of H q]
  by (auto simp: queue_alloc_def kmalloc_def split: if_splits)

lemma queue_inv_link:
  assumes "queue_inv (insert p H) q" and "p \<notin> H" and "\<not> is_woken q p"
  shows "queue_inv H (q\<lparr>current_in_queue := current_in_queue q + 1, global_queue := global_queue q @ [p]\<rparr>)"
  using assms unfolding queue_inv_def is_woken_def has_exited_def by auto

lemma queue_link_off:
  assumes "queue_inv (insert p H) q" and "p \<notin> H" and "queue_cache q"
  shows "\<exists>q'. queue_link False p q = Some (AddOff, q') \<and> queue_inv H q' \<and>
    q' = q\<lparr>slab := slab q\<lparr>mem := (mem (slab q))(p := None)\<rparr>\<rparr>"
proof -
  obtain e where e: "mem (slab q) p = Some e"
    using queue_invD(7) [OF assms(1)] by auto
  then have "p \<noteq> NULL"
    using queue_invD(1) [OF assms(1)] by (metis heap_wf_null option.distinct(1))
  moreover have "heap_wf (slab q\<lparr>mem := (mem (slab q))(p := None)\<rparr>)"
    using queue_invD(1) [OF assms(1)] by (intro heap_wf_mem_sub) auto
  then have "queue_inv H (q\<lparr>slab := slab q\<lparr>mem := (mem (slab q))(p := None)\<rparr>\<rparr>)"
    using assms(1,2) unfolding queue_inv_def is_woken_def has_exited_def by auto
  ultimately show ?thesis
    using e assms(3) by (simp add: queue_link_def kmem_cache_free_def heap_simps)
qed

lemma set_exited_flag_eq:
  assumes "mem (slab q) p = Some e"
  shows "set_exited_flag p q =
    Some (q\<lparr>slab := slab q\<lparr>mem := (mem (slab q))(p \<mapsto> e\<lparr>exited := True\<rparr>)\<rparr>\<rparr>)"
  using assms by (simp add: set_exited_flag_def heap_simps)

lemma queue_inv_set_exited:
  assumes "queue_inv H q" and "mem (slab q) p = Some e"
  shows "queue_inv H (q\<lparr>slab := slab q\<lparr>mem := (mem (slab q))(p \<mapsto> e\<lparr>exited := True\<rparr>)\<rparr>\<rparr>)"
proof -
  let ?q = "q\<lparr>slab := slab q\<lparr>mem := (mem (slab q))(p \<mapsto> e\<lparr>exited := True\<rparr>)\<rparr>\<rparr>"
  have "is_woken ?q = is_woken q" and "has_exited ?q r = (r = p \<or> has_exited q r)" for r
    using assms(2) by (auto simp: is_woken_def has_exited_def fun_eq_iff)
  moreover have "heap_wf (slab ?q)"
    using queue_invD(1) [OF assms(1)] assms(2) by auto
  moreover have "dom (mem (slab ?q)) = dom (mem (slab q))"
    using assms(2) by auto
  ultimately show ?thesis
    using assms(1) unfolding queue_inv_def by simp blast
qed

lemma wake_all_eq:
  "set ps \<subseteq> dom (mem (slab q)) \<Longrightarrow>
   wake_all ps q = Some (q\<lparr>slab := slab q\<lparr>mem := mark_woken (set ps) (mem (slab q))\<rparr>\<rparr>)"
  by (induction ps arbitrary: q) (auto simp: set_wake_up_eq)

definition all_woken :: "queue \<Rightarrow> queue" where
  "all_woken q = q\<lparr>slab := slab q\<lparr>mem := mark_woken (set (global_queue q)) (mem (slab q))\<rparr>,
     global_queue := [], junk_list := junk_list q @ global_queue q, current_in_queue := 0\<rparr>"

lemma wake_up_queue_eq:
  "queue_inv H q \<Longrightarrow> wake_up_queue q = Some (int (length (global_queue q)), all_woken q)"
  by (simp add: wake_up_queue_def wake_all_eq queue_invD all_woken_def Let_def)

lemma queue_inv_all_woken:
  assumes "queue_inv H q"
  shows "queue_inv H (all_woken q)"
proof -
  have mem: "mem (slab (all_woken q)) = mark_woken (set (global_queue q)) (mem (slab q))"
    by (simp add: all_woken_def)
  have "heap_wf (slab (all_woken q))" and "dom (mem (slab (all_woken q))) = dom (mem (slab q))"
    using queue_invD(1) [OF assms] by (simp_all add: all_woken_def)
  moreover have "\<forall>p \<in> set (junk_list (all_woken q)). is_woken (all_woken q) p \<or> has_exited (all_woken q) p"
    using assms unfolding mark_woken_is_woken [OF mem] mark_woken_exited [OF mem]
    by (auto simp: all_woken_def queue_inv_def)
  ultimately show ?thesis
    using assms unfolding queue_inv_def by (auto simp: all_woken_def)
qed


section \<open>The interface of a fair waiting line\<close>

text \<open>A line of waiters that is served from the front, a given number per epoch, while other events
  only append to it. Its client relies on the bound proved here: a waiter that does not leave is
  served as soon as the quotas of the epochs exceed its position.\<close>

fun run_line :: "(nat \<Rightarrow> 'q \<Rightarrow> 'q option) \<Rightarrow> ('e \<Rightarrow> 'q \<Rightarrow> 'q option) \<Rightarrow> (nat + 'e) list \<Rightarrow> 'q \<Rightarrow> 'q option" where
  "run_line serve other [] q = Some q"
| "run_line serve other (Inl n # es) q = serve n q \<bind> run_line serve other es"
| "run_line serve other (Inr e # es) q = other e q \<bind> run_line serve other es"

definition total_quota :: "(nat + 'e) list \<Rightarrow> nat" where
  "total_quota es = sum_list (map (case_sum id (\<lambda>_. 0)) es)"

locale waiting_line =
  fixes inv :: "'q \<Rightarrow> bool"
    and line :: "'q \<Rightarrow> 'w list"
    and active :: "'q \<Rightarrow> 'w \<Rightarrow> bool"
    and served :: "'q \<Rightarrow> 'w \<Rightarrow> bool"
    and leaves :: "'e \<Rightarrow> 'w \<Rightarrow> bool"
    and serve :: "nat \<Rightarrow> 'q \<Rightarrow> 'q option"
    and other :: "'e \<Rightarrow> 'q \<Rightarrow> 'q option"
  assumes serve_front: "inv q \<Longrightarrow> \<exists>q' k. serve n q = Some q' \<and> inv q' \<and>
      line q' = drop k (line q) \<and> min n (length (line q)) \<le> k \<and>
      (\<forall>w. active q w \<longrightarrow> active q' w \<and> (served q w \<or> w \<in> set (take k (line q)) \<longrightarrow> served q' w))"
    and other_appends: "inv q \<Longrightarrow> \<exists>q' ws. other e q = Some q' \<and> inv q' \<and> line q' = line q @ ws \<and>
      (\<forall>w. active q w \<and> \<not> leaves e w \<longrightarrow> active q' w \<and> (served q w \<longrightarrow> served q' w))"
begin

lemma served_within_quota:
  assumes "inv q" and "active q w" and "\<forall>e. Inr e \<in> set es \<longrightarrow> \<not> leaves e w"
    and "served q w \<or> (\<exists>i < total_quota es. i < length (line q) \<and> line q ! i = w)"
  shows "\<exists>q'. run_line serve other es q = Some q' \<and> inv q' \<and> served q' w"
  using assms
proof (induction es arbitrary: q)
  case Nil
  then show ?case by (simp add: total_quota_def)
next
  case (Cons ev es)
  show ?case
  proof (cases ev)
    case (Inl n)
    obtain q' k where q': "serve n q = Some q'" "inv q'" "line q' = drop k (line q)"
      "min n (length (line q)) \<le> k" "active q' w"
      "served q w \<or> w \<in> set (take k (line q)) \<longrightarrow> served q' w"
      using serve_front [OF Cons.prems(1), of n] Cons.prems(2) by blast
    have "served q' w \<or> (\<exists>i < total_quota es. i < length (line q') \<and> line q' ! i = w)"
    proof (rule disjCI)
      assume none: "\<not> (\<exists>i < total_quota es. i < length (line q') \<and> line q' ! i = w)"
      from Cons.prems(4) have "served q w \<or> w \<in> set (take k (line q))"
      proof
        assume "\<exists>i < total_quota (ev # es). i < length (line q) \<and> line q ! i = w"
        then obtain i where i: "i < n + total_quota es" "i < length (line q)" "line q ! i = w"
          by (auto simp: Inl total_quota_def)
        have "i < k"
        proof (rule ccontr)
          assume "\<not> i < k"
          then have "i - k < total_quota es" "i - k < length (line q')" "line q' ! (i - k) = w"
            using i q'(3,4) by (auto simp: min_def split: if_splits)
          then show False using none by blast
        qed
        then show ?thesis using i by (auto simp: in_set_conv_nth)
      qed simp
      then show "served q' w" using q'(6) by blast
    qed
    then show ?thesis
      using Cons.IH [OF q'(2,5)] Cons.prems(3) q'(1) by (simp add: Inl)
  next
    case (Inr e)
    obtain q' ws where q': "other e q = Some q'" "inv q'" "line q' = line q @ ws"
      "active q' w" "served q w \<longrightarrow> served q' w"
      using other_appends [OF Cons.prems(1), of e] Cons.prems(2,3) Inr by force
    have "served q' w \<or> (\<exists>i < total_quota es. i < length (line q') \<and> line q' ! i = w)"
      using Cons.prems(4) q'(3,5) by (auto simp: Inr total_quota_def nth_append)
    then show ?thesis
      using Cons.IH [OF q'(2,4)] Cons.prems(3) q'(1) by (simp add: Inr)
  qed
qed

end


text \<open>The queue's own events: at the end of an epoch the timer unqueues and collects the junk; in
  between, threads join the queue, or leave it because a signal interrupted them (which an element
  that is no longer allocated cannot do).\<close>

datatype queue_event = Join | Leave addr

definition queue_epoch :: "nat \<Rightarrow> queue \<Rightarrow> queue option" where
  "queue_epoch n q = do { (_, q) \<leftarrow> unqueue (int n) q; free_junk q }"

fun queue_other :: "queue_event \<Rightarrow> queue \<Rightarrow> queue option" where
  "queue_other Join q = do { (_, q) \<leftarrow> add_to_queue True q; Some q }"
| "queue_other (Leave p) q = (if mem (slab q) p = None then Some q else set_exited_flag p q)"

definition queue_open :: "queue \<Rightarrow> bool" where
  "queue_open q \<longleftrightarrow> queue_inv {} q \<and> queue_cache q"

lemma queue_epoch_front:
  assumes "queue_open q"
  shows "\<exists>q' k. queue_epoch n q = Some q' \<and> queue_open q' \<and>
    global_queue q' = drop k (global_queue q) \<and> min n (length (global_queue q)) \<le> k \<and>
    (\<forall>w. \<not> has_exited q w \<longrightarrow> \<not> has_exited q' w \<and>
      (is_woken q w \<or> w \<in> set (take k (global_queue q)) \<longrightarrow> is_woken q' w))"
proof -
  let ?out = "processed (has_exited q) (int n) (global_queue q)" and ?q = "unqueued (int n) q"
  have inv: "queue_inv {} q" and cache: "queue_cache ?q"
    using assms by (simp_all add: queue_open_def unqueued_def Let_def)
  have mem: "mem (slab ?q) = mark_woken (set (present q ?out)) (mem (slab q))"
    by (simp add: unqueued_def Let_def)
  have take: "take (length ?out) (global_queue q) = ?out"
    using processed_prefix [of "has_exited q" "int n" "global_queue q"] by (metis append_eq_conv_conj)
  have "queue_epoch n q = Some (junk_freed ?q)"
    using unqueue_eq [OF inv] free_junk_eq [OF queue_inv_unqueued [OF inv] cache]
    by (simp add: queue_epoch_def)
  moreover have "queue_open (junk_freed ?q)"
    using queue_inv_junk_freed [OF queue_inv_unqueued [OF inv]] cache by (simp add: queue_open_def)
  moreover have "global_queue (junk_freed ?q) = drop (length ?out) (global_queue q)"
    by (simp add: unqueued_def Let_def)
  moreover have "min n (length (global_queue q)) \<le> length ?out"
    using processed_length [of "int n" "global_queue q" "has_exited q"] by simp
  moreover have "\<not> has_exited (junk_freed ?q) w \<and>
      (is_woken q w \<or> w \<in> set (take (length ?out) (global_queue q)) \<longrightarrow> is_woken (junk_freed ?q) w)"
    if "\<not> has_exited q w" for w
    using that processed_subset [of "has_exited q" "int n" "global_queue q"] queue_invD(5) [OF inv]
    unfolding take junk_freed_has_exited junk_freed_is_woken
      mark_woken_exited [OF mem] mark_woken_is_woken [OF mem] by auto
  ultimately show ?thesis by blast
qed

lemma add_to_queue_cases:
  assumes "queue_open q"
  obtains (fail) s where "add_to_queue True q = Some (AddNull, q\<lparr>slab := s\<rparr>)"
      "queue_open (q\<lparr>slab := s\<rparr>)" "mem s = mem (slab q)"
  | (ok) p q' where "add_to_queue True q = Some (AddFlag p, q')" "queue_open q'"
      "p \<notin> dom (mem (slab q))" "global_queue q' = global_queue q @ [p]" "junk_list q' = junk_list q"
      "mem (slab q') = (mem (slab q))(p \<mapsto> \<lparr>wake_up_flag = False, exited = False\<rparr>)"
proof -
  have inv: "queue_inv {} q" and cache: "queue_cache q"
    using assms by (simp_all add: queue_open_def)
  from inv cache show thesis
  proof (cases rule: queue_alloc_cases)
    case (fail s)
    then show thesis
      using that(1) [of s] cache by (simp add: add_to_queue_def queue_open_def)
  next
    case (ok p s)
    let ?q = "q\<lparr>slab := s, current_in_queue := current_in_queue q + 1, global_queue := global_queue q @ [p]\<rparr>"
    have "queue_inv {} ?q"
      using queue_inv_link [OF ok(5)] ok(4) by (simp add: is_woken_def)
    then show thesis
      using that(2) [of p ?q] ok cache by (simp add: add_to_queue_def queue_link_def queue_open_def)
  qed
qed

fun leaving :: "queue_event \<Rightarrow> addr \<Rightarrow> bool" where
  "leaving Join p = False"
| "leaving (Leave p) p' = (p' = p)"

lemma queue_other_appends:
  assumes "queue_open q"
  shows "\<exists>q' ws. queue_other e q = Some q' \<and> queue_open q' \<and> global_queue q' = global_queue q @ ws \<and>
    (\<forall>w. \<not> has_exited q w \<and> \<not> leaving e w \<longrightarrow> \<not> has_exited q' w \<and> (is_woken q w \<longrightarrow> is_woken q' w))"
proof (cases e)
  case Join
  from assms show ?thesis
  proof (cases rule: add_to_queue_cases)
    case (fail s)
    then show ?thesis by (intro exI [of _ "q\<lparr>slab := s\<rparr>"] exI [of _ "[]"])
      (simp add: Join has_exited_def is_woken_def)
  next
    case (ok p q')
    then have "mem (slab q) p = None" by auto
    then show ?thesis using ok by (intro exI [of _ q'] exI [of _ "[p]"])
      (simp add: Join has_exited_def is_woken_def)
  qed
next
  case (Leave p)
  show ?thesis
  proof (cases "mem (slab q) p")
    case None
    then show ?thesis using assms by (intro exI [of _ q] exI [of _ "[]"]) (simp add: Leave)
  next
    case (Some x)
    let ?q = "q\<lparr>slab := slab q\<lparr>mem := (mem (slab q))(p \<mapsto> x\<lparr>exited := True\<rparr>)\<rparr>\<rparr>"
    have "queue_open ?q"
      using assms queue_inv_set_exited [OF _ Some] by (simp add: queue_open_def)
    then show ?thesis using Some by (intro exI [of _ ?q] exI [of _ "[]"])
      (simp add: Leave set_exited_flag_eq has_exited_def is_woken_def)
  qed
qed

interpretation throttle_line: waiting_line queue_open global_queue "\<lambda>q p. \<not> has_exited q p" is_woken
  leaving queue_epoch queue_other
  by unfold_locales (use queue_epoch_front queue_other_appends in auto)


section \<open>Properties\<close>

text \<open>Three threads wait; the first has been interrupted and has left.\<close>

definition three_waiting :: queue where
  "three_waiting =
     \<lparr>slab = \<lparr>mem = [0x1000 \<mapsto> \<lparr>wake_up_flag = False, exited = True\<rparr>,
                    0x1001 \<mapsto> \<lparr>wake_up_flag = False, exited = False\<rparr>,
                    0x1002 \<mapsto> \<lparr>wake_up_flag = False, exited = False\<rparr>],
             brk = 0x1003, alloc_ok = \<lambda>_. True\<rparr>,
      queue_cache = True, global_queue = [0x1000, 0x1001, 0x1002], junk_list = [],
      current_in_queue = 3\<rparr>"

lemma three_waiting_open: "queue_open three_waiting"
  by (auto simp: queue_open_def queue_inv_def three_waiting_def heap_wf_def is_woken_def
      split: if_splits)

lemma three_waiting_facts:
  "has_exited three_waiting p \<longleftrightarrow> p = 0x1000" "\<not> is_woken three_waiting p"
  "global_queue three_waiting = [0x1000, 0x1001, 0x1002]"
  by (auto simp: three_waiting_def has_exited_def is_woken_def)

text \<open>C14: \<open>unqueue n\<close> serves the queue in FIFO order. It takes off a prefix of the queue, in which
  the threads that have not left are the first \<open>n\<close> such threads of the queue; it wakes exactly
  these, returns their number, moves the prefix to the junk list and keeps the queue consistent
  (its counter included). If a present thread is left waiting then the whole quota was used.\<close>

theorem unqueue_fifo:
  assumes "queue_inv H q"
  shows "\<exists>r q' out. unqueue n q = Some (r, q') \<and> queue_inv H q' \<and>
    global_queue q = out @ global_queue q' \<and> junk_list q' = junk_list q @ out \<and>
    present q out = take (nat n) (present q (global_queue q)) \<and> r = int (length (present q out)) \<and>
    (\<forall>p. is_woken q' p \<longleftrightarrow> is_woken q p \<or> p \<in> set (present q out)) \<and>
    (\<forall>p. has_exited q' p = has_exited q p) \<and>
    (present q (global_queue q') \<noteq> [] \<longrightarrow> r = max 0 n)"
proof -
  let ?out = "processed (has_exited q) n (global_queue q)" and ?q = "unqueued n q"
  have mem: "mem (slab ?q) = mark_woken (set (present q ?out)) (mem (slab q))"
    and gq: "global_queue q = ?out @ global_queue ?q" and jl: "junk_list ?q = junk_list q @ ?out"
    by (simp_all add: unqueued_def Let_def processed_prefix)
  have out: "present q ?out = take (nat n) (present q (global_queue q))"
    by (rule processed_woken)
  have "present q (global_queue q) = present q ?out @ present q (global_queue ?q)"
    using arg_cong [OF gq, of "present q"] by simp
  then have "length (present q (global_queue q)) =
      length (present q ?out) + length (present q (global_queue ?q))"
    by (metis length_append)
  then have full: "int (length (present q ?out)) = max 0 n" if "present q (global_queue ?q) \<noteq> []"
    using that arg_cong [OF out, of length] by (cases "present q (global_queue ?q)") auto
  have "is_woken ?q p \<longleftrightarrow> is_woken q p \<or> p \<in> set (present q ?out)" for p
    using processed_subset queue_invD(5) [OF assms] unfolding mark_woken_is_woken [OF mem] by fastforce
  then show ?thesis
    using unqueue_eq [OF assms, of n] queue_inv_unqueued [OF assms, of n] gq jl out full
      mark_woken_exited [OF mem]
    by (intro exI [of _ "int (length (present q ?out))"] exI [of _ ?q] exI [of _ ?out]) simp
qed

theorem unqueue_fifo_witness:
  "\<exists>r q' out. unqueue 1 three_waiting = Some (r, q') \<and> out @ global_queue q' = [0x1000, 0x1001, 0x1002] \<and>
     present three_waiting out = [0x1001] \<and> r = 1 \<and> is_woken q' 0x1001 \<and> \<not> is_woken q' 0x1002"
proof -
  have inv: "queue_inv {} three_waiting"
    using three_waiting_open by (simp add: queue_open_def)
  obtain r q' out where q': "unqueue 1 three_waiting = Some (r, q')"
    "global_queue three_waiting = out @ global_queue q'"
    "present three_waiting out = take (nat 1) (present three_waiting (global_queue three_waiting))"
    "r = int (length (present three_waiting out))"
    "\<forall>p. is_woken q' p \<longleftrightarrow> is_woken three_waiting p \<or> p \<in> set (present three_waiting out)"
    using unqueue_fifo [OF inv, of 1] by blast
  have out: "present three_waiting out = [0x1001]"
    using q'(3) by (simp add: three_waiting_facts)
  show ?thesis
    using q'(1,2,4,5) unfolding out by (intro exI [of _ r] exI [of _ q'] exI [of _ out])
      (simp add: three_waiting_facts(2,3) out)
qed

text \<open>C15: No thread starves. Whatever threads join and leave in between, a thread at position \<open>i\<close>
  of the queue that does not leave itself has been woken once the quotas of the elapsed epochs add
  up to more than \<open>i\<close>, and none of the operations faults on the way.\<close>

theorem queue_no_starvation:
  assumes "queue_open q" and "i < length (global_queue q)" and "i < total_quota es"
    and "\<not> has_exited q (global_queue q ! i)" and "Inr (Leave (global_queue q ! i)) \<notin> set es"
  shows "\<exists>q'. run_line queue_epoch queue_other es q = Some q' \<and> queue_open q' \<and>
    is_woken q' (global_queue q ! i)"
proof (rule throttle_line.served_within_quota [OF assms(1,4)])
  show "\<forall>e. Inr e \<in> set es \<longrightarrow> \<not> leaving e (global_queue q ! i)"
  proof (intro allI impI)
    fix e assume "Inr e \<in> set es"
    with assms(5) show "\<not> leaving e (global_queue q ! i)" by (cases e) auto
  qed
qed (use assms(2,3) in blast)

theorem queue_no_starvation_witness:
  "\<exists>q'. run_line queue_epoch queue_other [Inl 1, Inr Join, Inl 1, Inr (Leave 0x1001), Inl 1] three_waiting = Some q'
     \<and> is_woken q' 0x1002"
  using queue_no_starvation [OF three_waiting_open, of 2 "[Inl 1, Inr Join, Inl 1, Inr (Leave 0x1001), Inl 1]"]
  by (auto simp: three_waiting_def has_exited_def total_quota_def)

text \<open>\<open>free_junk\<close> gives back exactly the junk elements whose thread has left, keeps the others
  in order, leaves every live element's flags alone, and faults on nothing.\<close>

lemma free_junk_frees_exited:
  assumes "queue_inv H q" and "queue_cache q"
  shows "\<exists>q'. free_junk q = Some q' \<and> queue_inv H q' \<and> global_queue q' = global_queue q \<and>
    junk_list q' = present q (junk_list q) \<and>
    mem (slab q') = mem (slab q) |` (- {p \<in> set (junk_list q). has_exited q p}) \<and>
    (\<forall>p \<in> set (junk_list q'). \<not> has_exited q' p)"
  using free_junk_eq [OF assms] queue_inv_junk_freed [OF assms(1)]
  by (auto simp: junk_freed_has_exited)

text \<open>Shutting the queue down: \<open>wake_up_queue\<close> wakes every waiting thread, counts them and
  empties the queue; \<open>destroy_queue\<close> then frees the elements whose thread has set \<open>exited\<close>. What
  stays allocated, with no cache left to give it back to, is exactly the elements of the threads that
  had not set it, among them every thread that was woken by the shutdown; and every later
  allocation faults.\<close>

lemma queue_shutdown:
  assumes "queue_inv H q" and "queue_cache q"
  shows "\<exists>q' q''. wake_up_queue q = Some (int (length (global_queue q)), q') \<and> queue_inv H q' \<and>
    global_queue q' = [] \<and> (\<forall>p \<in> set (global_queue q). is_woken q' p) \<and>
    destroy_queue q' = Some (0, q'') \<and>
    dom (mem (slab q'')) = set (present q (junk_list q @ global_queue q)) \<union> H \<and>
    queue_alloc q'' = None"
proof -
  let ?q = "all_woken q"
  have mem: "mem (slab ?q) = mark_woken (set (global_queue q)) (mem (slab q))"
    and lists: "global_queue ?q = []" "junk_list ?q = junk_list q @ global_queue q" "queue_cache ?q"
    using assms(2) by (simp_all add: all_woken_def)
  have inv: "queue_inv H ?q" by (rule queue_inv_all_woken [OF assms(1)])
  have "is_woken ?q p" if "p \<in> set (global_queue q)" for p
    using that queue_invD(5) [OF assms(1)] by (auto simp: mark_woken_is_woken [OF mem])
  moreover have "dom (mem (slab (junk_freed ?q))) = set (present q (junk_list q @ global_queue q)) \<union> H"
    using queue_inv_junk_freed [OF inv] lists mark_woken_exited [OF mem] by (simp add: queue_inv_def)
  ultimately show ?thesis
    using wake_up_queue_eq [OF assms(1)] free_junk_eq [OF inv lists(3)] inv lists(1)
    by (simp add: destroy_queue_def queue_alloc_def)
qed

text \<open>Joining the queue: \<open>add_to_queue\<close> never faults while the cache exists. When the allocation
  fails nothing changes; when the monitor has been turned off the fresh element is given back; else
  the thread gets a fresh element, unwoken, at the end of the queue, and the counter grows by one.\<close>

lemma add_to_queue_correct:
  assumes "queue_inv {} q" and "queue_cache q"
  shows "\<exists>r q'. add_to_queue working q = Some (r, q') \<and> queue_inv {} q' \<and> junk_list q' = junk_list q \<and>
    (case r of
       AddFlag p \<Rightarrow> working \<and> p \<notin> dom (mem (slab q)) \<and> global_queue q' = global_queue q @ [p] \<and>
         mem (slab q') = (mem (slab q))(p \<mapsto> \<lparr>wake_up_flag = False, exited = False\<rparr>) \<and>
         current_in_queue q' = current_in_queue q + 1
     | _ \<Rightarrow> mem (slab q') = mem (slab q) \<and> global_queue q' = global_queue q \<and>
         current_in_queue q' = current_in_queue q \<and> (r = AddOff \<longrightarrow> \<not> working)) \<and>
    (r = AddNull \<longleftrightarrow> \<not> alloc_ok (slab q) (brk (slab q)))"
  using assms
proof (cases rule: queue_alloc_cases)
  case (fail s)
  then show ?thesis using queue_alloc_null [OF fail(1) assms(1)] by (simp add: add_to_queue_def)
next
  case (ok p s)
  note null = queue_alloc_null [OF ok(1) assms(1)]
  show ?thesis
  proof (cases working)
    case True
    let ?q = "q\<lparr>slab := s, current_in_queue := current_in_queue q + 1, global_queue := global_queue q @ [p]\<rparr>"
    have "queue_inv {} ?q"
      using queue_inv_link [OF ok(5)] ok(4) by (simp add: is_woken_def)
    then show ?thesis
      using ok True null by (simp add: add_to_queue_def queue_link_def)
  next
    case False
    have "queue_cache (q\<lparr>slab := s\<rparr>)" using assms(2) by simp
    moreover have "(mem s)(p := None) = mem (slab q)"
      unfolding ok(4) using ok(3) by (simp add: domIff fun_upd_idem)
    ultimately show ?thesis
      using queue_link_off [OF ok(5)] ok(1,2) False null by (auto simp: add_to_queue_def)
  qed
qed

end
