(* ===== verification/Statmonitor.thy ===== *)
theory Statmonitor
  imports Throttle_Prelude
begin

text \<open>
  The statistics monitor (\<open>sysThrot_statmonitor.c\<close>): one heap-allocated entry per system call, on a
  linked list; counters of the running epoch, cumulative counters, and a ring of the last 20 epochs.
  Every operation runs under \<open>stats_lock\<close> and is one step. \<open>SUPPORTED_SYSCALLS\<close> and
  \<open>syscall_symbols\<close> come from a generated header and are parameters. Counters keep their C width:
  \<open>atomic_t\<close> and \<open>unsigned int\<close> are 32 bits wide, \<open>unsigned long\<close> 64, and the conversion of an
  \<open>atomic_t\<close> to \<open>unsigned long\<close> extends the sign. Text is a list of characters.
\<close>

section \<open>Data\<close>

abbreviation (input) HISTORY_LEN :: nat where "HISTORY_LEN \<equiv> 20"

record task =
  task_pid :: int
  task_uid :: u32
  task_comm :: string

record syscall_stat =
  current_blocked :: u32
  current_time_blocked :: u64
  total_blocked :: u64
  total_aborted :: u64
  last_epoch_blocked :: u64
  last_epoch_mean_delay_ns :: u64
  current_ctx_switches :: u32
  sum_ctx_switches :: u64
  peak_ctx_switches :: u64
  peak_delay_ns :: u64
  peak_delay_pid :: int
  peak_delay_uid :: u32
  peak_delay_comm :: string

record syscall_entry =
  syscall_id :: u32
  stat :: syscall_stat
  epoch_history :: "u64 list"
  epoch_time_history :: "u64 list"
  history_head :: u32
  history_count :: u32

record statmon =
  entry_heap :: "syscall_entry kheap"
  syscall_list_head :: "addr list"
  epoch_count :: u64
  proc_entry :: bool

section \<open>Recording events\<close>

fun find_entry_from :: "u32 \<Rightarrow> addr list \<Rightarrow> syscall_entry kheap \<Rightarrow> addr option" where
  "find_entry_from nr [] h = Some NULL"
| "find_entry_from nr (p # ps) h = do {
     e \<leftarrow> load p h;
     if syscall_id e = nr then Some p else find_entry_from nr ps h }"

definition find_entry_locked :: "u32 \<Rightarrow> statmon \<Rightarrow> addr option" where
  "find_entry_locked nr s = find_entry_from nr (syscall_list_head s) (entry_heap s)"

definition zero_stat :: syscall_stat where
  "zero_stat = \<lparr>current_blocked = 0, current_time_blocked = 0, total_blocked = 0, total_aborted = 0,
     last_epoch_blocked = 0, last_epoch_mean_delay_ns = 0, current_ctx_switches = 0,
     sum_ctx_switches = 0, peak_ctx_switches = 0, peak_delay_ns = 0, peak_delay_pid = 0,
     peak_delay_uid = 0, peak_delay_comm = []\<rparr>"

definition new_entry :: "u32 \<Rightarrow> syscall_entry" where
  "new_entry nr = \<lparr>syscall_id = nr, stat = zero_stat, epoch_history = replicate HISTORY_LEN 0,
     epoch_time_history = replicate HISTORY_LEN 0, history_head = 0, history_count = 0\<rparr>"

definition find_or_create_entry_locked :: "u32 \<Rightarrow> statmon \<Rightarrow> (addr \<times> statmon) option" where
  "find_or_create_entry_locked nr s = do {
     entry \<leftarrow> find_entry_locked nr s;
     if entry \<noteq> NULL then Some (entry, s)
     else let (p, h) = kmalloc (new_entry nr) (entry_heap s); s = s\<lparr>entry_heap := h\<rparr>
          in if p = NULL then Some (NULL, s)
             else Some (p, s\<lparr>syscall_list_head := syscall_list_head s @ [p]\<rparr>) }"

definition edit_entry :: "addr \<Rightarrow> (syscall_entry \<Rightarrow> syscall_entry) \<Rightarrow> statmon \<Rightarrow> statmon option" where
  "edit_entry p f s = do {
     e \<leftarrow> load p (entry_heap s);
     h \<leftarrow> store_obj p (f e) (entry_heap s);
     Some (s\<lparr>entry_heap := h\<rparr>) }"

text \<open>The frame that the three recording functions share: the bounds check, the look-up under the
  lock, and the update of the entry unless its allocation failed.\<close>

definition with_entry :: "nat \<Rightarrow> u32 \<Rightarrow> (syscall_entry \<Rightarrow> syscall_entry) \<Rightarrow> statmon \<Rightarrow> statmon option" where
  "with_entry supported nr f s =
     (if supported \<le> unat nr then Some s
      else do {
        (entry, s) \<leftarrow> find_or_create_entry_locked nr s;
        if entry = NULL then Some s else edit_entry entry f s })"

definition strscpy :: "string \<Rightarrow> nat \<Rightarrow> string" where
  "strscpy src len = take (len - 1) src"

definition record_blocked :: "task \<Rightarrow> u64 \<Rightarrow> syscall_entry \<Rightarrow> syscall_entry" where
  "record_blocked current delay_ns e =
     (let st = stat e;
          st = st\<lparr>current_blocked := current_blocked st + 1\<rparr>;
          st = st\<lparr>current_time_blocked := current_time_blocked st + delay_ns\<rparr>;
          st = (if peak_delay_ns st < delay_ns
                then st\<lparr>peak_delay_ns := delay_ns, peak_delay_pid := task_pid current,
                        peak_delay_uid := task_uid current,
                        peak_delay_comm := strscpy (task_comm current) 16\<rparr>
                else st)
      in e\<lparr>stat := st\<rparr>)"

definition sysThrot_add_blocked :: "nat \<Rightarrow> task \<Rightarrow> u32 \<Rightarrow> u64 \<Rightarrow> statmon \<Rightarrow> statmon option" where
  "sysThrot_add_blocked supported current nr delay_ns s =
     with_entry supported nr (record_blocked current delay_ns) s"

definition record_ctx_switch :: "syscall_entry \<Rightarrow> syscall_entry" where
  "record_ctx_switch e =
     e\<lparr>stat := (stat e)\<lparr>current_ctx_switches := current_ctx_switches (stat e) + 1\<rparr>\<rparr>"

definition sysThrot_add_ctx_switch :: "nat \<Rightarrow> u32 \<Rightarrow> statmon \<Rightarrow> statmon option" where
  "sysThrot_add_ctx_switch supported nr s = with_entry supported nr record_ctx_switch s"

definition record_aborted :: "syscall_entry \<Rightarrow> syscall_entry" where
  "record_aborted e = e\<lparr>stat := (stat e)\<lparr>total_aborted := total_aborted (stat e) + 1\<rparr>\<rparr>"

definition sysThrot_add_aborted :: "nat \<Rightarrow> u32 \<Rightarrow> statmon \<Rightarrow> statmon option" where
  "sysThrot_add_aborted supported nr s = with_entry supported nr record_aborted s"

section \<open>End of an epoch\<close>

definition close_counters :: "u64 \<Rightarrow> u64 \<Rightarrow> u64 \<Rightarrow> syscall_stat \<Rightarrow> syscall_stat" where
  "close_counters blocked blocked_ns ctx st = st\<lparr>
     current_blocked := 0, current_time_blocked := 0, last_epoch_blocked := blocked,
     last_epoch_mean_delay_ns := (if blocked \<noteq> 0 then blocked_ns div blocked else 0),
     total_blocked := total_blocked st + blocked, current_ctx_switches := 0,
     sum_ctx_switches := sum_ctx_switches st + ctx,
     peak_ctx_switches := max (peak_ctx_switches st) ctx\<rparr>"

definition push_history :: "u64 \<Rightarrow> u64 \<Rightarrow> syscall_entry \<Rightarrow> syscall_entry option" where
  "push_history blocked blocked_ns e =
     (let i = unat (history_head e) in
      if i < length (epoch_history e) \<and> i < length (epoch_time_history e)
      then Some (e\<lparr>epoch_history := (epoch_history e)[i := blocked],
                   epoch_time_history := (epoch_time_history e)[i := blocked_ns],
                   history_head := (history_head e + 1) mod 20,
                   history_count := (if history_count e < 20 then history_count e + 1
                                     else history_count e)\<rparr>)
      else None)"

definition close_epoch :: "syscall_entry \<Rightarrow> syscall_entry option" where
  "close_epoch e =
     (let st = stat e;
          blocked = (scast (current_blocked st) :: u64);
          blocked_ns = current_time_blocked st;
          ctx = (scast (current_ctx_switches st) :: u64)
      in push_history blocked blocked_ns (e\<lparr>stat := close_counters blocked blocked_ns ctx st\<rparr>))"

fun close_all :: "addr list \<Rightarrow> syscall_entry kheap \<Rightarrow> syscall_entry kheap option" where
  "close_all [] h = Some h"
| "close_all (p # ps) h = do {
     e \<leftarrow> load p h;
     e \<leftarrow> close_epoch e;
     h \<leftarrow> store_obj p e h;
     close_all ps h }"

definition update_epoch_stats :: "statmon \<Rightarrow> statmon option" where
  "update_epoch_stats s = do {
     let s = s\<lparr>epoch_count := epoch_count s + 1\<rparr>;
     h \<leftarrow> close_all (syscall_list_head s) (entry_heap s);
     Some (s\<lparr>entry_heap := h\<rparr>) }"

section \<open>Start and end of the module\<close>

definition sysThrot_statmonitor_init :: "bool \<Rightarrow> statmon \<Rightarrow> int \<times> statmon" where
  "sysThrot_statmonitor_init created s =
     (let s = s\<lparr>epoch_count := 0\<rparr> in
      if \<not> created then (- ENOMEM, s) else (0, s\<lparr>proc_entry := True\<rparr>))"

fun free_entries :: "addr list \<Rightarrow> statmon \<Rightarrow> statmon option" where
  "free_entries [] s = Some s"
| "free_entries (p # ps) s = do {
     let s = s\<lparr>syscall_list_head := remove1 p (syscall_list_head s)\<rparr>;
     h \<leftarrow> kfree p (entry_heap s);
     free_entries ps (s\<lparr>entry_heap := h\<rparr>) }"

definition sysThrot_statmonitor_exit :: "statmon \<Rightarrow> statmon option" where
  "sysThrot_statmonitor_exit s = free_entries (syscall_list_head s) (s\<lparr>proc_entry := False\<rparr>)"

section \<open>The report\<close>

definition history_index :: "syscall_entry \<Rightarrow> nat \<Rightarrow> nat" where
  "history_index e i = unat ((history_head e - history_count e + of_nat i + 20) mod 20)"

definition read_slot :: "'a list \<Rightarrow> nat \<Rightarrow> 'a option" where
  "read_slot xs i = (if i < length xs then Some (xs ! i) else None)"

definition history_blocked_at :: "syscall_entry \<Rightarrow> nat \<Rightarrow> u64 option" where
  "history_blocked_at e i = read_slot (epoch_history e) (history_index e i)"

definition history_time_at :: "syscall_entry \<Rightarrow> nat \<Rightarrow> u64 option" where
  "history_time_at e i = read_slot (epoch_time_history e) (history_index e i)"

text \<open>The conversions of \<open>printf\<close>: decimal digits, sign, padding to a width on the left or right.\<close>

fun decimal :: "nat \<Rightarrow> string" where
  "decimal n = (if n < 10 then [char_of (48 + n)] else decimal (n div 10) @ [char_of (48 + n mod 10)])"

declare decimal.simps [simp del]

definition signed_decimal :: "int \<Rightarrow> string" where
  "signed_decimal i = (if i < 0 then CHR ''-'' # decimal (nat (- i)) else decimal (nat i))"

definition pad_left :: "char \<Rightarrow> nat \<Rightarrow> string \<Rightarrow> string" where
  "pad_left c w t = replicate (w - length t) c @ t"

definition pad_right :: "nat \<Rightarrow> string \<Rightarrow> string" where
  "pad_right w t = t @ replicate (w - length t) CHR '' ''"

definition format_ms :: "u64 \<Rightarrow> nat \<Rightarrow> string" where
  "format_ms ns len =
     (let m = ns div 10000
      in take (len - 1) (decimal (unat (m div 100)) @ ''.'' @ pad_left CHR ''0'' 2 (decimal (unat (m mod 100)))))"

datatype seq_pos = SeqNull | SeqDone | SeqEntry addr

definition newline :: string where
  "newline = [char_of (10 :: nat)]"

definition report_header :: "u64 \<Rightarrow> string" where
  "report_header epochs =
     ''=== Syscall Throttling Statistics ==='' @ newline @
     ''  epochs elapsed: '' @ decimal (unat epochs) @ ''   window: 20 epochs   epoch duration: 1000 ms'' @ newline @
     ''  '' @ pad_left CHR '' '' 4 ''NR'' @ '' '' @ pad_right 22 ''SYSCALL'' @ '' '' @
     pad_left CHR '' '' 10 ''TOTAL'' @ '' '' @ pad_left CHR '' '' 8 ''LAST'' @ '' '' @
     pad_left CHR '' '' 10 ''AVG/EPOCH'' @ '' '' @ pad_left CHR '' '' 9 ''MEAN(ms)'' @ '' '' @
     pad_left CHR '' '' 9 ''PEAK(ms)'' @ '' '' @ pad_left CHR '' '' 6 ''ABORT'' @ '' '' @
     pad_left CHR '' '' 9 ''CTX/EPOCH'' @ '' '' @ pad_left CHR '' '' 9 ''CTX PEAK'' @ ''  '' @
     ''PEAK PROC (PID:UID)'' @ newline @
     ''  '' @ replicate 97 CHR ''-'' @ newline"

fun seek :: "addr list \<Rightarrow> nat \<Rightarrow> nat \<Rightarrow> seq_pos" where
  "seek [] i pos = (if i = pos then SeqDone else SeqNull)"
| "seek (p # ps) i pos = (if i = pos then SeqEntry p else seek ps (i + 1) pos)"

definition my_seq_start :: "nat \<Rightarrow> statmon \<Rightarrow> seq_pos \<times> string" where
  "my_seq_start pos s =
     (seek (syscall_list_head s) 0 pos, if pos = 0 then report_header (epoch_count s) else [])"

definition my_seq_next :: "seq_pos \<Rightarrow> nat \<Rightarrow> statmon \<Rightarrow> seq_pos \<times> nat" where
  "my_seq_next v pos s =
     (let pos = pos + 1
      in (if v = SeqDone then SeqNull else seek (syscall_list_head s) 0 pos, pos))"

fun sum_window :: "syscall_entry \<Rightarrow> nat list \<Rightarrow> u64 \<Rightarrow> u64 \<Rightarrow> (u64 \<times> u64) option" where
  "sum_window e [] calls time = Some (calls, time)"
| "sum_window e (i # js) calls time = do {
     b \<leftarrow> history_blocked_at e i;
     t \<leftarrow> history_time_at e i;
     sum_window e js (calls + b) (time + t) }"

definition report_row :: "(nat \<Rightarrow> string option) \<Rightarrow> u64 \<Rightarrow> u64 \<Rightarrow> u64 \<Rightarrow> syscall_entry \<Rightarrow> string" where
  "report_row symbols avg_epoch avg_delay_ns avg_ctx e =
     (let st = stat e in
      ''  '' @ pad_left CHR '' '' 4 (decimal (unat (syscall_id e))) @ '' '' @
      pad_right 22 (case symbols (unat (syscall_id e)) of Some t \<Rightarrow> t | None \<Rightarrow> ''?'') @ '' '' @
      pad_left CHR '' '' 10 (decimal (unat (total_blocked st))) @ '' '' @
      pad_left CHR '' '' 8 (decimal (unat (last_epoch_blocked st))) @ '' '' @
      pad_left CHR '' '' 10 (decimal (unat avg_epoch)) @ '' '' @
      pad_left CHR '' '' 9 (format_ms avg_delay_ns 16) @ '' '' @
      pad_left CHR '' '' 9 (format_ms (peak_delay_ns st) 16) @ '' '' @
      pad_left CHR '' '' 6 (decimal (unat (total_aborted st))) @ '' '' @
      pad_left CHR '' '' 9 (decimal (unat avg_ctx)) @ '' '' @
      pad_left CHR '' '' 9 (decimal (unat (peak_ctx_switches st))) @ ''  '' @
      peak_delay_comm st @ '' ('' @ signed_decimal (peak_delay_pid st) @ '':'' @
      signed_decimal (sint (peak_delay_uid st)) @ '')'' @ newline)"

definition show_entry :: "(nat \<Rightarrow> string option) \<Rightarrow> u64 \<Rightarrow> syscall_entry \<Rightarrow> string option" where
  "show_entry symbols epochs e = do {
     (window_sum, window_time) \<leftarrow> sum_window e [0..<unat (history_count e)] 0 0;
     let avg_epoch = (if history_count e \<noteq> 0 then window_sum div ucast (history_count e) else 0);
     let avg_delay_ns = (if window_sum \<noteq> 0 then window_time div window_sum else 0);
     let avg_ctx = (if epochs \<noteq> 0 then sum_ctx_switches (stat e) div epochs else 0);
     Some (report_row symbols avg_epoch avg_delay_ns avg_ctx e) }"

definition my_seq_show :: "(nat \<Rightarrow> string option) \<Rightarrow> nat \<Rightarrow> seq_pos \<Rightarrow> statmon \<Rightarrow> string option" where
  "my_seq_show symbols supported v s =
     (case v of
        SeqDone \<Rightarrow> Some []
      | SeqNull \<Rightarrow> None
      | SeqEntry p \<Rightarrow> do {
          e \<leftarrow> load p (entry_heap s);
          if supported \<le> unat (syscall_id e) then None
          else show_entry symbols (epoch_count s) e })"


section \<open>The ring of past epochs\<close>

definition entry_inv :: "syscall_entry \<Rightarrow> bool" where
  "entry_inv e \<longleftrightarrow> length (epoch_history e) = 20 \<and> length (epoch_time_history e) = 20 \<and>
     unat (history_head e) < 20 \<and> unat (history_count e) \<le> 20 \<and>
     (unat (history_count e) < 20 \<longrightarrow> history_head e = history_count e)"

text \<open>What the ring stands for: the (blocked calls, blocked ns) of the recent epochs, oldest first.\<close>

definition window :: "syscall_entry \<Rightarrow> (u64 \<times> u64) list" where
  "window e = map (\<lambda>i. (epoch_history e ! history_index e i, epoch_time_history e ! history_index e i))
     [0..<unat (history_count e)]"

definition last_20 :: "'a list \<Rightarrow> 'a list" where
  "last_20 xs = drop (length xs - 20) xs"

lemma unat_mod_20: "unat ((w :: u32) mod 20) = unat w mod 20"
  by (simp add: unat_mod)

lemma history_index_eq:
  assumes "entry_inv e" and "i \<le> 20"
  shows "history_index e i = (unat (history_head e) + 20 + i - unat (history_count e)) mod 20"
proof -
  define h c where hc: "h = unat (history_head e)" "c = unat (history_count e)"
  then have bounds: "h < 20" "c \<le> 20" using assms(1) by (auto simp: entry_inv_def)
  have words: "history_head e = of_nat h" "history_count e = of_nat c"
    by (simp_all add: hc)
  have "history_head e - history_count e + of_nat i + 20 = (of_nat (h + 20 + i - c) :: u32)"
    unfolding words using bounds by (simp add: of_nat_diff)
  moreover have "unat (of_nat (h + 20 + i - c) :: u32) = h + 20 + i - c"
    using bounds assms(2) by (intro unat_of_nat_32) simp
  ultimately show ?thesis
    unfolding history_index_def hc [symmetric] by (simp add: unat_mod_20)
qed

lemma history_index_bound: "history_index e i < 20"
  by (simp add: history_index_def unat_mod_20)

lemma length_window [simp]: "length (window e) = unat (history_count e)"
  by (simp add: window_def)

lemma push_history_inv:
  assumes "entry_inv e"
  shows "\<exists>e'. push_history b t e = Some e' \<and> entry_inv e' \<and> syscall_id e' = syscall_id e \<and> stat e' = stat e \<and>
    unat (history_head e') = (unat (history_head e) + 1) mod 20 \<and>
    unat (history_count e') = min 20 (unat (history_count e) + 1) \<and>
    epoch_history e' = (epoch_history e)[unat (history_head e) := b] \<and>
    epoch_time_history e' = (epoch_time_history e)[unat (history_head e) := t]"
proof -
  define h c where hc: "h = unat (history_head e)" "c = unat (history_count e)"
  have bounds: "h < 20" "c \<le> 20" "c < 20 \<longrightarrow> h = c"
    using assms by (auto simp: entry_inv_def hc)
  have head: "unat ((history_head e + 1) mod 20) = (h + 1) mod 20"
    using bounds by (simp add: unat_mod_20 unat_add_1_32 hc)
  let ?c = "if history_count e < 20 then history_count e + 1 else history_count e"
  have count: "unat ?c = min 20 (c + 1)"
  proof (cases "c < 20")
    case True
    then have "history_count e < 20" by (simp add: hc word_less_nat_alt)
    moreover have "unat (history_count e + 1) = c + 1"
      using True by (simp add: unat_add_1_32 hc)
    ultimately show ?thesis using True by simp
  next
    case False
    then show ?thesis using bounds by (simp add: hc word_less_nat_alt)
  qed
  have sync: "(history_head e + 1) mod 20 = ?c" if "min 20 (c + 1) < 20"
    using that bounds head count by (intro word_unat_eq_iff [THEN iffD2]) simp
  show ?thesis
    using assms head count sync bounds unfolding push_history_def entry_inv_def Let_def hc [symmetric]
    by simp
qed

lemma nth_window: "i < unat (history_count e) \<Longrightarrow>
  window e ! i = (epoch_history e ! history_index e i, epoch_time_history e ! history_index e i)"
  by (simp add: window_def)

lemma window_push_history:
  assumes "entry_inv e" and "push_history b t e = Some e'"
  shows "window e' = last_20 (window e @ [(b, t)])"
proof (rule nth_equalityI)
  define h c where hc: "h = unat (history_head e)" "c = unat (history_count e)"
  have bounds: "h < 20" "c \<le> 20" "c < 20 \<longrightarrow> h = c" "length (epoch_history e) = 20"
    "length (epoch_time_history e) = 20"
    using assms by (auto simp: entry_inv_def hc)
  have e': "entry_inv e'" "unat (history_head e') = (h + 1) mod 20" "unat (history_count e') = min 20 (c + 1)"
    "epoch_history e' = (epoch_history e)[h := b]" "epoch_time_history e' = (epoch_time_history e)[h := t]"
    using push_history_inv [OF assms(1), of b t] assms(2) by (auto simp: hc)
  show "length (window e') = length (last_20 (window e @ [(b, t)]))"
    using e'(3) bounds by (auto simp: last_20_def hc [symmetric])
  fix i assume "i < length (window e')"
  then have i: "i < min 20 (c + 1)" using e'(3) by simp
  have idx': "history_index e' i = ((h + 1) mod 20 + 20 + i - min 20 (c + 1)) mod 20"
    using history_index_eq [OF e'(1), of i] i e'(2,3) by simp
  have idx: "history_index e j = (h + 20 + j - c) mod 20" if "j \<le> 20" for j
    using history_index_eq [OF assms(1) that] by (simp add: hc)
  show "window e' ! i = last_20 (window e @ [(b, t)]) ! i"
  proof (cases "c < 20")
    case True
    then have h: "h = c" and le: "i \<le> c" and len: "length (window e) = c"
      using bounds i by (simp_all add: hc)
    have new: "history_index e' i = i"
      unfolding idx' using le True h by (cases "c = 19") auto
    have last: "last_20 (window e @ [(b, t)]) = window e @ [(b, t)]"
      using len True by (simp add: last_20_def)
    have nth: "window e' ! i = (epoch_history e' ! i, epoch_time_history e' ! i)"
      using nth_window [of i e'] i e'(3) by (simp add: new)
    show ?thesis
    proof (cases "i = c")
      case True
      then show ?thesis using bounds h \<open>c < 20\<close> unfolding last nth by (simp add: e'(4,5) nth_append hc(2) [symmetric])
    next
      case False
      have "history_index e i = i" using idx [of i] le True h by simp
      then have "window e ! i = (epoch_history e ! i, epoch_time_history e ! i)"
        using nth_window [of i e] False le by (simp add: hc)
      then show ?thesis using False le h unfolding last nth by (simp add: e'(4,5) nth_append hc(2) [symmetric])
    qed
  next
    case False
    then have c: "c = 20" using bounds by simp
    have new: "history_index e' i = (h + 1 + i) mod 20"
    proof -
      have "(h + 1) mod 20 + 20 + i - min 20 (c + 1) = (h + 1) mod 20 + i" using c by simp
      then show ?thesis unfolding idx' by (simp only: mod_add_left_eq)
    qed
    have old: "history_index e (i + 1) = (h + 1 + i) mod 20" if "i < 19"
      using idx [of "i + 1"] that c by (simp add: ac_simps)
    have nth: "window e' ! i = ((epoch_history e)[h := b] ! ((h + 1 + i) mod 20),
        (epoch_time_history e)[h := t] ! ((h + 1 + i) mod 20))"
      using nth_window [of i e'] i e'(3) by (simp only: new e'(4,5))
    have last: "last_20 (window e @ [(b, t)]) = tl (window e @ [(b, t)])"
      using c length_window [of e] by (cases "window e") (simp_all add: last_20_def hc(2) [symmetric])
    show ?thesis
    proof (cases "i = 19")
      case True
      then have "(h + 1 + i) mod 20 = h" using bounds by simp
      then show ?thesis
        unfolding nth last using True bounds c by (simp add: nth_tl nth_append hc(2) [symmetric])
    next
      case False
      then have less: "i < 19" using i c by simp
      then have "(h + 1 + i) mod 20 \<noteq> h"
        using bounds(1) by (cases "h + 1 + i < 20") (simp_all add: le_mod_geq)
      moreover have "window e ! (i + 1) =
          (epoch_history e ! ((h + 1 + i) mod 20), epoch_time_history e ! ((h + 1 + i) mod 20))"
        using nth_window [of "i + 1" e] less c by (simp only: old [OF less]) (simp add: hc)
      ultimately show ?thesis
        unfolding nth last using less c by (simp add: nth_tl nth_append hc(2) [symmetric])
    qed
  qed
qed


section \<open>The list of entries\<close>

definition entry_at :: "statmon \<Rightarrow> addr \<Rightarrow> syscall_entry" where
  "entry_at s p = the (mem (entry_heap s) p)"

definition entries :: "statmon \<Rightarrow> syscall_entry list" where
  "entries s = map (entry_at s) (syscall_list_head s)"

definition stats_inv :: "nat \<Rightarrow> statmon \<Rightarrow> bool" where
  "stats_inv supported s \<longleftrightarrow>
     heap_wf (entry_heap s) \<and> distinct (syscall_list_head s) \<and>
     dom (mem (entry_heap s)) = set (syscall_list_head s) \<and>
     (\<forall>e \<in> set (entries s). entry_inv e \<and> unat (syscall_id e) < supported) \<and>
     distinct (map syscall_id (entries s))"

definition upsert :: "u32 \<Rightarrow> (syscall_entry \<Rightarrow> syscall_entry) \<Rightarrow> syscall_entry list \<Rightarrow> syscall_entry list" where
  "upsert nr f es =
     (if nr \<in> syscall_id ` set es then map (\<lambda>e. if syscall_id e = nr then f e else e) es
      else es @ [f (new_entry nr)])"

definition entry_update :: "(syscall_entry \<Rightarrow> syscall_entry) \<Rightarrow> bool" where
  "entry_update f \<longleftrightarrow> (\<forall>e. syscall_id (f e) = syscall_id e \<and> entry_inv (f e) = entry_inv e)"

lemma upsert_ids:
  assumes "entry_update f"
  shows "syscall_id ` set (upsert nr f es) = insert nr (syscall_id ` set es)"
proof -
  have "map syscall_id (upsert nr f es) =
      (if nr \<in> syscall_id ` set es then map syscall_id es else map syscall_id es @ [nr])"
    using assms by (simp add: upsert_def entry_update_def new_entry_def)
  then have "set (map syscall_id (upsert nr f es)) = insert nr (set (map syscall_id es))"
    by auto
  then show ?thesis by simp
qed

lemma entry_update_record [simp]:
  "entry_update (record_blocked cur d)" "entry_update record_ctx_switch" "entry_update record_aborted"
  by (simp_all add: entry_update_def entry_inv_def record_blocked_def record_ctx_switch_def
      record_aborted_def Let_def)

lemma entry_inv_new [simp]: "entry_inv (new_entry nr)"
  by (simp add: entry_inv_def new_entry_def)

lemma syscall_id_new [simp]: "syscall_id (new_entry nr) = nr"
  by (simp add: new_entry_def)

lemma stats_invD:
  assumes "stats_inv supported s"
  shows "heap_wf (entry_heap s)" "distinct (syscall_list_head s)"
    "dom (mem (entry_heap s)) = set (syscall_list_head s)"
    "\<And>e. e \<in> set (entries s) \<Longrightarrow> entry_inv e \<and> unat (syscall_id e) < supported"
    "distinct (map syscall_id (entries s))"
  using assms by (auto simp: stats_inv_def)

lemma stats_load:
  "stats_inv supported s \<Longrightarrow> p \<in> set (syscall_list_head s) \<Longrightarrow> mem (entry_heap s) p = Some (entry_at s p)"
  by (metis domIff entry_at_def option.exhaust_sel stats_invD(3))

lemma stats_not_null: "stats_inv supported s \<Longrightarrow> p \<in> set (syscall_list_head s) \<Longrightarrow> p \<noteq> NULL"
  using stats_load stats_invD(1) heap_wf_null by (metis option.distinct(1))

lemma find_entry_from_cases:
  assumes "\<forall>p \<in> set ps. mem h p = Some (g p)"
  obtains (found) p where "p \<in> set ps" "syscall_id (g p) = nr" "find_entry_from nr ps h = Some p"
  | (absent) "nr \<notin> (\<lambda>p. syscall_id (g p)) ` set ps" "find_entry_from nr ps h = Some NULL"
proof -
  have "(\<exists>p \<in> set ps. syscall_id (g p) = nr \<and> find_entry_from nr ps h = Some p) \<or>
      nr \<notin> (\<lambda>p. syscall_id (g p)) ` set ps \<and> find_entry_from nr ps h = Some NULL"
    using assms by (induction ps) (auto simp: heap_simps)
  then show thesis using that by blast
qed

lemma edit_entry_inv:
  assumes "stats_inv supported s" and "p \<in> set (syscall_list_head s)" and "entry_update f"
  shows "\<exists>s'. edit_entry p f s = Some s' \<and> stats_inv supported s' \<and> epoch_count s' = epoch_count s \<and>
    entries s' = map (\<lambda>e. if syscall_id e = syscall_id (entry_at s p) then f e else e) (entries s) \<and>
    brk (entry_heap s') = brk (entry_heap s) \<and> alloc_ok (entry_heap s') = alloc_ok (entry_heap s)"
proof -
  let ?h = "entry_heap s\<lparr>mem := (mem (entry_heap s))(p \<mapsto> f (entry_at s p))\<rparr>"
  let ?s = "s\<lparr>entry_heap := ?h\<rparr>"
  note live = stats_load [OF assms(1,2)]
  have at: "entry_at ?s r = (if r = p then f (entry_at s p) else entry_at s r)" for r
    by (simp add: entry_at_def)
  have inj: "inj_on (\<lambda>r. syscall_id (entry_at s r)) (set (syscall_list_head s))"
    using stats_invD(2,5) [OF assms(1)] by (simp add: entries_def distinct_map comp_def)
  have es: "entries ?s = map (\<lambda>e. if syscall_id e = syscall_id (entry_at s p) then f e else e) (entries s)"
    using inj_onD [OF inj _ _ assms(2)] by (auto simp: entries_def at)
  have ids: "map syscall_id (entries ?s) = map syscall_id (entries s)"
    unfolding es using assms(3) by (auto simp: entry_update_def)
  have "stats_inv supported ?s"
    unfolding stats_inv_def ids
  proof (intro conjI ballI)
    fix e assume "e \<in> set (entries ?s)"
    then show "entry_inv e" "unat (syscall_id e) < supported"
      using stats_invD(4) [OF assms(1)] assms(3) unfolding es
      by (auto simp: entry_update_def split: if_splits) metis
  qed (use stats_invD [OF assms(1)] live assms(2) in auto)
  then show ?thesis
    using live es by (simp add: edit_entry_def heap_simps)
qed


lemma new_entry_linked:
  assumes "stats_inv supported s" and "nr \<notin> syscall_id ` set (entries s)" and "unat nr < supported"
    and "kmalloc (new_entry nr) (entry_heap s) = (p, h)" and "p \<noteq> NULL"
  defines "s' \<equiv> s\<lparr>entry_heap := h, syscall_list_head := syscall_list_head s @ [p]\<rparr>"
  shows "stats_inv supported s'" and "entries s' = entries s @ [new_entry nr]" and "entry_at s' p = new_entry nr"
proof -
  have wf: "heap_wf (entry_heap s)" by (rule stats_invD(1) [OF assms(1)])
  from assms(4) wf assms(5) have p: "p = brk (entry_heap s)"
    and h: "h = entry_heap s\<lparr>mem := (mem (entry_heap s))(brk (entry_heap s) \<mapsto> new_entry nr), brk := Suc (brk (entry_heap s))\<rparr>"
    by (cases rule: kmalloc_cases; simp)+
  have "p \<notin> dom (mem (entry_heap s))"
    using heap_wf_fresh [OF wf, of p] p by auto
  then have p_new: "p \<notin> set (syscall_list_head s)"
    using stats_invD(3) [OF assms(1)] by simp
  then have at: "entry_at s' r = entry_at s r" if "r \<in> set (syscall_list_head s)" for r
    using that by (auto simp: entry_at_def s'_def h p)
  show new: "entry_at s' p = new_entry nr"
    by (simp add: entry_at_def s'_def h p)
  have "entries s' = map (entry_at s') (syscall_list_head s) @ [entry_at s' p]"
    by (simp add: entries_def s'_def)
  also have "map (entry_at s') (syscall_list_head s) = entries s"
    using at by (simp add: entries_def)
  finally show es: "entries s' = entries s @ [new_entry nr]"
    by (simp add: new)
  have "heap_wf (entry_heap s')"
    using heap_wf_kmalloc [OF wf assms(4)] by (simp add: s'_def)
  moreover have "dom (mem (entry_heap s')) = set (syscall_list_head s')"
    using stats_invD(3) [OF assms(1)] by (simp add: s'_def h p)
  moreover have "distinct (syscall_list_head s')"
    using stats_invD(2) [OF assms(1)] p_new by (simp add: s'_def)
  ultimately show "stats_inv supported s'"
    using stats_invD(4,5) [OF assms(1)] assms(2,3) unfolding stats_inv_def es by auto
qed

text \<open>What recording an event does to the list of entries, in all cases.\<close>

lemma with_entry_cases:
  assumes "stats_inv supported s" and "entry_update f"
  obtains (out_of_range) "supported \<le> unat nr" "with_entry supported nr f s = Some s"
  | (no_memory) s' where "unat nr < supported" "nr \<notin> syscall_id ` set (entries s)"
      "\<not> alloc_ok (entry_heap s) (brk (entry_heap s))" "with_entry supported nr f s = Some s'"
      "stats_inv supported s'" "entries s' = entries s" "epoch_count s' = epoch_count s"
      "alloc_ok (entry_heap s') = alloc_ok (entry_heap s)"
  | (recorded) s' where "unat nr < supported" "with_entry supported nr f s = Some s'"
      "stats_inv supported s'" "entries s' = upsert nr f (entries s)" "epoch_count s' = epoch_count s"
      "alloc_ok (entry_heap s') = alloc_ok (entry_heap s)"
      "nr \<in> syscall_id ` set (entries s) \<or> alloc_ok (entry_heap s) (brk (entry_heap s))"
proof (cases "supported \<le> unat nr")
  case True
  then show thesis using that(1) by (simp add: with_entry_def)
next
  case False
  have "\<forall>p \<in> set (syscall_list_head s). mem (entry_heap s) p = Some (entry_at s p)"
    using stats_load [OF assms(1)] by simp
  then show thesis
  proof (cases rule: find_entry_from_cases [of _ _ _ nr])
    case (found p)
    obtain s' where s': "edit_entry p f s = Some s'" "stats_inv supported s'" "epoch_count s' = epoch_count s"
      "entries s' = map (\<lambda>e. if syscall_id e = nr then f e else e) (entries s)"
      "alloc_ok (entry_heap s') = alloc_ok (entry_heap s)"
      using edit_entry_inv [OF assms(1) found(1) assms(2)] found(2) by auto
    have "with_entry supported nr f s = Some s'"
      using False found stats_not_null [OF assms(1) found(1)] s'(1)
      by (simp add: with_entry_def find_or_create_entry_locked_def find_entry_locked_def)
    moreover have "nr \<in> syscall_id ` set (entries s)"
      using found(1,2) by (auto simp: entries_def)
    ultimately show thesis
      using that(3) [of s'] False s' by (simp add: upsert_def)
  next
    case absent
    then have fresh: "nr \<notin> syscall_id ` set (entries s)" by (auto simp: entries_def)
    obtain p h where k: "kmalloc (new_entry nr) (entry_heap s) = (p, h)" by fastforce
    show thesis
    proof (cases "p = NULL")
      case True
      then have h: "mem h = mem (entry_heap s)" "\<not> alloc_ok (entry_heap s) (brk (entry_heap s))"
        "heap_wf h" "alloc_ok h = alloc_ok (entry_heap s)"
        using k heap_wf_kmalloc [OF stats_invD(1) [OF assms(1)] k] heap_wf_brk [OF stats_invD(1) [OF assms(1)]]
        by (auto simp: kmalloc_def split: if_splits)
      let ?s = "s\<lparr>entry_heap := h\<rparr>"
      have es: "entries ?s = entries s"
        by (simp add: entries_def entry_at_def h(1))
      have "with_entry supported nr f s = Some ?s"
        using False absent k True
        by (simp add: with_entry_def find_or_create_entry_locked_def find_entry_locked_def)
      moreover have "stats_inv supported ?s"
        using stats_invD [OF assms(1)] h unfolding stats_inv_def es by simp
      ultimately show thesis
        using that(2) [of ?s] False fresh h es by simp
    next
      case ok: False
      let ?s = "s\<lparr>entry_heap := h, syscall_list_head := syscall_list_head s @ [p]\<rparr>"
      have sup: "unat nr < supported" using False by simp
      note new = new_entry_linked [OF assms(1) fresh sup k ok]
      obtain s' where s': "edit_entry p f ?s = Some s'" "stats_inv supported s'" "epoch_count s' = epoch_count s"
        "entries s' = map (\<lambda>e. if syscall_id e = nr then f e else e) (entries s @ [new_entry nr])"
        "alloc_ok (entry_heap s') = alloc_ok (entry_heap s)"
        using edit_entry_inv [OF new(1) _ assms(2), of p] kmalloc_alloc_ok [OF k] by (auto simp: new(2,3))
      have "map (\<lambda>e. if syscall_id e = nr then f e else e) (entries s) = entries s"
        using fresh by (intro map_idI) auto
      moreover have "with_entry supported nr f s = Some s'"
        using False absent k ok s'(1)
        by (simp add: with_entry_def find_or_create_entry_locked_def find_entry_locked_def)
      moreover have "alloc_ok (entry_heap s) (brk (entry_heap s))"
        using k ok by (auto simp: kmalloc_def split: if_splits)
      ultimately show thesis
        using that(3) [of s'] sup s' fresh by (simp add: upsert_def)
    qed
  qed
qed


lemma close_epoch_inv:
  assumes "entry_inv e"
  shows "\<exists>e'. close_epoch e = Some e' \<and> entry_inv e' \<and> syscall_id e' = syscall_id e \<and>
    stat e' = close_counters (scast (current_blocked (stat e))) (current_time_blocked (stat e))
      (scast (current_ctx_switches (stat e))) (stat e) \<and>
    window e' = last_20 (window e @ [(scast (current_blocked (stat e)), current_time_blocked (stat e))])"
proof -
  let ?b = "scast (current_blocked (stat e)) :: u64" and ?t = "current_time_blocked (stat e)"
  let ?e = "e\<lparr>stat := close_counters ?b ?t (scast (current_ctx_switches (stat e))) (stat e)\<rparr>"
  have w: "window ?e = window e" and inv: "entry_inv ?e"
    using assms by (simp_all add: window_def history_index_def entry_inv_def)
  obtain e' where e': "push_history ?b ?t ?e = Some e'" "entry_inv e'" "syscall_id e' = syscall_id ?e"
    "stat e' = stat ?e"
    using push_history_inv [OF inv, of ?b ?t] by blast
  then show ?thesis
    using window_push_history [OF inv e'(1)] w by (simp add: close_epoch_def Let_def)
qed

definition closed :: "syscall_entry \<Rightarrow> syscall_entry" where
  "closed e = the (close_epoch e)"

lemma closed_facts:
  assumes "entry_inv e"
  shows "close_epoch e = Some (closed e)" "entry_inv (closed e)" "syscall_id (closed e) = syscall_id e"
    "stat (closed e) = close_counters (scast (current_blocked (stat e))) (current_time_blocked (stat e))
      (scast (current_ctx_switches (stat e))) (stat e)"
    "window (closed e) = last_20 (window e @ [(scast (current_blocked (stat e)), current_time_blocked (stat e))])"
  using close_epoch_inv [OF assms] by (auto simp: closed_def)

lemma close_all_eq:
  assumes "distinct ps" and "\<forall>p \<in> set ps. \<exists>e. mem h p = Some e \<and> entry_inv e"
  shows "close_all ps h =
    Some (h\<lparr>mem := (\<lambda>p. if p \<in> set ps then map_option closed (mem h p) else mem h p)\<rparr>)"
  using assms
proof (induction ps arbitrary: h)
  case (Cons p ps)
  obtain e where e: "mem h p = Some e" "entry_inv e" using Cons.prems by auto
  let ?h = "h\<lparr>mem := (mem h)(p \<mapsto> closed e)\<rparr>"
  have "close_all (p # ps) h = close_all ps ?h"
    using e closed_facts(1) [OF e(2)] by (simp add: heap_simps)
  also have "\<dots> = Some (?h\<lparr>mem := (\<lambda>r. if r \<in> set ps then map_option closed (mem ?h r) else mem ?h r)\<rparr>)"
    using Cons.prems by (intro Cons.IH) auto
  also have "(\<lambda>r. if r \<in> set ps then map_option closed (mem ?h r) else mem ?h r) =
      (\<lambda>r. if r \<in> set (p # ps) then map_option closed (mem h r) else mem h r)"
    using e Cons.prems(1) by (auto simp: fun_eq_iff)
  finally show ?case by simp
qed simp

lemma update_epoch_stats_entries:
  assumes "stats_inv supported s"
  shows "\<exists>s'. update_epoch_stats s = Some s' \<and> stats_inv supported s' \<and>
    entries s' = map closed (entries s) \<and> epoch_count s' = epoch_count s + 1 \<and>
    alloc_ok (entry_heap s') = alloc_ok (entry_heap s)"
proof -
  let ?ps = "syscall_list_head s"
  let ?m = "\<lambda>p. if p \<in> set ?ps then map_option closed (mem (entry_heap s) p) else mem (entry_heap s) p"
  let ?s = "s\<lparr>epoch_count := epoch_count s + 1, entry_heap := entry_heap s\<lparr>mem := ?m\<rparr>\<rparr>"
  have inv: "entry_inv (entry_at s p)" if "p \<in> set ?ps" for p
    using stats_invD(4) [OF assms] that by (auto simp: entries_def)
  have ok: "close_all ?ps (entry_heap s) = Some (entry_heap s\<lparr>mem := ?m\<rparr>)"
    using stats_load [OF assms] inv stats_invD(2) [OF assms] by (intro close_all_eq) auto
  have es: "entries ?s = map closed (entries s)"
  proof -
    have "mem (entry_heap s) p \<noteq> None" if "p \<in> set ?ps" for p
      using stats_load [OF assms that] by simp
    then show ?thesis by (simp add: entries_def entry_at_def option.map_sel)
  qed
  have facts: "entry_inv e" "unat (syscall_id e) < supported" if "e \<in> set (entries s)" for e
    using stats_invD(4) [OF assms that] by auto
  have "map syscall_id (entries ?s) = map syscall_id (entries s)"
    unfolding es using facts closed_facts(3) by simp
  moreover have "heap_wf (entry_heap ?s)" and dom: "dom ?m = dom (mem (entry_heap s))"
    using stats_invD(1) [OF assms] by (auto simp: heap_wf_def split: if_splits)
  moreover have "entry_inv e \<and> unat (syscall_id e) < supported" if "e \<in> set (entries ?s)" for e
    using that facts closed_facts(2,3) unfolding es by auto
  ultimately have "stats_inv supported ?s"
    using stats_invD(2,3,5) [OF assms] unfolding stats_inv_def by simp
  then show ?thesis
    using ok es by (simp add: update_epoch_stats_def)
qed

section \<open>The log of events that the counters stand for\<close>

datatype stat_event = Blocked task u32 u64 | CtxSwitch u32 | Aborted u32 | EpochEnd

fun stat_step :: "nat \<Rightarrow> stat_event \<Rightarrow> statmon \<Rightarrow> statmon option" where
  "stat_step supported (Blocked current nr d) s = sysThrot_add_blocked supported current nr d s"
| "stat_step supported (CtxSwitch nr) s = sysThrot_add_ctx_switch supported nr s"
| "stat_step supported (Aborted nr) s = sysThrot_add_aborted supported nr s"
| "stat_step supported EpochEnd s = update_epoch_stats s"

fun run_stats :: "nat \<Rightarrow> stat_event list \<Rightarrow> statmon \<Rightarrow> statmon option" where
  "run_stats supported [] s = Some s"
| "run_stats supported (ev # evs) s = stat_step supported ev s \<bind> run_stats supported evs"

fun delays :: "u32 \<Rightarrow> stat_event list \<Rightarrow> u64 list" where
  "delays nr [] = []"
| "delays nr (Blocked _ m d # evs) = (if m = nr then d # delays nr evs else delays nr evs)"
| "delays nr (_ # evs) = delays nr evs"

fun running :: "stat_event list \<Rightarrow> stat_event list" where
  "running [] = []"
| "running (ev # evs) = (if EpochEnd \<in> set evs then running evs else if ev = EpochEnd then evs else ev # evs)"

definition ctx_switches :: "u32 \<Rightarrow> stat_event list \<Rightarrow> nat" where
  "ctx_switches nr evs = count_list evs (CtxSwitch nr)"

definition aborts :: "u32 \<Rightarrow> stat_event list \<Rightarrow> nat" where
  "aborts nr evs = count_list evs (Aborted nr)"

definition mentions :: "u32 \<Rightarrow> stat_event list \<Rightarrow> bool" where
  "mentions nr evs \<longleftrightarrow> delays nr evs \<noteq> [] \<or> 0 < ctx_switches nr evs \<or> 0 < aborts nr evs"

text \<open>The counters of an entry are those of the log: what happened in the running epoch, what
  happened before, and the longest delay.\<close>

definition tracks :: "stat_event list \<Rightarrow> syscall_entry \<Rightarrow> bool" where
  "tracks evs e \<longleftrightarrow> (let nr = syscall_id e; st = stat e in
     unat (current_blocked st) = length (delays nr (running evs)) \<and>
     unat (total_blocked st) + unat (current_blocked st) = length (delays nr evs) \<and>
     current_time_blocked st = sum_list (delays nr (running evs)) \<and>
     unat (total_aborted st) = aborts nr evs \<and>
     unat (current_ctx_switches st) = ctx_switches nr (running evs) \<and>
     unat (sum_ctx_switches st) + unat (current_ctx_switches st) = ctx_switches nr evs \<and>
     peak_delay_ns st = foldr max (delays nr evs) 0)"


lemma delays_append [simp]: "delays nr (evs @ evs') = delays nr evs @ delays nr evs'"
  by (induction nr evs rule: delays.induct) auto

lemma running_append:
  "running (evs @ [ev]) = (if ev = EpochEnd then [] else running evs @ [ev])"
  by (induction evs) auto

lemma running_suffix: "\<exists>zs. evs = zs @ running evs"
proof (induction evs)
  case (Cons ev evs)
  then obtain zs where "evs = zs @ running evs" ..
  then show ?case
    by (cases "EpochEnd \<in> set evs") (auto intro: exI [of _ "ev # zs"] exI [of _ "[ev]"])
qed simp

lemma length_delays: "length (delays nr evs) \<le> length evs"
  by (induction nr evs rule: delays.induct) auto

lemma ctx_switches_le: "ctx_switches nr evs \<le> length evs"
  by (simp add: ctx_switches_def count_le_length)

lemma aborts_le: "aborts nr evs \<le> length evs"
  by (simp add: aborts_def count_le_length)

lemma foldr_max_snoc: "foldr max (xs @ [d]) (0 :: u64) = max (foldr max xs 0) d"
  by (induction xs) (simp_all add: max.assoc)

lemma counts_append [simp]:
  "ctx_switches nr (evs @ evs') = ctx_switches nr evs + ctx_switches nr evs'"
  "aborts nr (evs @ evs') = aborts nr evs + aborts nr evs'"
  by (simp_all add: ctx_switches_def aborts_def)

lemma counts_one [simp]:
  "ctx_switches nr [] = 0" "aborts nr [] = 0"
  "ctx_switches nr [ev] = (if ev = CtxSwitch nr then 1 else 0)"
  "aborts nr [ev] = (if ev = Aborted nr then 1 else 0)"
  by (simp_all add: ctx_switches_def aborts_def)

lemma running_le:
  "length (delays nr (running evs)) \<le> length (delays nr evs)"
  "ctx_switches nr (running evs) \<le> ctx_switches nr evs"
proof -
  obtain zs where "evs = zs @ running evs" using running_suffix by blast
  then have "length (delays nr evs) = length (delays nr zs) + length (delays nr (running evs))"
    "ctx_switches nr evs = ctx_switches nr zs + ctx_switches nr (running evs)"
    by (metis delays_append length_append counts_append(1))+
  then show "length (delays nr (running evs)) \<le> length (delays nr evs)"
    "ctx_switches nr (running evs) \<le> ctx_switches nr evs" by simp_all
qed

lemma unat_add_1_64: "unat w < 2 ^ 64 - 1 \<Longrightarrow> unat (w + 1 :: u64) = unat w + 1"
  by (simp add: unat_word_ariths)

lemma unat_add_64: "unat v + unat w < 2 ^ 64 \<Longrightarrow> unat (v + w :: u64) = unat v + unat w"
  by (simp add: unat_word_ariths)

lemma counter_bounds:
  assumes tracks: "tracks evs e" and short: "length evs < 2 ^ 31 - 1"
  shows "unat (current_blocked (stat e)) < 2 ^ 31 - 1" "unat (current_ctx_switches (stat e)) < 2 ^ 31 - 1"
  "unat (total_blocked (stat e)) < 2 ^ 31 - 1" "unat (sum_ctx_switches (stat e)) < 2 ^ 31 - 1"
  "unat (total_aborted (stat e)) < 2 ^ 31 - 1"
  using tracks short length_delays [of "syscall_id e" evs] ctx_switches_le [of "syscall_id e" evs]
    aborts_le [of "syscall_id e" evs] running_le [where nr = "syscall_id e" and evs = evs]
  unfolding tracks_def Let_def by linarith+

lemma tracks_blocked:
  assumes tracks: "tracks evs e" and short: "length evs < 2 ^ 31 - 1"
  shows "tracks (evs @ [Blocked cur (syscall_id e) d]) (record_blocked cur d e)"
proof -
  have "unat (current_blocked (stat e) + 1) = unat (current_blocked (stat e)) + 1"
    using counter_bounds(1) [OF tracks short] by (intro unat_add_1_32) simp
  then show ?thesis
    using tracks unfolding tracks_def Let_def record_blocked_def running_append
    by (auto simp: foldr_max_snoc max_def simp del: foldr_append)
qed

lemma tracks_ctx_switch:
  assumes tracks: "tracks evs e" and short: "length evs < 2 ^ 31 - 1"
  shows "tracks (evs @ [CtxSwitch (syscall_id e)]) (record_ctx_switch e)"
proof -
  have "unat (current_ctx_switches (stat e) + 1) = unat (current_ctx_switches (stat e)) + 1"
    using counter_bounds(2) [OF tracks short] by (intro unat_add_1_32) simp
  then show ?thesis
    using tracks unfolding tracks_def Let_def record_ctx_switch_def running_append by auto
qed

lemma tracks_aborted:
  assumes tracks: "tracks evs e" and short: "length evs < 2 ^ 31 - 1"
  shows "tracks (evs @ [Aborted (syscall_id e)]) (record_aborted e)"
proof -
  have "unat (total_aborted (stat e) + 1) = unat (total_aborted (stat e)) + 1"
    using counter_bounds(5) [OF tracks short] by (intro unat_add_1_64) simp
  then show ?thesis
    using tracks unfolding tracks_def Let_def record_aborted_def running_append by auto
qed

lemma tracks_epoch_end:
  assumes tracks: "tracks evs e" and short: "length evs < 2 ^ 31 - 1" and inv: "entry_inv e"
  shows "tracks (evs @ [EpochEnd]) (closed e)"
proof -
  have b: "unat (scast (current_blocked (stat e)) :: u64) = unat (current_blocked (stat e))"
    and c: "unat (scast (current_ctx_switches (stat e)) :: u64) = unat (current_ctx_switches (stat e))"
    using counter_bounds [OF tracks short] by (simp_all add: unat_scast_small)
  have "unat (total_blocked (stat e) + scast (current_blocked (stat e))) =
      unat (total_blocked (stat e)) + unat (current_blocked (stat e))"
    "unat (sum_ctx_switches (stat e) + scast (current_ctx_switches (stat e))) =
      unat (sum_ctx_switches (stat e)) + unat (current_ctx_switches (stat e))"
    using counter_bounds [OF tracks short] by (simp_all add: unat_add_64 b c)
  then show ?thesis
    using tracks unfolding tracks_def Let_def running_append closed_facts [OF inv] close_counters_def by simp
qed


lemma tracks_other:
  assumes "tracks evs e" and "ev \<noteq> EpochEnd" and "\<not> mentions (syscall_id e) [ev]"
  shows "tracks (evs @ [ev]) e"
  using assms unfolding tracks_def Let_def mentions_def running_append
  by (auto split: if_splits)

lemma tracks_new: "\<not> mentions nr evs \<Longrightarrow> tracks evs (new_entry nr)"
  using running_le [where nr = nr and evs = evs]
  by (auto simp: tracks_def mentions_def new_entry_def zero_stat_def)

lemma mentions_append [simp]: "mentions nr (evs @ evs') \<longleftrightarrow> mentions nr evs \<or> mentions nr evs'"
  by (auto simp: mentions_def)

lemma mentions_one:
  "mentions nr [Blocked cur m d] \<longleftrightarrow> m = nr" "mentions nr [CtxSwitch m] \<longleftrightarrow> m = nr"
  "mentions nr [Aborted m] \<longleftrightarrow> m = nr" "\<not> mentions nr [EpochEnd]"
  by (auto simp: mentions_def)

text \<open>The entries agree with the log: there is one for each system call that has an event, and its
  counters are those of the log.\<close>

definition agrees :: "nat \<Rightarrow> stat_event list \<Rightarrow> statmon \<Rightarrow> bool" where
  "agrees supported evs s \<longleftrightarrow>
     stats_inv supported s \<and> unat (epoch_count s) = count_list evs EpochEnd \<and>
     (\<forall>e \<in> set (entries s). tracks evs e) \<and>
     syscall_id ` set (entries s) = {nr. unat nr < supported \<and> mentions nr evs}"

lemma agrees_record:
  assumes "agrees supported evs s" and "length evs < 2 ^ 31 - 1" and "alloc_ok (entry_heap s) = (\<lambda>_. True)"
    and "entry_update f" and "ev \<noteq> EpochEnd" and "\<And>m. mentions m [ev] \<longleftrightarrow> m = nr"
    and "\<And>e. tracks evs e \<Longrightarrow> syscall_id e = nr \<Longrightarrow> tracks (evs @ [ev]) (f e)"
  shows "\<exists>s'. with_entry supported nr f s = Some s' \<and> agrees supported (evs @ [ev]) s' \<and>
    alloc_ok (entry_heap s') = (\<lambda>_. True)"
proof -
  have inv: "stats_inv supported s" and tr: "\<And>e. e \<in> set (entries s) \<Longrightarrow> tracks evs e"
    and ids: "syscall_id ` set (entries s) = {m. unat m < supported \<and> mentions m evs}"
    and epochs: "unat (epoch_count s) = count_list (evs @ [ev]) EpochEnd"
    using assms(1,5) by (auto simp: agrees_def)
  have other: "tracks (evs @ [ev]) e" if "e \<in> set (entries s)" "syscall_id e \<noteq> nr" for e
    using that tracks_other [OF tr assms(5)] assms(6) by blast
  from inv assms(4) show ?thesis
  proof (cases rule: with_entry_cases [where nr = nr])
    case out_of_range
    then have "\<And>e. e \<in> set (entries s) \<Longrightarrow> syscall_id e \<noteq> nr"
      using stats_invD(4) [OF inv] by fastforce
    then have "\<forall>e \<in> set (entries s). tracks (evs @ [ev]) e" using other by blast
    moreover have "{m. unat m < supported \<and> mentions m evs} = {m. unat m < supported \<and> mentions m (evs @ [ev])}"
      using out_of_range assms(6) by auto
    ultimately show ?thesis
      using out_of_range inv ids epochs assms(3) by (auto simp: agrees_def)
  next
    case (no_memory s')
    then show ?thesis using assms(3) by simp
  next
    case (recorded s')
    have "\<forall>e \<in> set (entries s'). tracks (evs @ [ev]) e"
    proof (cases "nr \<in> syscall_id ` set (entries s)")
      case True
      then show ?thesis
        unfolding recorded(4) upsert_def using other assms(7) tr by auto
    next
      case False
      then have "tracks (evs @ [ev]) (f (new_entry nr))"
        using ids recorded(1) by (intro assms(7) tracks_new) auto
      then show ?thesis
        unfolding recorded(4) upsert_def using False other by (auto simp: image_iff)
    qed
    moreover have "syscall_id ` set (entries s') = insert nr (syscall_id ` set (entries s))"
      unfolding recorded(4) using upsert_ids [OF assms(4)] by blast
    then have "syscall_id ` set (entries s') = {m. unat m < supported \<and> mentions m (evs @ [ev])}"
      using ids recorded(1) assms(6) by auto
    ultimately show ?thesis
      using recorded epochs assms(3) by (auto simp: agrees_def)
  qed
qed


lemma agrees_epoch_end:
  assumes "agrees supported evs s" and "length evs < 2 ^ 31 - 1"
  shows "\<exists>s'. update_epoch_stats s = Some s' \<and> agrees supported (evs @ [EpochEnd]) s' \<and>
    alloc_ok (entry_heap s') = alloc_ok (entry_heap s)"
proof -
  have inv: "stats_inv supported s" using assms(1) by (simp add: agrees_def)
  obtain s' where s': "update_epoch_stats s = Some s'" "stats_inv supported s'"
    "entries s' = map closed (entries s)" "epoch_count s' = epoch_count s + 1"
    "alloc_ok (entry_heap s') = alloc_ok (entry_heap s)"
    using update_epoch_stats_entries [OF inv] by blast
  have entry: "entry_inv e" if "e \<in> set (entries s)" for e
    using stats_invD(4) [OF inv that] by simp
  have "tracks (evs @ [EpochEnd]) (closed e)" if "e \<in> set (entries s)" for e
    using assms that tracks_epoch_end [OF _ assms(2) entry [OF that]] by (simp add: agrees_def)
  moreover have "syscall_id ` set (entries s') = syscall_id ` set (entries s)"
    unfolding s'(3) using closed_facts(3) [OF entry] by (auto simp: image_iff)
  moreover have "unat (epoch_count s') = unat (epoch_count s) + 1"
    unfolding s'(4) using assms count_le_length [of evs EpochEnd]
    by (intro unat_add_1_64) (simp add: agrees_def)
  ultimately show ?thesis
    using assms(1) s' mentions_one(4) by (auto simp: agrees_def)
qed

lemma agrees_step:
  assumes "agrees supported evs s" and "length evs < 2 ^ 31 - 1" and "alloc_ok (entry_heap s) = (\<lambda>_. True)"
  shows "\<exists>s'. stat_step supported ev s = Some s' \<and> agrees supported (evs @ [ev]) s' \<and>
    alloc_ok (entry_heap s') = (\<lambda>_. True)"
proof (cases ev)
  case (Blocked cur nr d)
  show ?thesis
    unfolding Blocked stat_step.simps sysThrot_add_blocked_def
    by (rule agrees_record [OF assms]) (auto simp: mentions_one intro: tracks_blocked [OF _ assms(2)])
next
  case (CtxSwitch nr)
  show ?thesis
    unfolding CtxSwitch stat_step.simps sysThrot_add_ctx_switch_def
    by (rule agrees_record [OF assms]) (auto simp: mentions_one intro: tracks_ctx_switch [OF _ assms(2)])
next
  case (Aborted nr)
  show ?thesis
    unfolding Aborted stat_step.simps sysThrot_add_aborted_def
    by (rule agrees_record [OF assms]) (auto simp: mentions_one intro: tracks_aborted [OF _ assms(2)])
next
  case EpochEnd
  then show ?thesis using agrees_epoch_end [OF assms(1,2)] assms(3) by simp
qed

lemma run_stats_append: "run_stats supported (evs @ evs') s = run_stats supported evs s \<bind> run_stats supported evs'"
  by (induction evs arbitrary: s) (auto split: bind_splits)

lemma agrees_run:
  assumes "agrees supported [] s" and "alloc_ok (entry_heap s) = (\<lambda>_. True)" and "length evs < 2 ^ 31"
  shows "\<exists>s'. run_stats supported evs s = Some s' \<and> agrees supported evs s' \<and> alloc_ok (entry_heap s') = (\<lambda>_. True)"
  using assms(3)
proof (induction evs rule: rev_induct)
  case Nil
  then show ?case using assms(1,2) by simp
next
  case (snoc ev evs)
  then obtain s' where s': "run_stats supported evs s = Some s'" "agrees supported evs s'"
    "alloc_ok (entry_heap s') = (\<lambda>_. True)" by auto
  have "length evs < 2 ^ 31 - 1" using snoc.prems by simp
  then show ?case
    using agrees_step [OF s'(2) _ s'(3), of ev] s'(1) by (auto simp: run_stats_append)
qed

definition empty_statmon :: "(nat \<Rightarrow> bool) \<Rightarrow> statmon" where
  "empty_statmon ok = \<lparr>entry_heap = empty_heap ok, syscall_list_head = [], epoch_count = 0, proc_entry = False\<rparr>"

lemma agrees_empty: "agrees supported [] (empty_statmon ok)"
  by (auto simp: agrees_def stats_inv_def empty_statmon_def entries_def mentions_def)
    (simp add: empty_heap_def)


section \<open>The report\<close>

definition entry_row :: "(nat \<Rightarrow> string option) \<Rightarrow> u64 \<Rightarrow> syscall_entry \<Rightarrow> string" where
  "entry_row symbols epochs e =
     (let calls = sum_list (map fst (window e)); time = sum_list (map snd (window e))
      in report_row symbols
           (if window e \<noteq> [] then calls div of_nat (length (window e)) else 0)
           (if calls \<noteq> 0 then time div calls else 0)
           (if epochs \<noteq> 0 then sum_ctx_switches (stat e) div epochs else 0) e)"

lemma sum_window_eq:
  assumes "length (epoch_history e) = 20" "length (epoch_time_history e) = 20"
  shows "sum_window e is a b =
    Some (a + sum_list (map (\<lambda>i. epoch_history e ! history_index e i) is),
          b + sum_list (map (\<lambda>i. epoch_time_history e ! history_index e i) is))"
  by (induction "is" arbitrary: a b)
    (simp_all add: history_blocked_at_def history_time_at_def read_slot_def assms history_index_bound add.assoc)

lemma show_entry_eq:
  assumes "entry_inv e"
  shows "show_entry symbols epochs e = Some (entry_row symbols epochs e)"
proof -
  have "sum_window e [0..<unat (history_count e)] 0 0 =
      Some (sum_list (map fst (window e)), sum_list (map snd (window e)))"
    using assms by (simp add: entry_inv_def sum_window_eq window_def comp_def)
  moreover have "(ucast (history_count e) :: u64) = of_nat (length (window e))"
    by (simp add: unsigned_ucast_eq)
  moreover have "window e \<noteq> [] \<longleftrightarrow> history_count e \<noteq> 0"
    by (metis length_0_conv length_window unat_eq_zero)
  ultimately show ?thesis
    by (simp add: show_entry_def entry_row_def Let_def)
qed

text \<open>The protocol of \<open>seq_read\<close>: \<open>start\<close> at a position, then \<open>show\<close> and \<open>next\<close> until \<open>next\<close>
  returns NULL. The fuel bounds the number of rounds.\<close>

fun seq_loop :: "nat \<Rightarrow> (nat \<Rightarrow> string option) \<Rightarrow> nat \<Rightarrow> seq_pos \<Rightarrow> nat \<Rightarrow> statmon \<Rightarrow> string option" where
  "seq_loop 0 symbols supported v pos s = None"
| "seq_loop (Suc fuel) symbols supported v pos s =
     (if v = SeqNull then Some []
      else do {
        line \<leftarrow> my_seq_show symbols supported v s;
        let (v, pos) = my_seq_next v pos s;
        rest \<leftarrow> seq_loop fuel symbols supported v pos s;
        Some (line @ rest) })"

definition seq_dump :: "nat \<Rightarrow> (nat \<Rightarrow> string option) \<Rightarrow> nat \<Rightarrow> nat \<Rightarrow> statmon \<Rightarrow> string option" where
  "seq_dump fuel symbols supported pos s = do {
     let (v, head) = my_seq_start pos s;
     rows \<leftarrow> seq_loop fuel symbols supported v pos s;
     Some (head @ rows) }"

lemma seek_eq:
  "i \<le> pos \<Longrightarrow> seek ps i pos =
     (if pos - i < length ps then SeqEntry (ps ! (pos - i)) else if pos - i = length ps then SeqDone else SeqNull)"
proof (induction ps i pos rule: seek.induct)
  case (2 p ps i pos)
  show ?case
  proof (cases "i = pos")
    case False
    then have "pos - i = Suc (pos - (i + 1))" using 2 by simp
    then show ?thesis using 2 False by auto
  qed simp
qed auto

lemma seq_loop_rows:
  assumes "stats_inv supported s" and "pos \<le> length (syscall_list_head s)"
    and "length (syscall_list_head s) - pos + 2 \<le> fuel"
  shows "seq_loop fuel symbols supported (seek (syscall_list_head s) 0 pos) pos s =
    Some (concat (map (entry_row symbols (epoch_count s)) (drop pos (entries s))))"
  using assms(2,3)
proof (induction fuel arbitrary: pos)
  case (Suc fuel)
  let ?ps = "syscall_list_head s"
  show ?case
  proof (cases "pos = length ?ps")
    case True
    obtain k where "fuel = Suc k" using Suc.prems by (cases fuel) auto
    then show ?thesis
      using True by (simp add: seek_eq my_seq_show_def my_seq_next_def entries_def)
  next
    case False
    then have less: "pos < length ?ps" using Suc.prems by simp
    let ?e = "entries s ! pos"
    have at: "entry_at s (?ps ! pos) = ?e" and mem: "?e \<in> set (entries s)"
      using less by (simp_all add: entries_def)
    have drop: "drop pos (entries s) = ?e # drop (Suc pos) (entries s)"
      using less by (intro Cons_nth_drop_Suc [symmetric]) (simp add: entries_def)
    have "my_seq_show symbols supported (SeqEntry (?ps ! pos)) s = Some (entry_row symbols (epoch_count s) ?e)"
      using stats_load [OF assms(1), of "?ps ! pos"] stats_invD(4) [OF assms(1) mem] less at
      by (simp add: my_seq_show_def heap_simps show_entry_eq)
    then show ?thesis
      using Suc.IH [of "Suc pos"] Suc.prems less drop by (simp add: seek_eq my_seq_next_def)
  qed
qed simp

lemma decimal_digit: "n < 10 \<Longrightarrow> decimal n = [char_of (48 + n)]"
  by (simp add: decimal.simps)

lemma decimal_not_empty [simp]: "decimal n \<noteq> []"
  by (subst decimal.simps) simp

lemma length_decimal: "n < 10 ^ k \<Longrightarrow> 0 < k \<Longrightarrow> length (decimal n) \<le> k"
proof (induction k arbitrary: n)
  case (Suc k)
  show ?case
  proof (cases "n < 10")
    case True
    then show ?thesis by (simp add: decimal_digit)
  next
    case False
    then have "0 < k" using Suc.prems by (cases k) auto
    moreover have "n div 10 < 10 ^ k"
      using Suc.prems(1) by (intro less_mult_imp_div_less) (simp add: mult.commute)
    ultimately show ?thesis using Suc.IH [of "n div 10"] False by (subst decimal.simps) simp
  qed
qed simp

definition parse_decimal :: "string \<Rightarrow> nat" where
  "parse_decimal = foldl (\<lambda>a c. a * 10 + (of_char c - 48)) 0"

lemma parse_decimal_decimal [simp]: "parse_decimal (decimal n) = n"
proof (induction n rule: decimal.induct)
  case (1 n)
  have digit: "of_char (char_of (48 + m :: nat)) = 48 + m" if "m < 10" for m
    using that by (simp add: of_char_of)
  show ?case
    using 1 digit [of n] digit [of "n mod 10"]
    by (subst decimal.simps) (auto simp: parse_decimal_def)
qed


section \<open>Properties\<close>

lemma stats_inv_empty [simp]: "stats_inv supported (empty_statmon ok)"
  using agrees_empty by (auto simp: agrees_def)

definition loader :: task where
  "loader = \<lparr>task_pid = 4242, task_uid = 1000, task_comm = ''st_load_gen1''\<rparr>"



text \<open>C17: The ring buffers hold the window of the last 20 epochs. At the end of an epoch the values of
  the running epoch of every entry are appended to what its rings stand for, and only the 20 most
  recent epochs are kept; the writes stay in bounds and the running counters restart from zero.\<close>

theorem update_epoch_stats_window:
  assumes "stats_inv supported s"
  shows "\<exists>s'. update_epoch_stats s = Some s' \<and> stats_inv supported s' \<and>
    map syscall_id (entries s') = map syscall_id (entries s) \<and>
    map window (entries s') =
      map (\<lambda>e. last_20 (window e @ [(scast (current_blocked (stat e)), current_time_blocked (stat e))])) (entries s) \<and>
    (\<forall>e \<in> set (entries s'). current_blocked (stat e) = 0 \<and> current_time_blocked (stat e) = 0 \<and>
       current_ctx_switches (stat e) = 0)"
proof -
  obtain s' where s': "update_epoch_stats s = Some s'" "stats_inv supported s'" "entries s' = map closed (entries s)"
    using update_epoch_stats_entries [OF assms] by blast
  have "entry_inv e" if "e \<in> set (entries s)" for e
    using stats_invD(4) [OF assms that] by simp
  then show ?thesis
    using s' closed_facts(3,4,5) by (auto simp: close_counters_def)
qed

theorem update_epoch_stats_window_witness:
  "\<exists>s s'. sysThrot_add_blocked 400 loader 39 7 (empty_statmon (\<lambda>_. True)) = Some s \<and>
     update_epoch_stats s = Some s' \<and> map window (entries s') = [[(1, 7)]]"
proof -
  obtain s where s: "sysThrot_add_blocked 400 loader 39 7 (empty_statmon (\<lambda>_. True)) = Some s" "stats_inv 400 s"
    "entries s = [record_blocked loader 7 (new_entry 39)]"
    unfolding sysThrot_add_blocked_def
    by (rule with_entry_cases [OF stats_inv_empty [of 400 "\<lambda>_. True"], of "record_blocked loader 7" 39])
      (simp_all add: empty_statmon_def empty_heap_def entries_def upsert_def)
  have "current_blocked (stat (record_blocked loader 7 (new_entry 39))) = 1"
    "current_time_blocked (stat (record_blocked loader 7 (new_entry 39))) = 7"
    "window (record_blocked loader 7 (new_entry 39)) = []"
    by (simp_all add: record_blocked_def new_entry_def zero_stat_def window_def Let_def)
  then show ?thesis
    using update_epoch_stats_window [OF s(2)] s(1,3) by (auto simp: last_20_def)
qed

text \<open>Memory safety under allocation failure. Whatever the allocator does, recording an event or
  ending an epoch never faults and keeps the monitor well formed (identifiers unique and supported,
  ring indices in range); an event on an unsupported number changes nothing, and one that finds no
  memory for its new entry is dropped.\<close>

lemma stat_step_safe:
  assumes "stats_inv supported s"
  shows "\<exists>s'. stat_step supported ev s = Some s' \<and> stats_inv supported s' \<and>
    (\<forall>nr. mentions nr [ev] \<and> supported \<le> unat nr \<longrightarrow> s' = s) \<and>
    (\<forall>nr. mentions nr [ev] \<and> unat nr < supported \<and> nr \<notin> syscall_id ` set (entries s) \<and>
       \<not> alloc_ok (entry_heap s) (brk (entry_heap s)) \<longrightarrow> entries s' = entries s)"
proof -
  have step: "\<exists>s'. with_entry supported nr f s = Some s' \<and> stats_inv supported s' \<and>
      (supported \<le> unat nr \<longrightarrow> s' = s) \<and>
      (unat nr < supported \<and> nr \<notin> syscall_id ` set (entries s) \<and>
       \<not> alloc_ok (entry_heap s) (brk (entry_heap s)) \<longrightarrow> entries s' = entries s)"
    if "entry_update f" for nr f
    using assms that
  proof (cases rule: with_entry_cases [where nr = nr])
    case out_of_range
    then show ?thesis using assms by simp
  next
    case (no_memory s')
    then show ?thesis by simp
  next
    case (recorded s')
    then show ?thesis by auto
  qed
  show ?thesis
  proof (cases ev)
    case EpochEnd
    then show ?thesis using update_epoch_stats_entries [OF assms] mentions_one(4) by auto
  qed (use step in \<open>auto simp: mentions_one sysThrot_add_blocked_def sysThrot_add_ctx_switch_def
      sysThrot_add_aborted_def\<close>)
qed




text \<open>C19: \<open>format_ms\<close> prints nanoseconds as milliseconds with two decimals: below \<open>10^18\<close> ns the
  16-byte buffer holds the whole text, the digits before the point read back as the milliseconds, and
  the two after it as the hundredths; for every value the text and its terminator fit the buffer.\<close>

theorem format_ms_correct:
  "0 < len \<Longrightarrow> length (format_ms ns len) < len \<and>
   (unat ns < 10 ^ 18 \<longrightarrow>
      (\<exists>whole frac. format_ms ns 16 = whole @ ''.'' @ frac \<and> length frac = 2 \<and>
         parse_decimal whole = unat ns div 10 ^ 6 \<and> parse_decimal frac = unat ns div 10 ^ 4 mod 100))"
proof (intro conjI impI)
  assume "0 < len"
  then show "length (format_ms ns len) < len"
    by (simp add: format_ms_def Let_def)
next
  assume small: "unat ns < 10 ^ 18"
  define m where "m = unat ns div 10 ^ 4"
  let ?frac = "pad_left CHR ''0'' 2 (decimal (m mod 100))"
  have units: "unat (ns div 10000 div 100) = m div 100" "unat (ns div 10000 mod 100) = m mod 100"
    by (simp_all add: unat_div unat_mod m_def)
  have len_frac: "length ?frac = 2"
    using length_decimal [of "m mod 100" 2] by (simp add: pad_left_def)
  have "m div 100 < 10 ^ 12"
    using small by (simp add: m_def div_mult2_eq [symmetric])
  then have "length (decimal (m div 100)) \<le> 12"
    by (rule length_decimal) simp
  then have "format_ms ns 16 = decimal (m div 100) @ ''.'' @ ?frac"
    unfolding format_ms_def Let_def units using len_frac by simp
  moreover have "parse_decimal ?frac = m mod 100"
  proof -
    have zeros: "parse_decimal (replicate k CHR ''0'' @ t) = parse_decimal t" for k t
      by (induction k) (simp_all add: parse_decimal_def)
    then show ?thesis by (simp add: pad_left_def)
  qed
  moreover have "m div 100 = unat ns div 10 ^ 6"
    by (simp add: m_def div_mult2_eq [symmetric])
  ultimately show "\<exists>whole frac. format_ms ns 16 = whole @ ''.'' @ frac \<and> length frac = 2 \<and>
      parse_decimal whole = unat ns div 10 ^ 6 \<and> parse_decimal frac = unat ns div 10 ^ 4 mod 100"
    using len_frac by (intro exI [of _ "decimal (m div 100)"] exI [of _ ?frac]) (simp add: m_def)
qed

theorem format_ms_correct_witness:
  "length (format_ms 12345678 16) < 16 \<and>
   (\<exists>whole frac. format_ms 12345678 16 = whole @ ''.'' @ frac \<and> parse_decimal whole = 12 \<and> parse_decimal frac = 34)"
  using format_ms_correct [of 16 12345678] by auto

text \<open>\<open>sysThrot_statmonitor_exit\<close> removes the proc entry, empties the list and gives back exactly the
  memory of the entries.\<close>

lemma statmonitor_exit_frees_all:
  assumes "stats_inv supported s"
  shows "\<exists>s'. sysThrot_statmonitor_exit s = Some s' \<and> syscall_list_head s' = [] \<and>
    mem (entry_heap s') = Map.empty \<and> \<not> proc_entry s'"
proof -
  have loop: "\<exists>s'. free_entries ps s = Some s' \<and> syscall_list_head s' = [] \<and>
      mem (entry_heap s') = mem (entry_heap s) |` (- set ps) \<and> proc_entry s' = proc_entry s"
    if "syscall_list_head s = ps" "distinct ps" "NULL \<notin> set ps" "set ps \<subseteq> dom (mem (entry_heap s))" for ps s
    using that
  proof (induction ps arbitrary: s)
    case (Cons p ps)
    let ?s = "s\<lparr>syscall_list_head := ps, entry_heap := entry_heap s\<lparr>mem := (mem (entry_heap s))(p := None)\<rparr>\<rparr>"
    have "free_entries (p # ps) s = free_entries ps ?s"
      using Cons.prems by (auto simp: heap_simps)
    moreover have "set ps \<subseteq> dom (mem (entry_heap ?s))" using Cons.prems by auto
    ultimately show ?case
      using Cons.IH [of ?s] Cons.prems(2,3) by (simp add: fun_upd_def flip: restrict_map_minus_insert)
  qed (simp add: restrict_map_def)
  have "mem (entry_heap s) |` (- set (syscall_list_head s)) = Map.empty"
    using stats_invD(3) [OF assms] by (auto simp: restrict_map_def fun_eq_iff domIff)
  moreover have "NULL \<notin> set (syscall_list_head s)"
    using stats_not_null [OF assms] by auto
  ultimately show ?thesis
    using loop [of "s\<lparr>proc_entry := False\<rparr>" "syscall_list_head s"] stats_invD(2,3) [OF assms]
    by (simp add: sysThrot_statmonitor_exit_def)
qed

end
