(* ===== verification/Probe.thy ===== *)
theory Probe
  imports Throttle_Prelude
begin

text \<open>
  Patching of the system call entry points (\<open>sysThrot.c\<close>, lines 37-117 and 369-466, and the control
  register helpers of \<open>lib/sysThrot.h\<close>). The state holds the presence bitmap and the cached addresses of
  \<open>struct sysThrot_driver\<close>, the two symbols resolved at run time, and the bytes of the kernel text.

  The kernel's side is a parameter: \<open>kprobe\<close> is what \<open>register_kprobe\<close> returns for a symbol (its code
  and the address it leaves in \<open>kp.addr\<close>), \<open>kallsyms\<close> is \<open>kallsyms_lookup_name\<close>, and \<open>poke\<close> is
  \<open>smp_text_poke_single\<close>, of which the code relies on one law: it writes the given bytes at the given
  address and nothing else. The table of symbol names is generated and is a parameter as well.
\<close>

section \<open>State\<close>

type_synonym code = "u64 \<Rightarrow> u8"

record kernel_env =
  kprobe :: "string option \<Rightarrow> int \<times> u64"
  kallsyms :: "string \<Rightarrow> u64"
  poke :: "u64 \<Rightarrow> u8 list \<Rightarrow> code \<Rightarrow> code"

record probes =
  kernel_text_mutex :: u64
  smp_text_poke_single_fn :: u64
  syscall_presence_bitmap :: "u8 list"
  syscall_addresses :: "u64 list"
  text_bytes :: code

section \<open>Run-time patching\<close>

definition lookup_symbol :: "kernel_env \<Rightarrow> string \<Rightarrow> u64" where
  "lookup_symbol env name =
     (if fst (kprobe env (Some ''kallsyms_lookup_name'')) < 0 then 0 else kallsyms env name)"

definition init_patch_locks :: "kernel_env \<Rightarrow> probes \<Rightarrow> int \<times> probes" where
  "init_patch_locks env s =
     (let s = s\<lparr>kernel_text_mutex := lookup_symbol env ''text_mutex''\<rparr>
      in if kernel_text_mutex s = 0 then (- ENOENT, s) else (0, s))"

definition my_patch_init :: "kernel_env \<Rightarrow> probes \<Rightarrow> int \<times> probes" where
  "my_patch_init env s =
     (let (_, s) = init_patch_locks env s
      in if kernel_text_mutex s = 0 then (- ENOENT, s)
         else let s = s\<lparr>smp_text_poke_single_fn := lookup_symbol env ''smp_text_poke_single''\<rparr>
              in if smp_text_poke_single_fn s = 0 then (- ENOENT, s) else (0, s))"

text \<open>Locking a mutex at NULL is a fault.\<close>

definition apply_smp_patch :: "kernel_env \<Rightarrow> u64 \<Rightarrow> u8 list \<Rightarrow> probes \<Rightarrow> (int \<times> probes) option" where
  "apply_smp_patch env target insn s =
     (let s = (if smp_text_poke_single_fn s = 0 then snd (my_patch_init env s) else s)
      in if smp_text_poke_single_fn s \<noteq> 0
         then if kernel_text_mutex s = 0 then None
              else Some (1, s\<lparr>text_bytes := poke env target insn (text_bytes s)\<rparr>)
         else Some (- ENOENT, s))"

section \<open>Installing and removing a probe\<close>

definition bit_set :: "u8 list \<Rightarrow> nat \<Rightarrow> bool option" where
  "bit_set bm i =
     (if i div 8 < length bm then Some ((bm ! (i div 8)) AND push_bit (i mod 8) 1 \<noteq> 0) else None)"

definition set_presence :: "nat \<Rightarrow> probes \<Rightarrow> probes option" where
  "set_presence i s = (let bm = syscall_presence_bitmap s in
     if i div 8 < length bm
     then Some (s\<lparr>syscall_presence_bitmap := bm[i div 8 := (bm ! (i div 8)) OR push_bit (i mod 8) 1]\<rparr>)
     else None)"

definition clear_presence :: "nat \<Rightarrow> probes \<Rightarrow> probes option" where
  "clear_presence i s = (let bm = syscall_presence_bitmap s in
     if i div 8 < length bm
     then Some (s\<lparr>syscall_presence_bitmap := bm[i div 8 := (bm ! (i div 8)) AND NOT (push_bit (i mod 8) 1)]\<rparr>)
     else None)"

definition cached_address :: "nat \<Rightarrow> probes \<Rightarrow> u64 option" where
  "cached_address i s =
     (if i < length (syscall_addresses s) then Some (syscall_addresses s ! i) else None)"

text \<open>The address of the entry point: from the cache, or from \<open>register_kprobe\<close>, which fills the
  cache; \<open>Inl\<close> is the error of \<open>register_kprobe\<close>.\<close>

definition resolve :: "kernel_env \<Rightarrow> (nat \<Rightarrow> string option) \<Rightarrow> nat \<Rightarrow> probes \<Rightarrow> (int + u64 \<times> probes) option" where
  "resolve env symbols i s = do {
     a \<leftarrow> cached_address i s;
     if a \<noteq> 0 then Some (Inr (a, s))
     else let (result, a) = kprobe env (symbols i)
          in if result \<noteq> 0 then Some (Inl result)
             else Some (Inr (a, s\<lparr>syscall_addresses := (syscall_addresses s)[i := a]\<rparr>)) }"

definition le32 :: "u32 \<Rightarrow> u8 list" where
  "le32 w = [ucast w, ucast (drop_bit 8 w), ucast (drop_bit 16 w), ucast (drop_bit 24 w)]"

definition call_instruction :: "u64 \<Rightarrow> u64 \<Rightarrow> u8 list" where
  "call_instruction stub_trampoline addr_sys =
     0xE8 # le32 (ucast (stub_trampoline - addr_sys - 5))"

definition installProbe ::
  "kernel_env \<Rightarrow> nat \<Rightarrow> (nat \<Rightarrow> string option) \<Rightarrow> u64 \<Rightarrow> int \<Rightarrow> probes \<Rightarrow> (int \<times> probes) option" where
  "installProbe env supported symbols stub_trampoline syscall_id s =
     (if syscall_id < 0 \<or> int supported \<le> syscall_id then Some (- EINVAL, s)
      else let i = nat syscall_id in do {
        present \<leftarrow> bit_set (syscall_presence_bitmap s) i;
        if present then Some (- EEXIST, s)
        else do {
          r \<leftarrow> resolve env symbols i s;
          case r of
            Inl result \<Rightarrow> Some (result, s)
          | Inr (addr_sys, s) \<Rightarrow> do {
              (result, s) \<leftarrow> apply_smp_patch env addr_sys (call_instruction stub_trampoline addr_sys) s;
              if result < 0 then Some (result, s)
              else do { s \<leftarrow> set_presence i s; Some (1, s) } } } })"

definition removal_bytes :: "u8 list" where
  "removal_bytes = [0x0f, 0x00, 0x44, 0x00, 0x00]"

definition removeProbe ::
  "kernel_env \<Rightarrow> nat \<Rightarrow> (nat \<Rightarrow> string option) \<Rightarrow> int \<Rightarrow> probes \<Rightarrow> (int \<times> probes) option" where
  "removeProbe env supported symbols syscall_id s =
     (if syscall_id < 0 \<or> int supported \<le> syscall_id then Some (- EINVAL, s)
      else let i = nat syscall_id in do {
        present \<leftarrow> bit_set (syscall_presence_bitmap s) i;
        if \<not> present then Some (- EEXIST, s)
        else do {
          r \<leftarrow> resolve env symbols i s;
          case r of
            Inl result \<Rightarrow> Some (- 1, s)
          | Inr (addr_sys, s) \<Rightarrow> do {
              (result, s) \<leftarrow> apply_smp_patch env addr_sys removal_bytes s;
              if result < 0 then Some (result, s)
              else do { s \<leftarrow> clear_presence i s; Some (1, s) } } } })"

text \<open>The loop of \<open>sysThrot_cleanup\<close> over the bytes and bits of the bitmap, on the identifiers
  \<open>i * 8 + j\<close>; the result of \<open>removeProbe\<close> is ignored.\<close>

fun cleanup_bits ::
  "kernel_env \<Rightarrow> nat \<Rightarrow> (nat \<Rightarrow> string option) \<Rightarrow> nat \<Rightarrow> nat list \<Rightarrow> probes \<Rightarrow> probes option" where
  "cleanup_bits env supported symbols i [] s = Some s"
| "cleanup_bits env supported symbols i (j # js) s = do {
     present \<leftarrow> bit_set (syscall_presence_bitmap s) (i * 8 + j);
     s \<leftarrow> (if present then do { (_, s) \<leftarrow> removeProbe env supported symbols (int (i * 8 + j)) s; Some s }
           else Some s);
     cleanup_bits env supported symbols i js s }"

fun cleanup_bytes ::
  "kernel_env \<Rightarrow> nat \<Rightarrow> (nat \<Rightarrow> string option) \<Rightarrow> nat list \<Rightarrow> probes \<Rightarrow> probes option" where
  "cleanup_bytes env supported symbols [] s = Some s"
| "cleanup_bytes env supported symbols (i # js) s =
     (if length (syscall_presence_bitmap s) \<le> i then None
      else if syscall_presence_bitmap s ! i \<noteq> 0
      then do {
        s \<leftarrow> cleanup_bits env supported symbols i [0..<8] s;
        cleanup_bytes env supported symbols js s }
      else cleanup_bytes env supported symbols js s)"

definition cleanup_probes ::
  "kernel_env \<Rightarrow> nat \<Rightarrow> (nat \<Rightarrow> string option) \<Rightarrow> probes \<Rightarrow> probes option" where
  "cleanup_probes env supported symbols s =
     cleanup_bytes env supported symbols [0..<length (syscall_presence_bitmap s)] s"

section \<open>The patching variant that clears write protection\<close>

text \<open>With \<open>USE_TEXT_POKE_SINGLE\<close> 0 the bytes are copied directly, with the write-protect bit of CR0
  and the CET bit of CR4 cleared around the copy. \<open>cet\<close> says whether \<open>X86_CR4_CET\<close> is defined. A
  store to the text while CR0.WP is set is a fault. \<open>memcpy\<close> returns its destination, so the error
  branch after it is never taken.\<close>

record cpu =
  cr0 :: u64
  cr4 :: u64
  preempt_count :: int

abbreviation (input) X86_CR0_WP :: u64 where "X86_CR0_WP \<equiv> 0x10000"
abbreviation (input) X86_CR4_CET :: u64 where "X86_CR4_CET \<equiv> 0x800000"

definition write_cr0_forced :: "u64 \<Rightarrow> cpu \<Rightarrow> cpu" where
  "write_cr0_forced val c = c\<lparr>cr0 := val\<rparr>"

definition protect_memory :: "cpu \<Rightarrow> cpu" where
  "protect_memory c = write_cr0_forced (cr0 c) c"

definition unprotect_memory :: "cpu \<Rightarrow> cpu" where
  "unprotect_memory c = write_cr0_forced (cr0 c AND NOT X86_CR0_WP) c"

definition write_cr4_forced :: "u64 \<Rightarrow> cpu \<Rightarrow> cpu" where
  "write_cr4_forced val c = c\<lparr>cr4 := val\<rparr>"

definition conditional_cet_disable :: "bool \<Rightarrow> u64 \<Rightarrow> cpu \<Rightarrow> cpu" where
  "conditional_cet_disable cet v c =
     (if cet \<and> v AND X86_CR4_CET \<noteq> 0 then write_cr4_forced (v AND NOT X86_CR4_CET) c else c)"

definition conditional_cet_enable :: "bool \<Rightarrow> u64 \<Rightarrow> cpu \<Rightarrow> cpu" where
  "conditional_cet_enable cet v c =
     (if cet \<and> v AND X86_CR4_CET \<noteq> 0 then write_cr4_forced v c else c)"

definition being_sys_call_hacking :: "bool \<Rightarrow> cpu \<Rightarrow> u64 \<times> u64 \<times> cpu" where
  "being_sys_call_hacking cet c =
     (let c = c\<lparr>preempt_count := preempt_count c + 1\<rparr>;
          saved0 = cr0 c; saved4 = cr4 c
      in (saved0, saved4, unprotect_memory (conditional_cet_disable cet saved4 c)))"

definition end_sys_call_hacking :: "bool \<Rightarrow> u64 \<Rightarrow> u64 \<Rightarrow> cpu \<Rightarrow> cpu" where
  "end_sys_call_hacking cet saved0 saved4 c =
     (let c = conditional_cet_enable cet saved4 (protect_memory c)
      in c\<lparr>preempt_count := preempt_count c - 1\<rparr>)"

fun memcpy_text :: "u64 \<Rightarrow> u8 list \<Rightarrow> code \<Rightarrow> code" where
  "memcpy_text a [] t = t"
| "memcpy_text a (b # bs) t = memcpy_text (a + 1) bs (t(a := b))"

definition apply_mmap_patch :: "bool \<Rightarrow> u64 \<Rightarrow> u8 list \<Rightarrow> cpu \<Rightarrow> code \<Rightarrow> (int \<times> cpu \<times> code) option" where
  "apply_mmap_patch cet target insn c t =
     (let c = c\<lparr>preempt_count := preempt_count c + 1\<rparr>;
          (saved0, saved4, c) = being_sys_call_hacking cet c
      in if cr0 c AND X86_CR0_WP \<noteq> 0 then None
         else let t = memcpy_text target insn t;
                  c = end_sys_call_hacking cet saved0 saved4 c
              in Some (1, c\<lparr>preempt_count := preempt_count c - 1\<rparr>, t))"


section \<open>The bitmap\<close>

definition probed :: "probes \<Rightarrow> nat \<Rightarrow> bool" where
  "probed s i \<longleftrightarrow> i div 8 < length (syscall_presence_bitmap s) \<and> bit (syscall_presence_bitmap s ! (i div 8)) (i mod 8)"

lemma bit_set_probed:
  "i < 8 * length (syscall_presence_bitmap s) \<Longrightarrow> bit_set (syscall_presence_bitmap s) i = Some (probed s i)"
  by (simp add: bit_set_def probed_def and_exp_eq_0_iff_not_bit less_mult_imp_div_less mult.commute)

lemma same_bit: "i div 8 = j div 8 \<Longrightarrow> i mod 8 = j mod 8 \<Longrightarrow> i = (j :: nat)"
  by (metis div_mult_mod_eq)

lemma set_presence_probed:
  assumes "i < 8 * length (syscall_presence_bitmap s)"
  shows "\<exists>bm. set_presence i s = Some (s\<lparr>syscall_presence_bitmap := bm\<rparr>) \<and>
    length bm = length (syscall_presence_bitmap s) \<and>
    (\<forall>j. probed (s\<lparr>syscall_presence_bitmap := bm\<rparr>) j \<longleftrightarrow> j = i \<or> probed s j)"
proof -
  have i: "i div 8 < length (syscall_presence_bitmap s)"
    using assms by (simp add: less_mult_imp_div_less mult.commute)
  let ?bm = "(syscall_presence_bitmap s)[i div 8 := (syscall_presence_bitmap s ! (i div 8)) OR push_bit (i mod 8) 1]"
  have "probed (s\<lparr>syscall_presence_bitmap := ?bm\<rparr>) j \<longleftrightarrow> j = i \<or> probed s j" for j
  proof (cases "j = i")
    case False
    then have "j div 8 \<noteq> i div 8 \<or> j mod 8 \<noteq> i mod 8" using same_bit by blast
    with i show ?thesis by (auto simp: probed_def nth_list_update bit_or_iff bit_exp_iff)
  qed (use i in \<open>simp add: probed_def bit_or_iff bit_exp_iff\<close>)
  then show ?thesis using i by (intro exI [of _ ?bm]) (simp add: set_presence_def Let_def)
qed

lemma clear_presence_probed:
  assumes "i < 8 * length (syscall_presence_bitmap s)"
  shows "\<exists>bm. clear_presence i s = Some (s\<lparr>syscall_presence_bitmap := bm\<rparr>) \<and>
    length bm = length (syscall_presence_bitmap s) \<and>
    (\<forall>j. probed (s\<lparr>syscall_presence_bitmap := bm\<rparr>) j \<longleftrightarrow> j \<noteq> i \<and> probed s j)"
proof -
  have i: "i div 8 < length (syscall_presence_bitmap s)"
    using assms by (simp add: less_mult_imp_div_less mult.commute)
  let ?bm = "(syscall_presence_bitmap s)[i div 8 := (syscall_presence_bitmap s ! (i div 8)) AND NOT (push_bit (i mod 8) 1)]"
  have "probed (s\<lparr>syscall_presence_bitmap := ?bm\<rparr>) j \<longleftrightarrow> j \<noteq> i \<and> probed s j" for j
  proof (cases "j = i")
    case False
    then have "j div 8 \<noteq> i div 8 \<or> j mod 8 \<noteq> i mod 8" using same_bit by blast
    with i show ?thesis by (auto simp: probed_def nth_list_update bit_and_iff bit_not_iff bit_exp_iff)
  qed (use i in \<open>simp add: probed_def bit_and_iff bit_not_iff bit_exp_iff\<close>)
  then show ?thesis using i by (intro exI [of _ ?bm]) (simp add: clear_presence_def Let_def)
qed

section \<open>The call instruction\<close>

definition rel32_at :: "code \<Rightarrow> u64 \<Rightarrow> u32" where
  "rel32_at t a = ucast (t (a + 1)) OR push_bit 8 (ucast (t (a + 2))) OR
     push_bit 16 (ucast (t (a + 3))) OR push_bit 24 (ucast (t (a + 4)))"

text \<open>Where the processor goes when it executes the instruction at an address, if that is a CALL rel32:
  the sign-extended displacement is relative to the next instruction.\<close>

definition decode_call :: "code \<Rightarrow> u64 \<Rightarrow> u64 option" where
  "decode_call t a = (if t a = 0xE8 then Some (a + 5 + scast (rel32_at t a)) else None)"

definition near :: "u64 \<Rightarrow> u64 \<Rightarrow> bool" where
  "near stub a \<longleftrightarrow> - (2 ^ 31) \<le> sint (stub - a - 5) \<and> sint (stub - a - 5) < 2 ^ 31"

lemma scast_ucast_near:
  assumes "- (2 ^ 31) \<le> sint w" and "sint w < 2 ^ 31"
  shows "scast (ucast (w :: u64) :: u32) = w"
proof -
  have "sint (ucast w :: u32) = signed_take_bit 31 (sint w)"
    by (rule bit_eqI) (auto simp: bit_simps)
  also have "\<dots> = sint w"
    using assms by (simp add: signed_take_bit_int_eq_self_iff)
  finally have "of_int (sint (ucast w :: u32)) = (of_int (sint w) :: u64)" by simp
  then show ?thesis by simp
qed

lemma le32_join:
  "ucast (ucast w :: u8) OR push_bit 8 (ucast (ucast (drop_bit 8 w) :: u8)) OR
   push_bit 16 (ucast (ucast (drop_bit 16 w) :: u8)) OR push_bit 24 (ucast (ucast (drop_bit 24 w) :: u8)) = (w :: u32)"
proof (rule bit_word_eqI)
  fix n assume "n < LENGTH(32)"
  then consider "n < 8" | "8 \<le> n" "n < 16" | "16 \<le> n" "n < 24" | "24 \<le> n" "n < 32" by fastforce
  then show "bit (ucast (ucast w :: u8) OR push_bit 8 (ucast (ucast (drop_bit 8 w) :: u8)) OR
     push_bit 16 (ucast (ucast (drop_bit 16 w) :: u8)) OR push_bit 24 (ucast (ucast (drop_bit 24 w) :: u8)) :: u32) n = bit w n"
    by cases (auto simp: bit_simps)
qed


section \<open>The interface of the text patcher\<close>

text \<open>What the code relies on of a patcher: the bytes are written where they are asked for, and
  nothing else changes. Instructions of at most 16 bytes are enough for x86.\<close>

locale text_patcher =
  fixes patch :: "u64 \<Rightarrow> u8 list \<Rightarrow> code \<Rightarrow> code"
  assumes patch_writes: "length bs \<le> 16 \<Longrightarrow> i < length bs \<Longrightarrow> patch a bs t (a + of_nat i) = bs ! i"
    and patch_frame: "length bs \<le> 16 \<Longrightarrow> (\<And>i. i < length bs \<Longrightarrow> x \<noteq> a + of_nat i) \<Longrightarrow> patch a bs t x = t x"
begin

lemma patch_call_bytes:
  fixes a stub t
  defines "t' \<equiv> patch a (call_instruction stub a) t"
  shows "t' a = 0xE8" and "rel32_at t' a = ucast (stub - a - 5)"
proof -
  let ?w = "ucast (stub - a - 5) :: u32"
  have bs: "call_instruction stub a = [0xE8, ucast ?w, ucast (drop_bit 8 ?w), ucast (drop_bit 16 ?w), ucast (drop_bit 24 ?w)]"
    by (simp add: call_instruction_def le32_def)
  note at = patch_writes [of "call_instruction stub a" _ a t, folded t'_def]
  show "t' a = 0xE8" using at [of 0] by (simp add: bs)
  have "t' (a + 1) = ucast ?w" "t' (a + 2) = ucast (drop_bit 8 ?w)" "t' (a + 3) = ucast (drop_bit 16 ?w)"
    "t' (a + 4) = ucast (drop_bit 24 ?w)"
    using at [of 1] at [of 2] at [of 3] at [of 4] by (simp_all add: bs)
  then show "rel32_at t' a = ?w"
    unfolding rel32_at_def by (simp only: le32_join)
qed

lemma patched_call:
  "near stub a \<Longrightarrow> decode_call (patch a (call_instruction stub a) t) a = Some stub"
  using scast_ucast_near [of "stub - a - 5"]
  by (simp add: decode_call_def patch_call_bytes near_def)

lemma patched_away: "patch a removal_bytes t a = 0x0f"
  using patch_writes [of removal_bytes 0 a t] by (simp add: removal_bytes_def)

lemma decode_call_frame:
  assumes "length bs = 5" and "\<And>i j. i < 5 \<Longrightarrow> j < 5 \<Longrightarrow> b + of_nat i \<noteq> a + of_nat j"
  shows "decode_call (patch a bs t) b = decode_call t b"
proof -
  have "patch a bs t (b + of_nat i) = t (b + of_nat i)" if "i < 5" for i
    using assms that by (intro patch_frame) auto
  from this [of 0] this [of 1] this [of 2] this [of 3] this [of 4] show ?thesis
    by (simp add: decode_call_def rel32_at_def)
qed

end

lemma memcpy_text_frame: "(\<And>i. i < length bs \<Longrightarrow> x \<noteq> a + of_nat i) \<Longrightarrow> memcpy_text a bs t x = t x"
proof (induction bs arbitrary: a t)
  case (Cons b bs)
  have "x \<noteq> a" using Cons.prems [of 0] by simp
  moreover have "x \<noteq> a + 1 + of_nat i" if "i < length bs" for i
    using Cons.prems [of "Suc i"] that by (simp add: add.assoc)
  ultimately show ?case using Cons.IH [of "a + 1"] by simp
qed simp

lemma of_nat_64_inj: "i < 2 ^ 64 \<Longrightarrow> j < 2 ^ 64 \<Longrightarrow> (of_nat i :: u64) = of_nat j \<Longrightarrow> i = j"
  by (metis unat_of_nat_64)

lemma memcpy_text_writes:
  "length bs \<le> 16 \<Longrightarrow> i < length bs \<Longrightarrow> memcpy_text a bs t (a + of_nat i) = bs ! i"
proof (induction bs arbitrary: a t i)
  case (Cons b bs)
  show ?case
  proof (cases i)
    case 0
    have "a \<noteq> a + 1 + of_nat j" if "j < length bs" for j
    proof
      assume "a = a + 1 + of_nat j"
      then have "(of_nat 0 :: u64) = of_nat (Suc j)" by (simp add: add.assoc)
      then show False using of_nat_64_inj [of 0 "Suc j"] that Cons.prems(1) by simp
    qed
    then show ?thesis using 0 memcpy_text_frame [of bs a "a + 1"] by simp
  next
    case (Suc k)
    then show ?thesis using Cons.IH [of k "a + 1"] Cons.prems by (simp add: add.assoc)
  qed
qed simp

interpretation memcpy_patcher: text_patcher memcpy_text
  by unfold_locales (simp_all add: memcpy_text_writes memcpy_text_frame)


section \<open>The invariant of the probes\<close>

text \<open>The kernel's side of a run: the entry point of each supported call has a fixed address, these
  five-byte sites do not overlap and are within reach of the trampoline; \<open>register_kprobe\<close> returns 0
  and that address, or a negative code; the patcher keeps its law.\<close>

definition sites_ok :: "nat \<Rightarrow> u64 \<Rightarrow> (nat \<Rightarrow> u64) \<Rightarrow> bool" where
  "sites_ok supported stub site \<longleftrightarrow>
     (\<forall>i < supported. site i \<noteq> 0 \<and> near stub (site i)) \<and>
     (\<forall>i < supported. \<forall>j < supported. i \<noteq> j \<longrightarrow>
        (\<forall>k < 5. \<forall>l < 5. site i + of_nat k \<noteq> site j + of_nat l))"

definition kernel_ok :: "nat \<Rightarrow> (nat \<Rightarrow> string option) \<Rightarrow> (nat \<Rightarrow> u64) \<Rightarrow> kernel_env \<Rightarrow> bool" where
  "kernel_ok supported symbols site env \<longleftrightarrow>
     text_patcher (poke env) \<and>
     (\<forall>i < supported. fst (kprobe env (symbols i)) \<le> 0 \<and>
        (fst (kprobe env (symbols i)) = 0 \<longrightarrow> snd (kprobe env (symbols i)) = site i))"

text \<open>A call is marked in the bitmap exactly if its entry point calls the trampoline.\<close>

definition probes_inv :: "nat \<Rightarrow> u64 \<Rightarrow> (nat \<Rightarrow> u64) \<Rightarrow> probes \<Rightarrow> bool" where
  "probes_inv supported stub site s \<longleftrightarrow>
     length (syscall_addresses s) = supported \<and> supported \<le> 8 * length (syscall_presence_bitmap s) \<and>
     (smp_text_poke_single_fn s \<noteq> 0 \<longrightarrow> kernel_text_mutex s \<noteq> 0) \<and>
     (\<forall>i < supported. syscall_addresses s ! i = 0 \<or> syscall_addresses s ! i = site i) \<and>
     (\<forall>i. probed s i \<longrightarrow> i < supported \<and> syscall_addresses s ! i \<noteq> 0) \<and>
     (\<forall>i < supported. probed s i \<longleftrightarrow> decode_call (text_bytes s) (site i) = Some stub)"

definition patchable :: "kernel_env \<Rightarrow> probes \<Rightarrow> bool" where
  "patchable env s \<longleftrightarrow> smp_text_poke_single_fn s \<noteq> 0 \<or>
     lookup_symbol env ''text_mutex'' \<noteq> 0 \<and> lookup_symbol env ''smp_text_poke_single'' \<noteq> 0"

lemma apply_smp_patch_cases:
  assumes "smp_text_poke_single_fn s \<noteq> 0 \<longrightarrow> kernel_text_mutex s \<noteq> 0"
  obtains (patched) m f where "patchable env s" "f \<noteq> 0" "m \<noteq> 0"
      "apply_smp_patch env a bs s = Some (1, s\<lparr>kernel_text_mutex := m, smp_text_poke_single_fn := f,
         text_bytes := poke env a bs (text_bytes s)\<rparr>)"
  | (unavailable) m where "\<not> patchable env s" "smp_text_poke_single_fn s = 0"
      "apply_smp_patch env a bs s = Some (- ENOENT, s\<lparr>kernel_text_mutex := m, smp_text_poke_single_fn := 0\<rparr>)"
proof (cases "smp_text_poke_single_fn s = 0")
  case False
  then have "apply_smp_patch env a bs s = Some (1, s\<lparr>kernel_text_mutex := kernel_text_mutex s,
      smp_text_poke_single_fn := smp_text_poke_single_fn s, text_bytes := poke env a bs (text_bytes s)\<rparr>)"
    using assms by (simp add: apply_smp_patch_def)
  then show thesis
    using that(1) [of "smp_text_poke_single_fn s" "kernel_text_mutex s"] False assms by (simp add: patchable_def)
next
  case True
  let ?m = "lookup_symbol env ''text_mutex''" and ?f = "lookup_symbol env ''smp_text_poke_single''"
  show thesis
  proof (cases "?m \<noteq> 0 \<and> ?f \<noteq> 0")
    case ok: True
    then have "apply_smp_patch env a bs s = Some (1, s\<lparr>kernel_text_mutex := ?m,
        smp_text_poke_single_fn := ?f, text_bytes := poke env a bs (text_bytes s)\<rparr>)"
      using True by (simp add: apply_smp_patch_def my_patch_init_def init_patch_locks_def Let_def)
    then show thesis using that(1) [of ?f ?m] ok by (simp add: patchable_def)
  next
    case no: False
    have "s\<lparr>kernel_text_mutex := m\<rparr> = s\<lparr>kernel_text_mutex := m, smp_text_poke_single_fn := 0\<rparr>" for m
      using True by simp
    then have "apply_smp_patch env a bs s = Some (- ENOENT, s\<lparr>kernel_text_mutex := ?m, smp_text_poke_single_fn := 0\<rparr>)"
      using True no by (auto simp: apply_smp_patch_def my_patch_init_def init_patch_locks_def Let_def)
    then show thesis using that(2) [of ?m] no True by (simp add: patchable_def)
  qed
qed


text \<open>The code that both operations return, but for the value of a failed registration.\<close>

definition probe_result :: "kernel_env \<Rightarrow> nat \<Rightarrow> (nat \<Rightarrow> string option) \<Rightarrow> bool \<Rightarrow> (int \<Rightarrow> int) \<Rightarrow> int \<Rightarrow> probes \<Rightarrow> int" where
  "probe_result env supported symbols want err syscall_id s =
     (let i = nat syscall_id; kp = fst (kprobe env (symbols i)) in
      if syscall_id < 0 \<or> int supported \<le> syscall_id then - EINVAL
      else if probed s i \<noteq> want then - EEXIST
      else if syscall_addresses s ! i = 0 \<and> kp \<noteq> 0 then err kp
      else if \<not> patchable env s then - ENOENT else 1)"

lemma probed_more [simp]:
  "probed (s\<lparr>syscall_addresses := x\<rparr>) = probed s" "probed (s\<lparr>kernel_text_mutex := m\<rparr>) = probed s"
  "probed (s\<lparr>smp_text_poke_single_fn := m\<rparr>) = probed s" "probed (s\<lparr>text_bytes := t\<rparr>) = probed s"
  by (simp_all add: probed_def fun_eq_iff)

lemma patchable_more [simp]: "patchable env (s\<lparr>syscall_addresses := x\<rparr>) = patchable env s"
  by (simp add: patchable_def)

lemma resolve_cases:
  assumes "probes_inv supported stub site s" and "kernel_ok supported symbols site env"
    and "sites_ok supported stub site" and "i < supported"
  obtains (failed) "syscall_addresses s ! i = 0" "fst (kprobe env (symbols i)) < 0"
      "resolve env symbols i s = Some (Inl (fst (kprobe env (symbols i))))"
  | (found) x where "syscall_addresses s ! i \<noteq> 0 \<or> fst (kprobe env (symbols i)) = 0"
      "resolve env symbols i s = Some (Inr (site i, s\<lparr>syscall_addresses := x\<rparr>))"
      "probes_inv supported stub site (s\<lparr>syscall_addresses := x\<rparr>)" "x ! i \<noteq> 0"
proof -
  have addr: "syscall_addresses s ! i = 0 \<or> syscall_addresses s ! i = site i" "i < length (syscall_addresses s)"
    and site: "site i \<noteq> 0"
    using assms(1,3,4) by (auto simp: probes_inv_def sites_ok_def)
  have kp: "fst (kprobe env (symbols i)) \<le> 0" "fst (kprobe env (symbols i)) = 0 \<longrightarrow> snd (kprobe env (symbols i)) = site i"
    using assms(2,4) by (auto simp: kernel_ok_def)
  show thesis
  proof (cases "syscall_addresses s ! i = 0")
    case False
    then have "resolve env symbols i s = Some (Inr (site i, s\<lparr>syscall_addresses := syscall_addresses s\<rparr>))"
      using addr by (auto simp: resolve_def cached_address_def)
    then show thesis using found [of "syscall_addresses s"] False assms(1) by simp
  next
    case True
    show thesis
    proof (cases "fst (kprobe env (symbols i)) = 0")
      case ok: True
      let ?x = "(syscall_addresses s)[i := site i]"
      have "resolve env symbols i s = Some (Inr (site i, s\<lparr>syscall_addresses := ?x\<rparr>))"
        using True ok kp addr by (simp add: resolve_def cached_address_def split_beta)
      moreover have "probes_inv supported stub site (s\<lparr>syscall_addresses := ?x\<rparr>)"
        using assms(1) site nth_list_update [OF addr(2)] by (simp add: probes_inv_def)
      ultimately show thesis using found [of ?x] ok site addr(2) by simp
    next
      case no: False
      then show thesis
        using failed True kp addr by (simp add: resolve_def cached_address_def split_beta)
    qed
  qed
qed

lemma site_decode_frame:
  assumes "kernel_ok supported symbols site env" and "sites_ok supported stub site"
    and "i < supported" and "j < supported" and "j \<noteq> i" and "length bs = 5"
  shows "decode_call (poke env (site i) bs t) (site j) = decode_call t (site j)"
  using assms by (intro text_patcher.decode_call_frame) (simp_all add: kernel_ok_def sites_ok_def)

lemma probes_inv_patch:
  assumes "probes_inv supported stub site s" and "kernel_ok supported symbols site env"
    and "sites_ok supported stub site" and "i < supported" and "length bs = 5" and "f \<noteq> 0" and "m \<noteq> 0"
    and "decode_call (poke env (site i) bs (text_bytes s)) (site i) = Some stub \<longleftrightarrow> on"
    and "length bm = length (syscall_presence_bitmap s)"
    and "\<forall>j. probed (s\<lparr>syscall_presence_bitmap := bm\<rparr>) j \<longleftrightarrow> (if j = i then on else probed s j)"
    and "syscall_addresses s ! i \<noteq> 0"
  shows "probes_inv supported stub site (s\<lparr>kernel_text_mutex := m, smp_text_poke_single_fn := f,
    text_bytes := poke env (site i) bs (text_bytes s), syscall_presence_bitmap := bm\<rparr>)" (is "probes_inv _ _ _ ?s")
proof -
  have probed: "probed ?s j \<longleftrightarrow> (if j = i then on else probed s j)" for j
    using assms(10) by (simp add: probed_def)
  have "\<forall>j < supported. probed ?s j \<longleftrightarrow> decode_call (text_bytes ?s) (site j) = Some stub"
    using assms(1,8) site_decode_frame [OF assms(2-4) _ _ assms(5)] unfolding probed
    by (auto simp: probes_inv_def)
  moreover have "\<forall>j. probed ?s j \<longrightarrow> j < supported \<and> syscall_addresses ?s ! j \<noteq> 0"
    using assms(1,4,11) unfolding probed by (auto simp: probes_inv_def)
  moreover have "length (syscall_addresses ?s) = supported" "supported \<le> 8 * length (syscall_presence_bitmap ?s)"
    "smp_text_poke_single_fn ?s \<noteq> 0 \<longrightarrow> kernel_text_mutex ?s \<noteq> 0"
    "\<forall>i < supported. syscall_addresses ?s ! i = 0 \<or> syscall_addresses ?s ! i = site i"
    using assms(1,6,7,9) by (simp_all add: probes_inv_def)
  ultimately show ?thesis unfolding probes_inv_def by blast
qed


definition monitored :: "probes \<Rightarrow> nat set" where
  "monitored s = {i. probed s i}"

text \<open>The part the two operations share: resolve the address, patch it, and update the bitmap.\<close>

lemma patch_and_mark:
  fixes err :: "int \<Rightarrow> int"
  assumes "probes_inv supported stub site s" and "kernel_ok supported symbols site env" and "sites_ok supported stub site"
    and "i < supported" and "length (bs (site i)) = 5"
    and "\<And>t. decode_call (poke env (site i) (bs (site i)) t) (site i) = Some stub \<longleftrightarrow> on"
    and "\<And>s. i < 8 * length (syscall_presence_bitmap s) \<Longrightarrow>
      \<exists>bm. mark i s = Some (s\<lparr>syscall_presence_bitmap := bm\<rparr>) \<and> length bm = length (syscall_presence_bitmap s) \<and>
        (\<forall>j. probed (s\<lparr>syscall_presence_bitmap := bm\<rparr>) j \<longleftrightarrow> (if j = i then on else probed s j))"
  defines "r \<equiv> (if syscall_addresses s ! i = 0 \<and> fst (kprobe env (symbols i)) \<noteq> 0 then err (fst (kprobe env (symbols i)))
      else if \<not> patchable env s then - ENOENT else 1)"
  shows "\<exists>s'. do {
      q \<leftarrow> resolve env symbols i s;
      case q of
        Inl result \<Rightarrow> Some (err result, s)
      | Inr (addr_sys, s) \<Rightarrow> do {
          (result, s) \<leftarrow> apply_smp_patch env addr_sys (bs addr_sys) s;
          if result < 0 then Some (result, s) else do { s \<leftarrow> mark i s; Some (1, s) } } } = Some (r, s') \<and>
    probes_inv supported stub site s' \<and> (patchable env s \<longrightarrow> patchable env s') \<and>
    length (syscall_presence_bitmap s') = length (syscall_presence_bitmap s) \<and>
    (if (syscall_addresses s ! i = 0 \<longrightarrow> fst (kprobe env (symbols i)) = 0) \<and> patchable env s
     then (\<forall>j. probed s' j \<longleftrightarrow> (if j = i then on else probed s j)) \<and>
       text_bytes s' = poke env (site i) (bs (site i)) (text_bytes s)
     else monitored s' = monitored s \<and> text_bytes s' = text_bytes s)"
  using assms(1,2,3,4)
proof (cases rule: resolve_cases)
  case failed
  then show ?thesis using assms(1) by (simp add: r_def)
next
  case (found x)
  let ?s = "s\<lparr>syscall_addresses := x\<rparr>" and ?bs = "bs (site i)"
  have "smp_text_poke_single_fn ?s \<noteq> 0 \<longrightarrow> kernel_text_mutex ?s \<noteq> 0"
    using assms(1) by (simp add: probes_inv_def)
  then show ?thesis
  proof (cases rule: apply_smp_patch_cases [of _ env "site i" ?bs])
    case (unavailable m)
    moreover have "probes_inv supported stub site (?s\<lparr>kernel_text_mutex := m, smp_text_poke_single_fn := 0\<rparr>)"
      using found(3) by (simp add: probes_inv_def)
    ultimately show ?thesis
      using found by (auto simp: r_def monitored_def)
  next
    case (patched m f)
    let ?p = "?s\<lparr>kernel_text_mutex := m, smp_text_poke_single_fn := f, text_bytes := poke env (site i) ?bs (text_bytes ?s)\<rparr>"
    have "i < 8 * length (syscall_presence_bitmap ?p)" using assms(1,4) by (simp add: probes_inv_def)
    then obtain bm where bm: "mark i ?p = Some (?p\<lparr>syscall_presence_bitmap := bm\<rparr>)"
      "length bm = length (syscall_presence_bitmap ?s)"
      "\<forall>j. probed (?p\<lparr>syscall_presence_bitmap := bm\<rparr>) j \<longleftrightarrow> (if j = i then on else probed s j)"
      using assms(7) [of ?p] by auto
    have bm3: "\<forall>j. probed (?s\<lparr>syscall_presence_bitmap := bm\<rparr>) j \<longleftrightarrow> (if j = i then on else probed ?s j)"
      using bm(3) by (simp add: probed_def)
    have "probes_inv supported stub site (?p\<lparr>syscall_presence_bitmap := bm\<rparr>)"
      by (rule probes_inv_patch [OF found(3) assms(2-5) patched(2,3) assms(6) bm(2) bm3])
        (simp add: found(4))
    then show ?thesis
      using found patched bm by (auto simp: r_def patchable_def)
  qed
qed

lemma installProbe_effect:
  fixes syscall_id :: int
  assumes "probes_inv supported stub site s" and "kernel_ok supported symbols site env" and "sites_ok supported stub site"
  defines "r \<equiv> probe_result env supported symbols False (\<lambda>e. e) syscall_id s"
  shows "\<exists>s'. installProbe env supported symbols stub syscall_id s = Some (r, s') \<and> probes_inv supported stub site s' \<and>
    (patchable env s \<longrightarrow> patchable env s') \<and>
    length (syscall_presence_bitmap s') = length (syscall_presence_bitmap s) \<and>
    (if r = 1 then monitored s' = insert (nat syscall_id) (monitored s) \<and>
       text_bytes s' = poke env (site (nat syscall_id)) (call_instruction stub (site (nat syscall_id))) (text_bytes s)
     else monitored s' = monitored s \<and> text_bytes s' = text_bytes s)"
proof (cases "syscall_id < 0 \<or> int supported \<le> syscall_id \<or> probed s (nat syscall_id)")
  case True
  then show ?thesis
    using assms(1) bit_set_probed [of "nat syscall_id" s]
    by (auto simp: installProbe_def probe_result_def r_def probes_inv_def)
next
  case False
  define i where "i = nat syscall_id"
  have i: "i < supported" "syscall_id = int i" and fresh: "\<not> probed s i" using False by (auto simp: i_def)
  have present: "bit_set (syscall_presence_bitmap s) i = Some False"
    using bit_set_probed [of i s] assms(1) i fresh by (simp add: probes_inv_def)
  have kp: "fst (kprobe env (symbols i)) \<le> 0" using assms(2) i by (simp add: kernel_ok_def)
  have len: "length (call_instruction stub (site i)) = 5" by (simp add: call_instruction_def le32_def)
  have dec: "decode_call (poke env (site i) (call_instruction stub (site i)) t) (site i) = Some stub \<longleftrightarrow> True" for t
    using assms(2,3) i by (simp add: kernel_ok_def sites_ok_def text_patcher.patched_call)
  have mark: "\<exists>bm. set_presence i s = Some (s\<lparr>syscall_presence_bitmap := bm\<rparr>) \<and>
      length bm = length (syscall_presence_bitmap s) \<and>
      (\<forall>j. probed (s\<lparr>syscall_presence_bitmap := bm\<rparr>) j \<longleftrightarrow> (if j = i then True else probed s j))"
    if "i < 8 * length (syscall_presence_bitmap s)" for s
    using set_presence_probed [OF that] by auto
  show ?thesis
    using patch_and_mark [where bs = "call_instruction stub" and err = "\<lambda>e. e" and mark = set_presence and on = True and i = i, OF assms(1-3) i(1) len dec mark]
      i fresh present kp unfolding installProbe_def probe_result_def r_def
    by (auto simp: monitored_def Let_def split: if_splits)
qed

lemma removeProbe_effect:
  fixes syscall_id :: int
  assumes "probes_inv supported stub site s" and "kernel_ok supported symbols site env" and "sites_ok supported stub site"
  defines "r \<equiv> probe_result env supported symbols True (\<lambda>_. - 1) syscall_id s"
  shows "\<exists>s'. removeProbe env supported symbols syscall_id s = Some (r, s') \<and> probes_inv supported stub site s' \<and>
    (patchable env s \<longrightarrow> patchable env s') \<and>
    length (syscall_presence_bitmap s') = length (syscall_presence_bitmap s) \<and>
    (if r = 1 then monitored s' = monitored s - {nat syscall_id} \<and>
       text_bytes s' = poke env (site (nat syscall_id)) removal_bytes (text_bytes s)
     else monitored s' = monitored s \<and> text_bytes s' = text_bytes s)"
proof (cases "syscall_id < 0 \<or> int supported \<le> syscall_id \<or> \<not> probed s (nat syscall_id)")
  case True
  then show ?thesis
    using assms(1) bit_set_probed [of "nat syscall_id" s]
    by (auto simp: removeProbe_def probe_result_def r_def probes_inv_def)
next
  case False
  define i where "i = nat syscall_id"
  have i: "i < supported" "syscall_id = int i" and on: "probed s i" using False by (auto simp: i_def)
  have "i < 8 * length (syscall_presence_bitmap s)" using assms(1) i(1) by (simp add: probes_inv_def)
  then have present: "bit_set (syscall_presence_bitmap s) i = Some True"
    using bit_set_probed [of i s] on by simp
  have len: "length removal_bytes = 5" by (simp add: removal_bytes_def)
  have dec: "decode_call (poke env (site i) removal_bytes t) (site i) = Some stub \<longleftrightarrow> False" for t
    using assms(2) by (simp add: kernel_ok_def text_patcher.patched_away decode_call_def)
  have mark: "\<exists>bm. clear_presence i s = Some (s\<lparr>syscall_presence_bitmap := bm\<rparr>) \<and>
      length bm = length (syscall_presence_bitmap s) \<and>
      (\<forall>j. probed (s\<lparr>syscall_presence_bitmap := bm\<rparr>) j \<longleftrightarrow> (if j = i then False else probed s j))"
    if "i < 8 * length (syscall_presence_bitmap s)" for s
    using clear_presence_probed [OF that] by auto
  show ?thesis
    using patch_and_mark [where bs = "\<lambda>_. removal_bytes" and err = "\<lambda>_. - 1" and mark = clear_presence and on = False and i = i, OF assms(1-3) i(1) len dec mark]
      i on present unfolding removeProbe_def probe_result_def r_def
    by (auto simp: monitored_def Let_def split: if_splits)
qed


section \<open>The clean-up loop\<close>

lemma remove_present:
  assumes "probes_inv supported stub site s" and "kernel_ok supported symbols site env"
    and "sites_ok supported stub site" and "patchable env s" and "probed s i"
  shows "\<exists>s'. removeProbe env supported symbols (int i) s = Some (1, s') \<and> probes_inv supported stub site s' \<and>
    patchable env s' \<and> length (syscall_presence_bitmap s') = length (syscall_presence_bitmap s) \<and>
    monitored s' = monitored s - {i} \<and> text_bytes s' = poke env (site i) removal_bytes (text_bytes s)"
proof -
  have "i < supported" "syscall_addresses s ! i \<noteq> 0"
    using assms(1,5) by (auto simp: probes_inv_def)
  then have "probe_result env supported symbols True (\<lambda>_. - 1) (int i) s = 1"
    using assms(4,5) by (simp add: probe_result_def)
  then show ?thesis
    using removeProbe_effect [OF assms(1-3), of "int i"] assms(4) by auto
qed

lemma cleanup_bits_effect:
  assumes "kernel_ok supported symbols site env" and "sites_ok supported stub site"
    and "probes_inv supported stub site s" and "patchable env s"
    and "\<forall>j \<in> set js. i * 8 + j < 8 * length (syscall_presence_bitmap s)"
  shows "\<exists>s'. cleanup_bits env supported symbols i js s = Some s' \<and> probes_inv supported stub site s' \<and>
    patchable env s' \<and> length (syscall_presence_bitmap s') = length (syscall_presence_bitmap s) \<and>
    monitored s' = monitored s - (\<lambda>j. i * 8 + j) ` set js"
  using assms(3-)
proof (induction js arbitrary: s)
  case Nil
  then show ?case by simp
next
  case (Cons j js)
  have bit: "bit_set (syscall_presence_bitmap s) (i * 8 + j) = Some (probed s (i * 8 + j))"
    using Cons.prems(3) by (intro bit_set_probed) simp
  show ?case
  proof (cases "probed s (i * 8 + j)")
    case True
    then obtain s' where s': "removeProbe env supported symbols (int (i * 8 + j)) s = Some (1, s')"
      "probes_inv supported stub site s'" "patchable env s'"
      "length (syscall_presence_bitmap s') = length (syscall_presence_bitmap s)"
      "monitored s' = monitored s - {i * 8 + j}"
      using remove_present [OF Cons.prems(1) assms(1,2) Cons.prems(2)] by blast
    have "cleanup_bits env supported symbols i (j # js) s = cleanup_bits env supported symbols i js s'"
      using bit True s'(1) by simp
    then show ?thesis
      using Cons.IH [OF s'(2,3)] Cons.prems(3) s'(4,5) by auto
  next
    case False
    then have "monitored s - (\<lambda>j. i * 8 + j) ` set (j # js) = monitored s - (\<lambda>j. i * 8 + j) ` set js"
      by (auto simp: monitored_def)
    then show ?thesis using Cons.IH [OF Cons.prems(1,2)] Cons.prems(3) bit False by simp
  qed
qed

lemma byte_zero_no_bits:
  assumes "i < length (syscall_presence_bitmap s)" and "syscall_presence_bitmap s ! i = 0"
  shows "monitored s \<inter> {k. k div 8 = i} = {}"
  using assms by (auto simp: monitored_def probed_def)

lemma cleanup_bytes_effect:
  assumes "kernel_ok supported symbols site env" and "sites_ok supported stub site"
    and "probes_inv supported stub site s" and "patchable env s"
    and "\<forall>i \<in> set js. i < length (syscall_presence_bitmap s)"
  shows "\<exists>s'. cleanup_bytes env supported symbols js s = Some s' \<and> probes_inv supported stub site s' \<and>
    length (syscall_presence_bitmap s') = length (syscall_presence_bitmap s) \<and>
    monitored s' = monitored s - {k. k div 8 \<in> set js}"
  using assms(3-)
proof (induction js arbitrary: s)
  case Nil
  then show ?case by simp
next
  case (Cons i js)
  have i: "i < length (syscall_presence_bitmap s)" using Cons.prems(3) by simp
  show ?case
  proof (cases "syscall_presence_bitmap s ! i = 0")
    case True
    then have "monitored s - {k. k div 8 \<in> set (i # js)} = monitored s - {k. k div 8 \<in> set js}"
      using byte_zero_no_bits [OF i] by auto
    then show ?thesis using Cons.IH [OF Cons.prems(1,2)] Cons.prems(3) i True by simp
  next
    case False
    obtain s' where s': "cleanup_bits env supported symbols i [0..<8] s = Some s'"
      "probes_inv supported stub site s'" "patchable env s'"
      "length (syscall_presence_bitmap s') = length (syscall_presence_bitmap s)"
      "monitored s' = monitored s - (\<lambda>j. i * 8 + j) ` set [0..<8]"
      using cleanup_bits_effect [OF assms(1,2) Cons.prems(1,2), of "[0..<8]" i] i by auto
    have "(\<lambda>j. i * 8 + j) ` set [0..<8] = {k. k div 8 = i}"
    proof (intro equalityI subsetI)
      fix k assume "k \<in> {k. k div 8 = i}"
      then have "k = i * 8 + k mod 8" "k mod 8 < 8" by auto
      then show "k \<in> (\<lambda>j. i * 8 + j) ` set [0..<8]" by (auto intro: image_eqI)
    qed auto
    then have "monitored s' - {k. k div 8 \<in> set js} = monitored s - {k. k div 8 \<in> set (i # js)}"
      using s'(5) by auto
    then show ?thesis
      using Cons.IH [OF s'(2,3)] Cons.prems(3) s'(1,4) i False by simp
  qed
qed

section \<open>Properties\<close>

lemma offset_ne:
  assumes "unat (a :: u64) + 5 \<le> unat b" and "unat b + 5 \<le> 2 ^ 64" and "k < 5" and "l < 5"
  shows "a + of_nat k \<noteq> b + of_nat l"
proof -
  have "unat (a + of_nat k) = unat a + k" "unat (b + of_nat l) = unat b + l"
    using assms by (simp_all add: unat_word_ariths unsigned_of_nat take_bit_nat_eq_self)
  then show ?thesis
  proof (intro notI)
    assume "a + of_nat k = b + of_nat l"
    with \<open>unat (a + of_nat k) = unat a + k\<close> \<open>unat (b + of_nat l) = unat b + l\<close>
    have "unat a + k = unat b + l" by simp
    then show False using assms by linarith
  qed
qed

text \<open>A kernel with two supported calls, and the state before any registration.\<close>

definition two_sites :: "nat \<Rightarrow> u64" where
  "two_sites i = (if i = 0 then 0xffffffff81000000 else 0xffffffff81000040)"

definition trampoline_addr :: u64 where
  "trampoline_addr = 0xffffffffc0000000"

definition two_symbols :: "nat \<Rightarrow> string option" where
  "two_symbols i = (if i = 0 then Some ''__x64_sys_read'' else if i = 1 then Some ''__x64_sys_write'' else None)"

definition sample_kernel :: kernel_env where
  "sample_kernel = \<lparr>kprobe = (\<lambda>sym. (0, if sym = Some ''__x64_sys_read'' then two_sites 0 else two_sites 1)),
     kallsyms = (\<lambda>_. 0xffffffff82000000), poke = memcpy_text\<rparr>"

definition no_probes :: probes where
  "no_probes = \<lparr>kernel_text_mutex = 0, smp_text_poke_single_fn = 0, syscall_presence_bitmap = [0],
     syscall_addresses = [0, 0], text_bytes = (\<lambda>_. 0x90)\<rparr>"

lemma two_sites_ok: "sites_ok 2 trampoline_addr two_sites"
proof -
  have "near trampoline_addr (two_sites i)" if "i < 2" for i
    using that by (auto simp: near_def trampoline_addr_def two_sites_def)
  moreover have "two_sites i + of_nat k \<noteq> two_sites j + of_nat l"
    if "i < 2" "j < 2" "i \<noteq> j" "k < 5" "l < 5" for i j k l :: nat
    using that offset_ne [of "two_sites 0" "two_sites 1" k l] offset_ne [of "two_sites 0" "two_sites 1" l k]
    by (auto simp: less_2_cases_iff two_sites_def)
  ultimately show ?thesis by (auto simp: sites_ok_def two_sites_def)
qed

lemma sample_kernel_ok: "kernel_ok 2 two_symbols two_sites sample_kernel"
  by (auto simp: kernel_ok_def sample_kernel_def two_symbols_def less_2_cases_iff
      memcpy_patcher.text_patcher_axioms)

lemma no_probes_inv: "probes_inv 2 trampoline_addr two_sites no_probes"
  by (auto simp: probes_inv_def no_probes_def probed_def decode_call_def less_2_cases_iff nth_Cons')

lemma monitored_no_probes: "monitored no_probes = {}"
  by (simp add: monitored_def probed_def no_probes_def nth_Cons')

lemma sample_installed:
  "\<exists>s. installProbe sample_kernel 2 two_symbols trampoline_addr 1 no_probes = Some (1, s) \<and>
     probes_inv 2 trampoline_addr two_sites s \<and> monitored s = {1}"
proof -
  have r: "probe_result sample_kernel 2 two_symbols False (\<lambda>e. e) 1 no_probes = 1"
    by (simp add: probe_result_def sample_kernel_def no_probes_def probed_def patchable_def lookup_symbol_def)
  from installProbe_effect [OF no_probes_inv sample_kernel_ok two_sites_ok, of 1]
  show ?thesis
    unfolding r monitored_no_probes by (elim exE conjE, intro exI conjI) auto
qed

lemma sample_patchable: "patchable sample_kernel s"
  by (simp add: patchable_def lookup_symbol_def sample_kernel_def)

text \<open>C20: Registering a system call. On every branch \<open>installProbe\<close> returns the code the source documents
  (invalid number, already probed, the error of \<open>register_kprobe\<close>, patcher not resolved, 1) without a
  fault. When it returns 1 exactly this call has become monitored; otherwise the kernel text is
  unchanged. Afterwards, as before, the entry points that call the trampoline are exactly those of
  the monitored calls.\<close>

theorem installProbe_arms:
  assumes "probes_inv supported stub site s" and "kernel_ok supported symbols site env" and "sites_ok supported stub site"
  shows "\<exists>r s'. installProbe env supported symbols stub syscall_id s = Some (r, s') \<and> probes_inv supported stub site s' \<and>
    r = probe_result env supported symbols False (\<lambda>e. e) syscall_id s \<and>
    (if r = 1 then monitored s' = insert (nat syscall_id) (monitored s) \<and>
       text_bytes s' = poke env (site (nat syscall_id)) (call_instruction stub (site (nat syscall_id))) (text_bytes s)
     else monitored s' = monitored s \<and> text_bytes s' = text_bytes s) \<and>
    (\<forall>i < supported. decode_call (text_bytes s') (site i) = Some stub \<longleftrightarrow> i \<in> monitored s')"
proof -
  obtain s' where s': "installProbe env supported symbols stub syscall_id s =
      Some (probe_result env supported symbols False (\<lambda>e. e) syscall_id s, s')" "probes_inv supported stub site s'"
    "if probe_result env supported symbols False (\<lambda>e. e) syscall_id s = 1 then monitored s' = insert (nat syscall_id) (monitored s) \<and>
       text_bytes s' = poke env (site (nat syscall_id)) (call_instruction stub (site (nat syscall_id))) (text_bytes s)
     else monitored s' = monitored s \<and> text_bytes s' = text_bytes s"
    using installProbe_effect [OF assms, of syscall_id] by blast
  moreover have "\<forall>i < supported. decode_call (text_bytes s') (site i) = Some stub \<longleftrightarrow> i \<in> monitored s'"
    using s'(2) by (simp add: probes_inv_def monitored_def)
  ultimately show ?thesis by blast
qed

theorem installProbe_arms_witness:
  "\<exists>s'. installProbe sample_kernel 2 two_symbols trampoline_addr 1 no_probes = Some (1, s') \<and> monitored s' = {1} \<and>
     decode_call (text_bytes s') (two_sites 1) = Some trampoline_addr"
proof -
  have r: "probe_result sample_kernel 2 two_symbols False (\<lambda>e. e) 1 no_probes = 1"
    by (simp add: probe_result_def sample_kernel_def no_probes_def probed_def patchable_def lookup_symbol_def)
  show ?thesis
    using installProbe_arms [OF no_probes_inv sample_kernel_ok two_sites_ok, of 1] r by (auto simp: monitored_no_probes)
qed

text \<open>Deregistering a system call, with the same guarantees: when \<open>removeProbe\<close> returns 1 exactly this
  call is no longer monitored and its entry point no longer calls the trampoline.\<close>

lemma removeProbe_disarms:
  assumes "probes_inv supported stub site s" and "kernel_ok supported symbols site env" and "sites_ok supported stub site"
  shows "\<exists>r s'. removeProbe env supported symbols syscall_id s = Some (r, s') \<and> probes_inv supported stub site s' \<and>
    r = probe_result env supported symbols True (\<lambda>_. - 1) syscall_id s \<and>
    (if r = 1 then monitored s' = monitored s - {nat syscall_id} \<and>
       text_bytes s' = poke env (site (nat syscall_id)) removal_bytes (text_bytes s)
     else monitored s' = monitored s \<and> text_bytes s' = text_bytes s) \<and>
    (\<forall>i < supported. decode_call (text_bytes s') (site i) = Some stub \<longleftrightarrow> i \<in> monitored s')"
proof -
  obtain s' where s': "removeProbe env supported symbols syscall_id s =
      Some (probe_result env supported symbols True (\<lambda>_. - 1) syscall_id s, s')" "probes_inv supported stub site s'"
    "if probe_result env supported symbols True (\<lambda>_. - 1) syscall_id s = 1 then monitored s' = monitored s - {nat syscall_id} \<and>
       text_bytes s' = poke env (site (nat syscall_id)) removal_bytes (text_bytes s)
     else monitored s' = monitored s \<and> text_bytes s' = text_bytes s"
    using removeProbe_effect [OF assms, of syscall_id] by blast
  moreover have "\<forall>i < supported. decode_call (text_bytes s') (site i) = Some stub \<longleftrightarrow> i \<in> monitored s'"
    using s'(2) by (simp add: probes_inv_def monitored_def)
  ultimately show ?thesis by blast
qed

text \<open>Module unload. When the patcher is resolved (it is, once a probe has been installed) the loop of
  \<open>sysThrot_cleanup\<close> leaves no monitored call, and no entry point that calls the trampoline.\<close>

lemma cleanup_removes_all_probes:
  assumes "probes_inv supported stub site s" and "kernel_ok supported symbols site env" and "sites_ok supported stub site"
    and "patchable env s"
  shows "\<exists>s'. cleanup_probes env supported symbols s = Some s' \<and> monitored s' = {} \<and>
    (\<forall>i < supported. decode_call (text_bytes s') (site i) \<noteq> Some stub)"
proof -
  obtain s' where s': "cleanup_probes env supported symbols s = Some s'" "probes_inv supported stub site s'"
    "monitored s' = monitored s - {k. k div 8 < length (syscall_presence_bitmap s)}"
    using cleanup_bytes_effect [OF assms(2,3,1,4), of "[0..<length (syscall_presence_bitmap s)]"]
    by (auto simp: cleanup_probes_def)
  moreover have "monitored s \<subseteq> {k. k div 8 < length (syscall_presence_bitmap s)}"
    by (auto simp: monitored_def probed_def)
  ultimately have "monitored s' = {}" by blast
  then show ?thesis
    using s'(1,2) by (auto simp: probes_inv_def monitored_def)
qed

definition instruction_at :: "code \<Rightarrow> u64 \<Rightarrow> u8 list" where
  "instruction_at t a = map (\<lambda>k. t (a + of_nat k)) [0..<5]"

text \<open>The five-byte NOP that the kernel places at traceable function entries.\<close>

definition nop5 :: "u8 list" where
  "nop5 = [0x0f, 0x1f, 0x44, 0x00, 0x00]"

text \<open>C21: The bytes that a successful \<open>removeProbe\<close> leaves at the entry point are 0F 00 44 00 00: the
  second byte of the five-byte NOP is never set, so the NOP is not what is put back, even where it was
  there before the registration.\<close>

theorem removeProbe_does_not_restore_nop:
  assumes "probes_inv supported stub site s" and "kernel_ok supported symbols site env" and "sites_ok supported stub site"
    and "patchable env s" and "i \<in> monitored s"
  shows "\<exists>s'. removeProbe env supported symbols (int i) s = Some (1, s') \<and>
    instruction_at (text_bytes s') (site i) = removal_bytes \<and> instruction_at (text_bytes s') (site i) \<noteq> nop5"
proof -
  have patcher: "text_patcher (poke env)" using assms(2) by (simp add: kernel_ok_def)
  have "instruction_at (poke env (site i) removal_bytes t) (site i) = removal_bytes" for t
    using text_patcher.patch_writes [OF patcher, of removal_bytes]
    by (intro nth_equalityI) (simp_all add: instruction_at_def removal_bytes_def)
  moreover have "removal_bytes \<noteq> nop5" by (simp add: removal_bytes_def nop5_def)
  ultimately show ?thesis
    using remove_present [OF assms(1-4), of i] assms(5) by (auto simp: monitored_def)
qed

theorem removeProbe_does_not_restore_nop_witness:
  "\<exists>s s'. installProbe sample_kernel 2 two_symbols trampoline_addr 1 no_probes = Some (1, s) \<and>
     removeProbe sample_kernel 2 two_symbols 1 s = Some (1, s') \<and>
     instruction_at (text_bytes s') (two_sites 1) = [0x0f, 0x00, 0x44, 0x00, 0x00]"
proof -
  obtain s where s: "installProbe sample_kernel 2 two_symbols trampoline_addr 1 no_probes = Some (1, s)"
    "probes_inv 2 trampoline_addr two_sites s" "1 \<in> monitored s"
    using sample_installed by blast
  show ?thesis
    using removeProbe_does_not_restore_nop [OF s(2) sample_kernel_ok two_sites_ok sample_patchable s(3)] s(1)
    unfolding removal_bytes_def by auto
qed


text \<open>The variant of the patcher that is compiled with \<open>USE_TEXT_POKE_SINGLE\<close> 0 writes the bytes and
  restores CR4 and the preemption count, but \<open>protect_memory\<close> writes back the value of CR0 that it has just
  read: the write protection that \<open>unprotect_memory\<close> removed is never restored, and every other bit of
  CR0 is kept.\<close>

lemma mmap_patch_leaves_write_protection_off:
  "\<exists>c' t'. apply_mmap_patch cet target insn c t = Some (1, c', t') \<and> t' = memcpy_text target insn t \<and>
    cr0 c' = cr0 c AND NOT 0x10000 \<and> cr0 c' AND 0x10000 = 0 \<and> cr4 c' = cr4 c \<and> preempt_count c' = preempt_count c"
proof -
  have "(cr0 c AND NOT 0x10000) AND 0x10000 = (0 :: u64)"
    by (rule bit_word_eqI) (simp add: bit_simps)
  then show ?thesis
    by (simp add: apply_mmap_patch_def being_sys_call_hacking_def end_sys_call_hacking_def
        conditional_cet_disable_def conditional_cet_enable_def write_cr4_forced_def write_cr0_forced_def
        protect_memory_def unprotect_memory_def Let_def)
qed

end
