(* ===== verification/Trampoline.thy ===== *)
theory Trampoline
  imports Probe
begin

text \<open>
  The assembly routine that a patched entry point calls (\<open>sysThrot.c\<close>, lines 328-364), on a small machine: the
  general registers, the stack as a list of quadwords with its top first, the zero flag and the
  counter \<open>sysThrot_stub_counter\<close>. The call of \<open>stub\<close> is a parameter, a function on the registers; what the
  routine relies on is the calling convention, that the callee-saved registers and the stack come back unchanged.
  Popping from an empty stack is a fault.
\<close>

section \<open>The machine\<close>

datatype reg = RAX | RBX | RCX | RDX | RSI | RDI | RBP | R8 | R9 | R10 | R11 | R12 | R13 | R14 | R15

type_synonym regs = "reg \<Rightarrow> u64"

datatype instr =
    LockIncl
  | LockDecl
  | Pushq reg
  | Popq reg
  | CallStub
  | Movq reg reg
  | Testq reg reg
  | Jz nat
  | AddqRsp8
  | Ret

record machine =
  ip :: nat
  regs :: regs
  rstack :: "u64 list"
  zf :: bool
  stub_counter :: u32

datatype progress = Running machine | Returned u64 machine | Crashed

text \<open>\<open>Movq s d\<close> has its operands in the order of the source; a jump leads to the instruction with the given index.\<close>

definition next_ip :: "machine \<Rightarrow> machine" where
  "next_ip m = m\<lparr>ip := ip m + 1\<rparr>"

fun exec_instr :: "(regs \<Rightarrow> regs) \<Rightarrow> instr \<Rightarrow> machine \<Rightarrow> progress" where
  "exec_instr stub LockIncl m = Running (next_ip (m\<lparr>stub_counter := stub_counter m + 1\<rparr>))"
| "exec_instr stub LockDecl m = Running (next_ip (m\<lparr>stub_counter := stub_counter m - 1\<rparr>))"
| "exec_instr stub (Pushq r) m = Running (next_ip (m\<lparr>rstack := regs m r # rstack m\<rparr>))"
| "exec_instr stub (Popq r) m =
     (case rstack m of [] \<Rightarrow> Crashed | v # vs \<Rightarrow> Running (next_ip (m\<lparr>regs := (regs m)(r := v), rstack := vs\<rparr>)))"
| "exec_instr stub CallStub m = Running (next_ip (m\<lparr>regs := stub (regs m)\<rparr>))"
| "exec_instr stub (Movq s d) m = Running (next_ip (m\<lparr>regs := (regs m)(d := regs m s)\<rparr>))"
| "exec_instr stub (Testq a b) m = Running (next_ip (m\<lparr>zf := (regs m a AND regs m b = 0)\<rparr>))"
| "exec_instr stub (Jz l) m = Running (if zf m then m\<lparr>ip := l\<rparr> else next_ip m)"
| "exec_instr stub AddqRsp8 m =
     (case rstack m of [] \<Rightarrow> Crashed | v # vs \<Rightarrow> Running (next_ip (m\<lparr>rstack := vs\<rparr>)))"
| "exec_instr stub Ret m =
     (case rstack m of [] \<Rightarrow> Crashed | v # vs \<Rightarrow> Returned v (m\<lparr>rstack := vs\<rparr>))"

fun exec :: "(regs \<Rightarrow> regs) \<Rightarrow> instr list \<Rightarrow> nat \<Rightarrow> machine \<Rightarrow> progress" where
  "exec stub prog 0 m = Running m"
| "exec stub prog (Suc n) m =
     (if ip m < length prog
      then (case exec_instr stub (prog ! ip m) m of Running m \<Rightarrow> exec stub prog n m | other \<Rightarrow> other)
      else Crashed)"

section \<open>The routine\<close>

definition trampoline_code :: "instr list" where
  "trampoline_code = [
     LockIncl,
     Pushq RBX, Pushq RAX, Pushq RDI, Pushq RSI, Pushq RDX, Pushq RCX, Pushq R11, Pushq R10, Pushq R9, Pushq R8,
     CallStub,
     Movq RAX RBX,
     Popq R8, Popq R9, Popq R10, Popq R11, Popq RCX, Popq RDX, Popq RSI, Popq RDI, Popq RAX,
     Testq RBX RBX,
     Jz 29,
     Movq RBX RAX,
     Popq RBX,
     AddqRsp8,
     LockDecl,
     Ret,
     Popq RBX,
     LockDecl,
     Ret]"

text \<open>The calling convention, and the state in which the patched instruction enters the routine: the
  return address behind the patched instruction on top of the stack, below it the return address of
  the system call's own caller.\<close>

definition callee_saved :: "reg set" where
  "callee_saved = {RBX, RBP, R12, R13, R14, R15}"

definition follows_convention :: "(regs \<Rightarrow> regs) \<Rightarrow> bool" where
  "follows_convention stub \<longleftrightarrow> (\<forall>g. \<forall>r \<in> callee_saved. stub g r = g r)"

definition entered :: "regs \<Rightarrow> u64 \<Rightarrow> u64 \<Rightarrow> u64 list \<Rightarrow> u32 \<Rightarrow> machine" where
  "entered g body caller below c = \<lparr>ip = 0, regs = g, rstack = body # caller # below, zf = False, stub_counter = c\<rparr>"

lemma regs_eqI:
  assumes "f RAX = g RAX" "f RBX = g RBX" "f RCX = g RCX" "f RDX = g RDX" "f RSI = g RSI" "f RDI = g RDI" "f RBP = g RBP"
    "f R8 = g R8" "f R9 = g R9" "f R10 = g R10" "f R11 = g R11" "f R12 = g R12" "f R13 = g R13" "f R14 = g R14" "f R15 = g R15"
  shows "f = g"
proof
  fix r show "f r = g r" using assms by (cases r) simp_all
qed

lemma exec_numeral:
  "exec stub prog (numeral k) m =
     (if ip m < length prog
      then (case exec_instr stub (prog ! ip m) m of Running m \<Rightarrow> exec stub prog (pred_numeral k) m | other \<Rightarrow> other)
      else Crashed)"
  by (simp add: numeral_eq_Suc)

lemma trampoline_runs:
  assumes "follows_convention stub"
  shows "exec stub trampoline_code 40 (entered g body caller below c) =
    (if stub g RAX = 0
     then Returned body \<lparr>ip = 31, regs = g, rstack = caller # below, zf = True, stub_counter = c\<rparr>
     else Returned caller \<lparr>ip = 28, regs = g(RAX := stub g RAX), rstack = below, zf = False, stub_counter = c\<rparr>)"
proof -
  have saved: "stub g RBX = g RBX" "stub g RBP = g RBP" "stub g R12 = g R12" "stub g R13 = g R13" "stub g R14 = g R14" "stub g R15 = g R15"
    using assms by (simp_all add: follows_convention_def callee_saved_def)
  show ?thesis
    by (simp add: entered_def trampoline_code_def next_ip_def exec_numeral saved) (intro conjI impI regs_eqI; simp add: saved)
qed

section \<open>Properties\<close>

text \<open>The trampoline is transparent. When \<open>stub\<close> returns 0 the routine returns to the body of the system call with every
  general register, the stack and the counter as they were at the patched instruction. When it returns something
  else, the body is skipped: control goes to the caller of the system call, with the value in RAX, all other
  registers, the rest of the stack and the counter unchanged.\<close>

lemma trampoline_transparent:
  assumes "follows_convention stub"
  shows "\<exists>m. exec stub trampoline_code 40 (entered g body caller below c) = Returned (if stub g RAX = 0 then body else caller) m \<and>
    regs m = (if stub g RAX = 0 then g else g(RAX := stub g RAX)) \<and>
    rstack m = (if stub g RAX = 0 then caller # below else below) \<and> stub_counter m = c"
  by (simp add: trampoline_runs [OF assms])

definition blocking_stub :: "regs \<Rightarrow> regs" where
  "blocking_stub g = g(RAX := 0xFFFFFFF5, RCX := 1, RDI := 2)"

lemma blocking_stub_convention: "follows_convention blocking_stub"
  by (simp add: follows_convention_def callee_saved_def blocking_stub_def)

text \<open>What an aborted call returns. \<open>stub\<close> returns \<open>-EAGAIN\<close> as an \<open>int\<close>, in the low half of RAX with the upper half
  clear. The routine hands the whole register on, so the caller of the system call receives 4294967285,
  which as a \<open>long\<close> is not the error \<open>-EAGAIN\<close>; only when it is cut to an \<open>int\<close> does it read as \<open>-EAGAIN\<close>.\<close>

lemma aborted_call_value:
  assumes "follows_convention stub" and "stub g RAX = ucast (of_int (- EAGAIN) :: u32)"
  shows "\<exists>m. exec stub trampoline_code 40 (entered g body caller below c) = Returned caller m \<and>
    sint (regs m RAX) = 4294967285 \<and> regs m RAX \<noteq> of_int (- EAGAIN) \<and> sint (ucast (regs m RAX) :: u32) = - EAGAIN"
proof -
  have "stub g RAX = 0xFFFFFFF5" using assms(2) by simp
  then show ?thesis by (simp add: trampoline_runs [OF assms(1)])
qed

end
