(* ===== verification/Throttle.thy ===== *)
theory Throttle
  imports Queue Statmonitor
begin

text \<open>
  The throttling core (\<open>sysThrot.c\<close>, lines 253-324, 515-527 and 564-596) as a system of interleaved steps:
  any number of threads run \<open>stub\<close>, the timer runs \<open>timer_callback\<close>, and one administrator runs
  \<open>sysThrot_turn_on\<close> and \<open>sysThrot_turn_off\<close>. A step is the code between two accesses to shared state:
  an atomic operation, a read of \<open>working\<close>, or a critical section under a lock. The program counters
  are named after the operation that comes next.

  The outcome of \<open>check_if_registered\<close> and of \<open>kmem_cache_create\<close>, the clock, and the moment at which a signal arrives
  or a waiter is scheduled are chosen by the action, so every interleaving with the store's operations is covered. \<open>wake_up_interruptible\<close>
  only makes waiters evaluate their condition, which they may do here at any time.
  Using freed memory or a destroyed cache is a fault.
\<close>

section \<open>State\<close>

datatype pc =
    Outside "int option"
  | Entered
  | Counted
  | Registered
  | Throttled
  | Holding addr
  | Waiting addr
  | Checking addr
  | Woke addr int
  | Exiting addr int
  | Measuring int
  | Failing
  | Leaving int

record thread =
  pc :: pc
  orig_ax :: u64
  regs_ax :: u64
  clock_in :: u64
  who :: task

datatype callback = CbIdle | CbStats int | CbEpoch int | CbRefill int | CbRearm | CbFree

datatype admin = AdminIdle | OnReady | OnArmed | OffStarted | OffTimer | OffDrain | OffDestroy

text \<open>The last four fields are not in the code. They record what the quota is about: the tokens of the
  last refill, the tokens taken since, the calls that these let through, and the waiting threads
  that the same epoch released.\<close>

record throttle =
  threads :: "thread list"
  working :: bool
  threads_in_module :: int
  current_epoch_tokens :: u32
  epoch :: u32
  max_syscalls_for_epoch :: int
  tqueue :: queue
  stats :: statmon
  timer_pending :: bool
  timer_callback_pc :: callback
  admin_pc :: admin
  refill :: int
  taken :: nat
  admitted :: nat
  released :: int

datatype outcome = Disabled | Fault | Next throttle

definition outcome_of :: "throttle option \<Rightarrow> outcome" where
  "outcome_of r = (case r of None \<Rightarrow> Fault | Some s \<Rightarrow> Next s)"

definition goto :: "nat \<Rightarrow> pc \<Rightarrow> throttle \<Rightarrow> throttle" where
  "goto t p s = s\<lparr>threads := (threads s)[t := (threads s ! t)\<lparr>pc := p\<rparr>]\<rparr>"

section \<open>The stub\<close>

datatype stub_action =
    Call u64
  | CountIn
  | CheckRegistered bool
  | TakeToken
  | Allocate u64
  | Link
  | Evaluate
  | ReadFlag
  | Signal
  | Recheck
  | SetExited
  | Measure u64
  | Abort
  | CountOut

definition begin_call :: "nat \<Rightarrow> u64 \<Rightarrow> throttle \<Rightarrow> throttle" where
  "begin_call t nr s =
     s\<lparr>threads := (threads s)[t := (threads s ! t)\<lparr>orig_ax := nr, pc := (if working s then Entered else Outside (Some 0))\<rparr>]\<rparr>"

definition take_token :: "nat \<Rightarrow> throttle \<Rightarrow> throttle" where
  "take_token t s =
     (let tokens_left = sint (current_epoch_tokens s - 1);
          s = s\<lparr>current_epoch_tokens := current_epoch_tokens s - 1, taken := taken s + 1\<rparr>
      in if tokens_left \<ge> 0 then goto t (Leaving 0) (s\<lparr>admitted := admitted s + 1\<rparr>)
         else goto t Throttled s)"

definition allocate :: "nat \<Rightarrow> u64 \<Rightarrow> throttle \<Rightarrow> throttle option" where
  "allocate t now s = do {
     let s = s\<lparr>threads := (threads s)[t := (threads s ! t)\<lparr>clock_in := now\<rparr>]\<rparr>;
     (p, q) \<leftarrow> queue_alloc (tqueue s);
     Some (goto t (if p = NULL then Failing else Holding p) (s\<lparr>tqueue := q\<rparr>)) }"

definition link_element :: "nat \<Rightarrow> addr \<Rightarrow> throttle \<Rightarrow> throttle option" where
  "link_element t p s = do {
     (r, q) \<leftarrow> queue_link (working s) p (tqueue s);
     Some (goto t (case r of AddFlag p \<Rightarrow> Waiting p | AddOff \<Rightarrow> Leaving 0 | AddNull \<Rightarrow> Failing) (s\<lparr>tqueue := q\<rparr>)) }"

definition evaluate :: "nat \<Rightarrow> nat \<Rightarrow> addr \<Rightarrow> throttle \<Rightarrow> throttle option" where
  "evaluate supported t p s = do {
     st \<leftarrow> sysThrot_add_ctx_switch supported (ucast (orig_ax (threads s ! t))) (stats s);
     Some (goto t (if \<not> working s then Woke p 0 else Checking p) (s\<lparr>stats := st\<rparr>)) }"

definition read_flag :: "nat \<Rightarrow> addr \<Rightarrow> throttle \<Rightarrow> throttle option" where
  "read_flag t p s = do {
     e \<leftarrow> load p (slab (tqueue s));
     Some (goto t (if wake_up_flag e then Woke p 0 else Waiting p) s) }"

definition set_exited :: "nat \<Rightarrow> addr \<Rightarrow> int \<Rightarrow> throttle \<Rightarrow> throttle option" where
  "set_exited t p result s = do {
     q \<leftarrow> set_exited_flag p (tqueue s);
     Some (goto t (if result = - ERESTARTSYS then Failing else Measuring result) (s\<lparr>tqueue := q\<rparr>)) }"

definition measure_delay :: "nat \<Rightarrow> nat \<Rightarrow> u64 \<Rightarrow> throttle \<Rightarrow> throttle option" where
  "measure_delay supported t clock_out s = do {
     let th = threads s ! t;
     st \<leftarrow> sysThrot_add_blocked supported (who th) (ucast (orig_ax th)) (clock_out - clock_in th) (stats s);
     Some (goto t (Leaving 0) (s\<lparr>stats := st\<rparr>)) }"

definition abort_call :: "nat \<Rightarrow> nat \<Rightarrow> throttle \<Rightarrow> throttle option" where
  "abort_call supported t s = do {
     let s = s\<lparr>threads := (threads s)[t := (threads s ! t)\<lparr>regs_ax := of_int (- EAGAIN)\<rparr>]\<rparr>;
     st \<leftarrow> sysThrot_add_aborted supported (ucast (orig_ax (threads s ! t))) (stats s);
     Some (goto t (Leaving (- EAGAIN)) (s\<lparr>stats := st\<rparr>)) }"

text \<open>One step of a thread in \<open>stub\<close>. The two places that fail the call with \<open>-EAGAIN\<close> (no memory, and a
  signal) run the same code and share a program counter.\<close>

fun stub_step :: "nat \<Rightarrow> nat \<Rightarrow> stub_action \<Rightarrow> throttle \<Rightarrow> outcome" where
  "stub_step supported t (Call nr) s =
     (case pc (threads s ! t) of Outside r \<Rightarrow> Next (begin_call t nr s) | _ \<Rightarrow> Disabled)"
| "stub_step supported t CountIn s =
     (case pc (threads s ! t) of
        Entered \<Rightarrow> Next (goto t Counted (s\<lparr>threads_in_module := threads_in_module s + 1\<rparr>)) | _ \<Rightarrow> Disabled)"
| "stub_step supported t (CheckRegistered reg) s =
     (case pc (threads s ! t) of Counted \<Rightarrow> Next (goto t (if reg then Registered else Leaving 0) s) | _ \<Rightarrow> Disabled)"
| "stub_step supported t TakeToken s =
     (case pc (threads s ! t) of Registered \<Rightarrow> Next (take_token t s) | _ \<Rightarrow> Disabled)"
| "stub_step supported t (Allocate now) s =
     (case pc (threads s ! t) of Throttled \<Rightarrow> outcome_of (allocate t now s) | _ \<Rightarrow> Disabled)"
| "stub_step supported t Link s =
     (case pc (threads s ! t) of Holding p \<Rightarrow> outcome_of (link_element t p s) | _ \<Rightarrow> Disabled)"
| "stub_step supported t Evaluate s =
     (case pc (threads s ! t) of Waiting p \<Rightarrow> outcome_of (evaluate supported t p s) | _ \<Rightarrow> Disabled)"
| "stub_step supported t ReadFlag s =
     (case pc (threads s ! t) of Checking p \<Rightarrow> outcome_of (read_flag t p s) | _ \<Rightarrow> Disabled)"
| "stub_step supported t Signal s =
     (case pc (threads s ! t) of Waiting p \<Rightarrow> Next (goto t (Woke p (- ERESTARTSYS)) s) | _ \<Rightarrow> Disabled)"
| "stub_step supported t Recheck s =
     (case pc (threads s ! t) of
        Woke p result \<Rightarrow> Next (goto t (if working s then Exiting p result else Leaving 0) s) | _ \<Rightarrow> Disabled)"
| "stub_step supported t SetExited s =
     (case pc (threads s ! t) of Exiting p result \<Rightarrow> outcome_of (set_exited t p result s) | _ \<Rightarrow> Disabled)"
| "stub_step supported t (Measure now) s =
     (case pc (threads s ! t) of Measuring result \<Rightarrow> outcome_of (measure_delay supported t now s) | _ \<Rightarrow> Disabled)"
| "stub_step supported t Abort s =
     (case pc (threads s ! t) of Failing \<Rightarrow> outcome_of (abort_call supported t s) | _ \<Rightarrow> Disabled)"
| "stub_step supported t CountOut s =
     (case pc (threads s ! t) of
        Leaving v \<Rightarrow> Next (goto t (Outside (Some v)) (s\<lparr>threads_in_module := threads_in_module s - 1\<rparr>)) | _ \<Rightarrow> Disabled)"

section \<open>The timer\<close>

definition start_epoch :: "throttle \<Rightarrow> throttle option" where
  "start_epoch s = do {
     (queued, q) \<leftarrow> unqueue (max_syscalls_for_epoch s) (tqueue s);
     Some (s\<lparr>timer_pending := False, tqueue := q, timer_callback_pc := CbStats queued\<rparr>) }"

fun timer_step :: "throttle \<Rightarrow> callback \<Rightarrow> outcome" where
  "timer_step s CbIdle = (if timer_pending s then outcome_of (start_epoch s) else Disabled)"
| "timer_step s (CbStats queued) = outcome_of (do {
     st \<leftarrow> update_epoch_stats (stats s);
     Some (s\<lparr>stats := st, timer_callback_pc := CbEpoch queued\<rparr>) })"
| "timer_step s (CbEpoch queued) = Next (s\<lparr>epoch := epoch s + 1, timer_callback_pc := CbRefill queued\<rparr>)"
| "timer_step s (CbRefill queued) =
     (let new_epoche_tokens = max_syscalls_for_epoch s - queued
      in Next (s\<lparr>current_epoch_tokens := of_int new_epoche_tokens, timer_callback_pc := CbRearm,
                 refill := new_epoche_tokens, taken := 0, admitted := 0, released := queued\<rparr>))"
| "timer_step s CbRearm = Next (s\<lparr>timer_pending := working s, timer_callback_pc := CbFree\<rparr>)"
| "timer_step s CbFree = outcome_of (do {
     q \<leftarrow> free_junk (tqueue s);
     Some (s\<lparr>tqueue := q, timer_callback_pc := CbIdle\<rparr>) })"

section \<open>Turning the monitor on and off\<close>

text \<open>\<open>sysThrot_turn_on\<close>: the state after its first check, and after each of its operations;
  \<open>sysThrot_turn_off\<close> likewise. \<open>timer_shutdown_sync\<close> waits for a running callback, and the loop that waits
  for the threads can leave only when the counter is not positive.\<close>

definition turn_on :: "bool \<Rightarrow> throttle \<Rightarrow> throttle" where
  "turn_on created s =
     (if working s then s
      else s\<lparr>tqueue := snd (init_queue created (tqueue s)), admin_pc := OnReady\<rparr>)"

definition turn_off :: "throttle \<Rightarrow> throttle" where
  "turn_off s = (if \<not> working s then s else s\<lparr>working := False, admin_pc := OffStarted\<rparr>)"

definition wake_up_everyone :: "throttle \<Rightarrow> throttle option" where
  "wake_up_everyone s = do {
     (_, q) \<leftarrow> wake_up_queue (tqueue s);
     Some (s\<lparr>tqueue := q, admin_pc := OffDrain\<rparr>) }"

definition destroy :: "throttle \<Rightarrow> throttle option" where
  "destroy s = do {
     (_, q) \<leftarrow> destroy_queue (tqueue s);
     Some (s\<lparr>tqueue := q, admin_pc := AdminIdle\<rparr>) }"

fun admin_step :: "throttle \<Rightarrow> admin \<Rightarrow> outcome" where
  "admin_step s AdminIdle = Disabled"
| "admin_step s OnReady = Next (s\<lparr>timer_pending := True, admin_pc := OnArmed\<rparr>)"
| "admin_step s OnArmed = Next (s\<lparr>working := True, admin_pc := AdminIdle\<rparr>)"
| "admin_step s OffStarted =
     (if timer_callback_pc s = CbIdle then Next (s\<lparr>timer_pending := False, admin_pc := OffTimer\<rparr>) else Disabled)"
| "admin_step s OffTimer = outcome_of (wake_up_everyone s)"
| "admin_step s OffDrain =
     (if threads_in_module s > 0 then Next s else Next (s\<lparr>admin_pc := OffDestroy\<rparr>))"
| "admin_step s OffDestroy = outcome_of (destroy s)"

section \<open>The whole system\<close>

datatype action = Thread nat stub_action | Timer | TurnOn bool | TurnOff | Admin

fun step :: "nat \<Rightarrow> action \<Rightarrow> throttle \<Rightarrow> outcome" where
  "step supported (Thread t a) s =
     (if t < length (threads s) then stub_step supported t a s else Disabled)"
| "step supported Timer s = timer_step s (timer_callback_pc s)"
| "step supported (TurnOn created) s =
     (if admin_pc s = AdminIdle then Next (turn_on created s) else Disabled)"
| "step supported TurnOff s = (if admin_pc s = AdminIdle then Next (turn_off s) else Disabled)"
| "step supported Admin s = admin_step s (admin_pc s)"

fun run :: "nat \<Rightarrow> action list \<Rightarrow> throttle \<Rightarrow> outcome" where
  "run supported [] s = Next s"
| "run supported (a # as) s =
     (case step supported a s of Next s \<Rightarrow> run supported as s | other \<Rightarrow> other)"


section \<open>Which elements the threads hold\<close>

fun unlinked :: "pc \<Rightarrow> addr option" where
  "unlinked (Holding p) = Some p"
| "unlinked _ = None"

fun linked :: "pc \<Rightarrow> addr option" where
  "linked (Waiting p) = Some p"
| "linked (Checking p) = Some p"
| "linked (Woke p _) = Some p"
| "linked (Exiting p _) = Some p"
| "linked _ = None"

definition holds :: "pc \<Rightarrow> addr \<Rightarrow> bool" where
  "holds c p \<longleftrightarrow> unlinked c = Some p \<or> linked c = Some p"

definition unlinked_set :: "pc list \<Rightarrow> addr set" where
  "unlinked_set ps = {p. \<exists>t < length ps. unlinked (ps ! t) = Some p}"

definition linked_set :: "pc list \<Rightarrow> addr set" where
  "linked_set ps = {p. \<exists>t < length ps. linked (ps ! t) = Some p}"

definition in_lists :: "queue \<Rightarrow> addr \<Rightarrow> bool" where
  "in_lists q p \<longleftrightarrow> p \<in> set (global_queue q) \<union> set (junk_list q)"

text \<open>No two threads hold the same element; an element that a waiting thread holds is on one of the
  lists, and its owner has not marked it.\<close>

definition exclusive :: "pc list \<Rightarrow> bool" where
  "exclusive ps \<longleftrightarrow> (\<forall>t < length ps. \<forall>u < length ps. \<forall>p. t \<noteq> u \<longrightarrow> holds (ps ! t) p \<longrightarrow> \<not> holds (ps ! u) p)"

definition holders_inv :: "pc list \<Rightarrow> queue \<Rightarrow> bool" where
  "holders_inv ps q \<longleftrightarrow> exclusive ps \<and> queue_inv (unlinked_set ps) q \<and>
     (\<forall>p \<in> linked_set ps. in_lists q p \<and> \<not> has_exited q p) \<and>
     (\<forall>p \<in> unlinked_set ps. \<not> is_woken q p \<and> \<not> has_exited q p)"

lemma holds_imp: "t < length ps \<Longrightarrow> holds (ps ! t) p \<Longrightarrow> p \<in> unlinked_set ps \<union> linked_set ps"
  by (auto simp: holds_def unlinked_set_def linked_set_def)

lemma update_sets:
  assumes "t < length ps" and "exclusive ps"
  shows "unlinked_set (ps[t := c]) = unlinked_set ps - set_option (unlinked (ps ! t)) \<union> set_option (unlinked c)"
    and "linked_set (ps[t := c]) = linked_set ps - set_option (linked (ps ! t)) \<union> set_option (linked c)"
  using assms unfolding unlinked_set_def linked_set_def exclusive_def holds_def
  by (auto simp: nth_list_update split: if_splits)

lemma exclusive_update:
  assumes "t < length ps" and "exclusive ps"
    and "\<And>p u. holds c p \<Longrightarrow> u < length ps \<Longrightarrow> u \<noteq> t \<Longrightarrow> \<not> holds (ps ! u) p"
  shows "exclusive (ps[t := c])"
  unfolding exclusive_def
proof (intro allI impI)
  fix a b p
  assume ab: "a < length (ps[t := c])" "b < length (ps[t := c])" "a \<noteq> b" and a: "holds (ps[t := c] ! a) p"
  consider "a = t" | "b = t" | "a \<noteq> t" "b \<noteq> t" by blast
  then show "\<not> holds (ps[t := c] ! b) p"
  proof cases
    case 1
    then show ?thesis using assms(1) assms(3) [of p b] ab a by simp
  next
    case 2
    then show ?thesis using assms(1) assms(3) [of p a] ab a by auto
  next
    case 3
    then show ?thesis using assms(2) ab a by (simp add: exclusive_def)
  qed
qed

lemma exclusiveD: "exclusive ps \<Longrightarrow> t < length ps \<Longrightarrow> u < length ps \<Longrightarrow> u \<noteq> t \<Longrightarrow> holds (ps ! t) p \<Longrightarrow> \<not> holds (ps ! u) p"
  unfolding exclusive_def by blast

lemma holders_inv_move:
  assumes "holders_inv ps q" and "t < length ps" and "unlinked c = unlinked (ps ! t)"
    and "linked c = linked (ps ! t) \<or> linked c = None"
  shows "holders_inv (ps[t := c]) q"
proof -
  have ex: "exclusive ps" using assms(1) by (simp add: holders_inv_def)
  have "exclusive (ps[t := c])"
  proof (rule exclusive_update [OF assms(2) ex])
    fix p u assume c: "holds c p" and u: "u < length ps" "u \<noteq> t"
    from c assms(3,4) have "holds (ps ! t) p" by (auto simp: holds_def)
    then show "\<not> holds (ps ! u) p" using exclusiveD [OF ex assms(2) u] by simp
  qed
  moreover have "unlinked_set (ps[t := c]) = unlinked_set ps"
    using update_sets(1) [OF assms(2) ex, of c] assms(2,3) by (auto simp: unlinked_set_def)
  moreover have "linked_set (ps[t := c]) \<subseteq> linked_set ps"
    using update_sets(2) [OF assms(2) ex, of c] assms(2,4) by (auto simp: linked_set_def)
  ultimately show ?thesis
    using assms(1) unfolding holders_inv_def by auto
qed

lemma holders_inv_queue:
  assumes "holders_inv ps q" and "queue_inv (unlinked_set ps) q'"
    and "\<And>p. in_lists q p \<Longrightarrow> \<not> has_exited q p \<Longrightarrow> in_lists q' p \<and> \<not> has_exited q' p"
    and "\<And>p. p \<in> unlinked_set ps \<Longrightarrow> \<not> is_woken q p \<Longrightarrow> \<not> has_exited q p \<Longrightarrow> \<not> is_woken q' p \<and> \<not> has_exited q' p"
  shows "holders_inv ps q'"
  using assms unfolding holders_inv_def by auto

lemma holders_invD:
  assumes "holders_inv ps q"
  shows "exclusive ps" and "queue_inv (unlinked_set ps) q"
    and "\<And>t p. t < length ps \<Longrightarrow> linked (ps ! t) = Some p \<Longrightarrow> in_lists q p \<and> \<not> has_exited q p"
    and "\<And>t p. t < length ps \<Longrightarrow> unlinked (ps ! t) = Some p \<Longrightarrow> p \<in> unlinked_set ps"
  using assms by (auto simp: holders_inv_def linked_set_def unlinked_set_def)

lemma in_lists_live: "queue_inv H q \<Longrightarrow> in_lists q p \<Longrightarrow> p \<in> dom (mem (slab q)) \<and> p \<notin> H"
  by (auto simp: in_lists_def queue_inv_def)


lemma holders_alloc:
  assumes inv: "holders_inv ps q" and t: "t < length ps" "unlinked (ps ! t) = None" "linked (ps ! t) = None"
    and p: "p \<notin> dom (mem (slab q))" and s: "mem s = (mem (slab q))(p \<mapsto> \<lparr>wake_up_flag = False, exited = False\<rparr>)"
    and inv': "queue_inv (insert p (unlinked_set ps)) (q\<lparr>slab := s\<rparr>)"
  shows "holders_inv (ps[t := Holding p]) (q\<lparr>slab := s\<rparr>)"
proof -
  note ex = holders_invD(1) [OF inv] and qi = holders_invD(2) [OF inv]
  have fresh: "p \<notin> unlinked_set ps \<union> linked_set ps"
    using inv p queue_invD(7) [OF qi] in_lists_live [OF qi] by (auto simp: holders_inv_def)
  have "exclusive (ps[t := Holding p])"
    using holds_imp [of _ ps p] fresh by (intro exclusive_update [OF t(1) ex]) (auto simp: holds_def)
  moreover have "unlinked_set (ps[t := Holding p]) = insert p (unlinked_set ps)"
    and "linked_set (ps[t := Holding p]) = linked_set ps"
    using update_sets [OF t(1) ex] t(2,3) by simp_all
  moreover have "has_exited (q\<lparr>slab := s\<rparr>) r = (r \<noteq> p \<and> has_exited q r)"
    "is_woken (q\<lparr>slab := s\<rparr>) r = (r \<noteq> p \<and> is_woken q r)" for r
    by (simp_all add: has_exited_def is_woken_def s)
  ultimately show ?thesis
    using inv inv' by (auto simp: holders_inv_def in_lists_def)
qed

lemma holders_same_mem:
  assumes "holders_inv ps q" and "mem s = mem (slab q)" and "queue_inv (unlinked_set ps) (q\<lparr>slab := s\<rparr>)"
  shows "holders_inv ps (q\<lparr>slab := s\<rparr>)"
  using assms by (intro holders_inv_queue [OF assms(1)])
    (simp_all add: in_lists_def has_exited_def is_woken_def)

lemma unlinked_split:
  assumes "exclusive ps" and "t < length ps" and "unlinked (ps ! t) = Some p"
  shows "unlinked_set ps = insert p (unlinked_set ps - {p})"
    and "unlinked c = None \<Longrightarrow> unlinked_set (ps[t := c]) = unlinked_set ps - {p}"
  using assms update_sets(1) [OF assms(2,1), of c] by (auto simp: unlinked_set_def)

lemma holds_linked:
  assumes "exclusive ps" and "t < length ps" and "unlinked (ps ! t) = Some p"
  shows "p \<notin> linked_set ps"
proof
  assume "p \<in> linked_set ps"
  then obtain u where u: "u < length ps" "linked (ps ! u) = Some p" by (auto simp: linked_set_def)
  then have "u \<noteq> t" using assms(3) by (cases "ps ! t") auto
  then show False
    using exclusiveD [OF assms(1,2) u(1), of p] assms(3) u(2) by (simp add: holds_def)
qed

lemma holders_link:
  assumes inv: "holders_inv ps q" and t: "t < length ps" "ps ! t = Holding p"
  shows "holders_inv (ps[t := Waiting p])
    (q\<lparr>current_in_queue := current_in_queue q + 1, global_queue := global_queue q @ [p]\<rparr>)" (is "holders_inv _ ?q")
proof -
  note ex = holders_invD(1) [OF inv] and qi = holders_invD(2) [OF inv]
  have u: "unlinked (ps ! t) = Some p" using t(2) by simp
  note split = unlinked_split [OF ex t(1) u]
  have flags: "\<not> is_woken q p" "\<not> has_exited q p"
    using inv split(1) by (auto simp: holders_inv_def)
  have "queue_inv (unlinked_set ps - {p}) ?q"
    using qi flags(1) split(1) by (intro queue_inv_link) auto
  moreover have "exclusive (ps[t := Waiting p])"
    using exclusiveD [OF ex t(1)] t(2) by (intro exclusive_update [OF t(1) ex]) (auto simp: holds_def)
  moreover have "unlinked_set (ps[t := Waiting p]) = unlinked_set ps - {p}"
    "linked_set (ps[t := Waiting p]) = insert p (linked_set ps)"
    using split(2) update_sets(2) [OF t(1) ex] t(2) by simp_all
  moreover have "has_exited ?q = has_exited q" "is_woken ?q = is_woken q"
    by (simp_all add: has_exited_def is_woken_def fun_eq_iff)
  ultimately show ?thesis
    using inv flags by (auto simp: holders_inv_def in_lists_def)
qed

lemma holders_link_off:
  assumes inv: "holders_inv ps q" and t: "t < length ps" "ps ! t = Holding p"
    and c: "unlinked c = None" "linked c = None" and cache: "queue_cache q"
  shows "\<exists>q'. queue_link False p q = Some (AddOff, q') \<and> holders_inv (ps[t := c]) q' \<and> queue_cache q' \<and>
    global_queue q' = global_queue q"
proof -
  note ex = holders_invD(1) [OF inv] and qi = holders_invD(2) [OF inv]
  have u: "unlinked (ps ! t) = Some p" using t(2) by simp
  note split = unlinked_split [OF ex t(1) u]
  let ?q = "q\<lparr>slab := slab q\<lparr>mem := (mem (slab q))(p := None)\<rparr>\<rparr>"
  have inv': "queue_inv (insert p (unlinked_set ps - {p})) q" using qi split(1) by auto
  have q': "queue_link False p q = Some (AddOff, ?q)" "queue_inv (unlinked_set ps - {p}) ?q"
    using queue_link_off [OF inv' _ cache] by auto
  have "exclusive (ps[t := c])"
    using c by (intro exclusive_update [OF t(1) ex]) (auto simp: holds_def)
  moreover have "unlinked_set (ps[t := c]) = unlinked_set ps - {p}" "linked_set (ps[t := c]) = linked_set ps"
    using split(2) [OF c(1)] update_sets(2) [OF t(1) ex, of c] t(2) c by simp_all
  moreover have "has_exited ?q r = (r \<noteq> p \<and> has_exited q r)" "is_woken ?q r = (r \<noteq> p \<and> is_woken q r)" for r
    by (simp_all add: has_exited_def is_woken_def)
  ultimately have "holders_inv (ps[t := c]) ?q"
    using inv q'(2) by (auto simp: holders_inv_def in_lists_def)
  then show ?thesis using q'(1) cache by simp
qed

lemma holders_set_exited:
  assumes inv: "holders_inv ps q" and t: "t < length ps" "linked (ps ! t) = Some p" "unlinked (ps ! t) = None"
    and c: "unlinked c = None" "linked c = None"
  shows "\<exists>q'. set_exited_flag p q = Some q' \<and> holders_inv (ps[t := c]) q' \<and> queue_cache q' = queue_cache q \<and>
    global_queue q' = global_queue q"
proof -
  note ex = holders_invD(1) [OF inv] and qi = holders_invD(2) [OF inv]
  have live: "p \<in> dom (mem (slab q))" "p \<notin> unlinked_set ps"
    using holders_invD(3) [OF inv t(1,2)] in_lists_live [OF qi] by auto
  then obtain e where e: "mem (slab q) p = Some e" by auto
  let ?q = "q\<lparr>slab := slab q\<lparr>mem := (mem (slab q))(p \<mapsto> e\<lparr>exited := True\<rparr>)\<rparr>\<rparr>"
  have flags: "has_exited ?q r = (r = p \<or> has_exited q r)" "is_woken ?q r = is_woken q r" for r
    using e by (simp_all add: has_exited_def is_woken_def)
  have "exclusive (ps[t := c])"
    using c by (intro exclusive_update [OF t(1) ex]) (auto simp: holds_def)
  moreover have "unlinked_set (ps[t := c]) = unlinked_set ps" "linked_set (ps[t := c]) = linked_set ps - {p}"
    using update_sets [OF t(1) ex, of c] t(2,3) c by simp_all
  moreover have "queue_inv (unlinked_set ps) ?q"
    by (rule queue_inv_set_exited [OF qi e])
  ultimately have "holders_inv (ps[t := c]) ?q"
    using inv live(2) by (auto simp: holders_inv_def in_lists_def flags)
  then show ?thesis using set_exited_flag_eq [OF e] by simp
qed


lemma unqueued_lists: "in_lists (unqueued n q) p = in_lists q p"
proof -
  have "set (global_queue q) = set (processed (has_exited q) n (global_queue q)) \<union> set (global_queue (unqueued n q))"
    using arg_cong [OF processed_prefix [of "has_exited q" n "global_queue q"], of set]
    by (simp add: unqueued_def Let_def)
  then show ?thesis by (auto simp: in_lists_def unqueued_def Let_def)
qed

lemma mark_woken_unlinked:
  assumes "queue_inv H q" and "mem (slab q') = mark_woken W (mem (slab q))" and "W \<subseteq> set (global_queue q)" and "p \<in> H"
  shows "is_woken q' p = is_woken q p"
  using assms in_lists_live [OF assms(1), of p] unfolding mark_woken_is_woken [OF assms(2)]
  by (auto simp: in_lists_def)

lemma holders_unqueued:
  assumes inv: "holders_inv ps q"
  shows "holders_inv ps (unqueued n q)"
proof -
  note qi = holders_invD(2) [OF inv]
  let ?W = "set (present q (processed (has_exited q) n (global_queue q)))"
  have mem: "mem (slab (unqueued n q)) = mark_woken ?W (mem (slab q))"
    by (simp add: unqueued_def Let_def)
  have W: "?W \<subseteq> set (global_queue q)"
    using processed_subset [of "has_exited q" n "global_queue q"] by auto
  show ?thesis
    using mark_woken_unlinked [OF qi mem W]
    by (intro holders_inv_queue [OF inv queue_inv_unqueued [OF qi]])
      (simp_all add: unqueued_lists mark_woken_exited [OF mem])
qed

lemma holders_all_woken:
  assumes inv: "holders_inv ps q"
  shows "holders_inv ps (all_woken q)"
proof -
  note qi = holders_invD(2) [OF inv]
  have mem: "mem (slab (all_woken q)) = mark_woken (set (global_queue q)) (mem (slab q))"
    and lists: "in_lists (all_woken q) p = in_lists q p" for p
    by (auto simp: all_woken_def in_lists_def)
  show ?thesis
    using mark_woken_unlinked [OF qi mem]
    by (intro holders_inv_queue [OF inv queue_inv_all_woken [OF qi]])
      (simp_all add: lists mark_woken_exited [OF mem])
qed

lemma holders_junk_freed:
  assumes inv: "holders_inv ps q"
  shows "holders_inv ps (junk_freed q)"
proof -
  note qi = holders_invD(2) [OF inv]
  show ?thesis
    using inv by (intro holders_inv_queue [OF inv queue_inv_junk_freed [OF qi]])
      (auto simp: junk_freed_has_exited junk_freed_is_woken in_lists_def)
qed

section \<open>The invariant of the system\<close>

fun in_region :: "pc \<Rightarrow> bool" where
  "in_region (Outside _) = False"
| "in_region Entered = False"
| "in_region _ = True"

fun outside :: "pc \<Rightarrow> bool" where
  "outside (Outside _) = True"
| "outside _ = False"

definition pcs :: "throttle \<Rightarrow> pc list" where
  "pcs s = map pc (threads s)"

definition all_outside :: "throttle \<Rightarrow> bool" where
  "all_outside s \<longleftrightarrow> (\<forall>c \<in> set (pcs s). outside c)"

definition timer_quiet :: "throttle \<Rightarrow> bool" where
  "timer_quiet s \<longleftrightarrow> \<not> timer_pending s \<and> timer_callback_pc s = CbIdle"

text \<open>The phases: while \<open>working\<close> is set no administrator is active; from the end of the draining
  loop to the next turn-on no thread is in the stub; the timer is silent except while the monitor
  works or is about to be turned on or off; the cache exists in all but the idle phase; and the
  queue is empty once everyone has been woken.\<close>

definition phase_inv :: "throttle \<Rightarrow> bool" where
  "phase_inv s \<longleftrightarrow>
     (working s \<longrightarrow> admin_pc s = AdminIdle \<and> queue_cache (tqueue s)) \<and>
     (admin_pc s \<noteq> AdminIdle \<longrightarrow> queue_cache (tqueue s)) \<and>
     (\<not> working s \<and> admin_pc s \<notin> {OffStarted, OffTimer, OffDrain} \<longrightarrow> all_outside s) \<and>
     (\<not> working s \<and> admin_pc s \<notin> {OffStarted, OnArmed} \<longrightarrow> timer_quiet s) \<and>
     (\<not> working s \<and> admin_pc s \<notin> {OffStarted, OffTimer} \<longrightarrow> global_queue (tqueue s) = [])"

definition count_inv :: "throttle \<Rightarrow> bool" where
  "count_inv s \<longleftrightarrow> threads_in_module s = int (length (filter in_region (pcs s)))"

definition safety_inv :: "nat \<Rightarrow> throttle \<Rightarrow> bool" where
  "safety_inv supported s \<longleftrightarrow>
     holders_inv (pcs s) (tqueue s) \<and> stats_inv supported (stats s) \<and> count_inv s \<and> phase_inv s"

text \<open>The runs considered: the cache creation succeeds when the monitor is turned on, and the loop that waits for
  the threads does not read its final zero while some thread has read \<open>working\<close> but has not yet
  counted itself in. Whether the second holds is a matter of timing: the code does not enforce it.\<close>

definition well_timed :: "action \<Rightarrow> throttle \<Rightarrow> bool" where
  "well_timed a s \<longleftrightarrow> a \<noteq> TurnOn False \<and>
     (a = Admin \<and> admin_pc s = OffDrain \<and> threads_in_module s \<le> 0 \<longrightarrow> Entered \<notin> set (pcs s))"

inductive reaches :: "nat \<Rightarrow> throttle \<Rightarrow> throttle \<Rightarrow> bool" for supported s0 where
  reaches_refl: "reaches supported s0 s0"
| reaches_step: "reaches supported s0 s \<Longrightarrow> well_timed a s \<Longrightarrow> step supported a s = Next s' \<Longrightarrow> reaches supported s0 s'"

lemma pcs_goto [simp]: "pcs (goto t c s) = (pcs s)[t := c]"
  by (simp add: pcs_def goto_def map_update)

lemma goto_simps [simp]:
  "working (goto t c s) = working s" "threads_in_module (goto t c s) = threads_in_module s"
  "current_epoch_tokens (goto t c s) = current_epoch_tokens s" "max_syscalls_for_epoch (goto t c s) = max_syscalls_for_epoch s"
  "tqueue (goto t c s) = tqueue s" "stats (goto t c s) = stats s" "timer_pending (goto t c s) = timer_pending s"
  "timer_callback_pc (goto t c s) = timer_callback_pc s" "admin_pc (goto t c s) = admin_pc s"
  "refill (goto t c s) = refill s" "taken (goto t c s) = taken s" "admitted (goto t c s) = admitted s"
  "released (goto t c s) = released s"
  by (simp_all add: goto_def)

lemma pcs_more [simp]:
  "pcs (s\<lparr>threads_in_module := x1\<rparr>) = pcs s" "pcs (s\<lparr>current_epoch_tokens := x2\<rparr>) = pcs s"
  "pcs (s\<lparr>tqueue := x3\<rparr>) = pcs s" "pcs (s\<lparr>stats := x4\<rparr>) = pcs s" "pcs (s\<lparr>timer_pending := x5\<rparr>) = pcs s"
  "pcs (s\<lparr>timer_callback_pc := x6\<rparr>) = pcs s" "pcs (s\<lparr>admin_pc := x7\<rparr>) = pcs s" "pcs (s\<lparr>working := x8\<rparr>) = pcs s"
  "pcs (s\<lparr>epoch := x9\<rparr>) = pcs s" "pcs (s\<lparr>refill := y1\<rparr>) = pcs s" "pcs (s\<lparr>taken := y2\<rparr>) = pcs s"
  "pcs (s\<lparr>admitted := y3\<rparr>) = pcs s" "pcs (s\<lparr>released := y4\<rparr>) = pcs s"
  by (simp_all add: pcs_def)

lemma length_pcs [simp]: "length (pcs s) = length (threads s)"
  by (simp add: pcs_def)

lemma count_update:
  assumes "t < length ps"
  shows "int (length (filter P (ps[t := c]))) =
    int (length (filter P ps)) - (if P (ps ! t) then 1 else 0) + (if P c then 1 else 0)"
  using assms
proof (induction ps arbitrary: t)
  case (Cons x ps)
  show ?case
  proof (cases t)
    case (Suc u)
    then have "int (length (filter P (ps[u := c]))) =
        int (length (filter P ps)) - (if P (ps ! u) then 1 else 0) + (if P c then 1 else 0)"
      using Cons by simp
    then show ?thesis using Suc by (cases "P (ps ! u)"; cases "P c") simp_all
  qed simp
qed simp


lemma safety_invD:
  assumes "safety_inv supported s"
  shows "holders_inv (pcs s) (tqueue s)" "stats_inv supported (stats s)" "count_inv s" "phase_inv s"
  using assms by (simp_all add: safety_inv_def)

lemma all_outside_update:
  assumes "all_outside s" and "pcs s' = (pcs s)[t := c]" and "outside c"
  shows "all_outside s'"
  using assms set_update_subset_insert [of "pcs s" t c] unfolding all_outside_def by auto

text \<open>A thread's step keeps the invariant if it accounts for the change of its program counter.\<close>

lemma safety_thread:
  assumes inv: "safety_inv supported s" and t: "t < length (threads s)" "pcs s' = (pcs s)[t := c]"
    and same: "working s' = working s" "admin_pc s' = admin_pc s" "timer_pending s' = timer_pending s"
      "timer_callback_pc s' = timer_callback_pc s" "queue_cache (tqueue s') = queue_cache (tqueue s)"
    and queue: "global_queue (tqueue s') = global_queue (tqueue s) \<or> working s"
    and new: "holders_inv (pcs s') (tqueue s')" "stats_inv supported (stats s')"
    and count: "threads_in_module s' = threads_in_module s -
      (if in_region (pcs s ! t) then 1 else 0) + (if in_region c then 1 else 0)"
    and stay: "outside (pcs s ! t) \<Longrightarrow> working s \<or> outside c"
  shows "safety_inv supported s'"
proof -
  have "count_inv s'"
    using safety_invD(3) [OF inv] count count_update [of t "pcs s" in_region c] t
    by (simp add: count_inv_def)
  moreover have "all_outside s'" if "all_outside s" "\<not> working s"
  proof -
    have "outside (pcs s ! t)" using that(1) t(1) by (simp add: all_outside_def)
    then have "outside c" using stay that(2) by simp
    then show ?thesis using all_outside_update [OF that(1) t(2)] by simp
  qed
  then have "phase_inv s'"
    using safety_invD(4) [OF inv] same queue unfolding phase_inv_def timer_quiet_def by auto
  ultimately show ?thesis using new by (simp add: safety_inv_def)
qed

lemma cache_exists:
  assumes "safety_inv supported s" and "t < length (threads s)" and "\<not> outside (pcs s ! t)"
  shows "queue_cache (tqueue s)"
proof -
  have "\<not> all_outside s" using assms(2,3) nth_mem [of t "pcs s"] by (auto simp: all_outside_def)
  then show ?thesis
    using safety_invD(4) [OF assms(1)] unfolding phase_inv_def by auto
qed

lemma outcome_of_Next [simp]: "outcome_of r = Next s \<longleftrightarrow> r = Some s" "outcome_of r = Fault \<longleftrightarrow> r = None"
  "outcome_of r \<noteq> Disabled"
  by (auto simp: outcome_of_def split: option.splits)

text \<open>\<open>safe_outcome\<close>: the action is not enabled, or it succeeds and keeps the invariant.\<close>

fun safe_outcome :: "nat \<Rightarrow> outcome \<Rightarrow> bool" where
  "safe_outcome supported Disabled = True"
| "safe_outcome supported Fault = False"
| "safe_outcome supported (Next s) = safety_inv supported s"

lemma safe_outcome_of: "safe_outcome supported (outcome_of r) \<longleftrightarrow> (\<exists>s. r = Some s \<and> safety_inv supported s)"
  by (cases r) (auto simp: outcome_of_def)

lemma pcs_begin_call: "pcs (begin_call t nr s) = (pcs s)[t := (if working s then Entered else Outside (Some 0))]"
  by (simp add: begin_call_def pcs_def map_update)

lemma begin_call_simps [simp]:
  "working (begin_call t nr s) = working s" "threads_in_module (begin_call t nr s) = threads_in_module s"
  "current_epoch_tokens (begin_call t nr s) = current_epoch_tokens s"
  "max_syscalls_for_epoch (begin_call t nr s) = max_syscalls_for_epoch s"
  "tqueue (begin_call t nr s) = tqueue s" "stats (begin_call t nr s) = stats s"
  "timer_pending (begin_call t nr s) = timer_pending s" "timer_callback_pc (begin_call t nr s) = timer_callback_pc s"
  "admin_pc (begin_call t nr s) = admin_pc s" "refill (begin_call t nr s) = refill s" "taken (begin_call t nr s) = taken s"
  "admitted (begin_call t nr s) = admitted s" "released (begin_call t nr s) = released s"
  by (simp_all add: begin_call_def)

lemma pcs_threads_upd: "pc (f (threads s ! t)) = pc (threads s ! t) \<Longrightarrow> pcs (s\<lparr>threads := (threads s)[t := f (threads s ! t)]\<rparr>) = pcs s"
  by (simp add: pcs_def map_update) (metis list_update_id nth_map list_update_beyond length_map linorder_not_less)

lemma pcs_nth: "t < length (threads s) \<Longrightarrow> pcs s ! t = pc (threads s ! t)"
  by (simp add: pcs_def)


section \<open>The steps of the stub keep the invariant\<close>

lemma move_safe:
  assumes "safety_inv supported s" and "t < length (threads s)"
    and "unlinked c = unlinked (pcs s ! t)" and "linked c = linked (pcs s ! t) \<or> linked c = None"
    and "in_region c = in_region (pcs s ! t)" and "outside (pcs s ! t) \<Longrightarrow> working s \<or> outside c"
    and "pcs s' = (pcs s)[t := c]" and "working s' = working s" and "admin_pc s' = admin_pc s"
    and "timer_pending s' = timer_pending s" and "timer_callback_pc s' = timer_callback_pc s"
    and "tqueue s' = tqueue s" and "stats_inv supported (stats s')" and "threads_in_module s' = threads_in_module s"
  shows "safety_inv supported s'"
  using assms(5-) holders_inv_move [OF safety_invD(1) [OF assms(1)] _ assms(3,4)] assms(2)
  by (intro safety_thread [OF assms(1,2,7)]) simp_all

lemma allocate_safe:
  assumes inv: "safety_inv supported s" and t: "t < length (threads s)" "pcs s ! t = Throttled"
  shows "\<exists>s'. allocate t now s = Some s' \<and> safety_inv supported s'"
proof -
  let ?s = "s\<lparr>threads := (threads s)[t := (threads s ! t)\<lparr>clock_in := now\<rparr>]\<rparr>"
  have ps: "pcs ?s = pcs s" by (rule pcs_threads_upd) simp
  note hold = safety_invD(1) [OF inv]
  have cache: "queue_cache (tqueue s)" using cache_exists [OF inv t(1)] t(2) by simp
  from holders_invD(2) [OF hold] cache show ?thesis
  proof (cases rule: queue_alloc_cases)
    case (fail q)
    have "holders_inv (pcs s) (tqueue s\<lparr>slab := q\<rparr>)"
      by (rule holders_same_mem [OF hold fail(3,2)])
    then have "safety_inv supported (goto t Failing (?s\<lparr>tqueue := tqueue s\<lparr>slab := q\<rparr>\<rparr>))"
      using t inv ps safety_invD(2) [OF inv]
      by (intro safety_thread [OF inv t(1), of _ Failing]) (simp_all add: holders_inv_move)
    then show ?thesis using fail(1) by (simp add: allocate_def)
  next
    case (ok p q)
    have "holders_inv ((pcs s)[t := Holding p]) (tqueue s\<lparr>slab := q\<rparr>)"
      using t ok by (intro holders_alloc [OF hold]) simp_all
    then have "safety_inv supported (goto t (Holding p) (?s\<lparr>tqueue := tqueue s\<lparr>slab := q\<rparr>\<rparr>))"
      using t inv ps safety_invD(2) [OF inv]
      by (intro safety_thread [OF inv t(1), of _ "Holding p"]) simp_all
    then show ?thesis using ok(1,2) by (simp add: allocate_def)
  qed
qed

lemma link_element_safe:
  assumes inv: "safety_inv supported s" and t: "t < length (threads s)" "pcs s ! t = Holding p"
  shows "\<exists>s'. link_element t p s = Some s' \<and> safety_inv supported s'"
proof (cases "working s")
  case True
  note hold = safety_invD(1) [OF inv]
  let ?q = "tqueue s\<lparr>current_in_queue := current_in_queue (tqueue s) + 1, global_queue := global_queue (tqueue s) @ [p]\<rparr>"
  have "holders_inv ((pcs s)[t := Waiting p]) ?q"
    using holders_link [OF hold, of t p] t by simp
  then have "safety_inv supported (goto t (Waiting p) (s\<lparr>tqueue := ?q\<rparr>))"
    using t True safety_invD(2) [OF inv]
    by (intro safety_thread [OF inv t(1), of _ "Waiting p"]) simp_all
  then show ?thesis using True by (simp add: link_element_def queue_link_def)
next
  case False
  note hold = safety_invD(1) [OF inv]
  have cache: "queue_cache (tqueue s)" using cache_exists [OF inv t(1)] t(2) by simp
  obtain q where q: "queue_link False p (tqueue s) = Some (AddOff, q)" "holders_inv ((pcs s)[t := Leaving 0]) q"
    "queue_cache q" "global_queue q = global_queue (tqueue s)"
    using holders_link_off [OF hold, of t p "Leaving 0"] t cache by auto
  then have "safety_inv supported (goto t (Leaving 0) (s\<lparr>tqueue := q\<rparr>))"
    using t cache safety_invD(2) [OF inv]
    by (intro safety_thread [OF inv t(1), of _ "Leaving 0"]) simp_all
  then show ?thesis using False q(1) by (simp add: link_element_def)
qed

lemma record_safe:
  assumes "stats_inv supported st" and "entry_update f"
  shows "\<exists>st'. with_entry supported nr f st = Some st' \<and> stats_inv supported st'"
  by (rule with_entry_cases [OF assms, of nr]) (use assms(1) in auto)

lemma evaluate_safe:
  assumes inv: "safety_inv supported s" and t: "t < length (threads s)" "pcs s ! t = Waiting p"
  shows "\<exists>s'. evaluate supported t p s = Some s' \<and> safety_inv supported s'"
proof -
  obtain st where st: "sysThrot_add_ctx_switch supported (ucast (orig_ax (threads s ! t))) (stats s) = Some st"
    "stats_inv supported st"
    using record_safe [OF safety_invD(2) [OF inv] entry_update_record(2)]
    unfolding sysThrot_add_ctx_switch_def by blast
  have "safety_inv supported (goto t c (s\<lparr>stats := st\<rparr>))" if "c = Woke p 0 \<or> c = Checking p" for c
    using t st(2) that by (intro move_safe [OF inv t(1), of c]) auto
  then show ?thesis using st(1) by (simp add: evaluate_def)
qed

lemma read_flag_safe:
  assumes inv: "safety_inv supported s" and t: "t < length (threads s)" "pcs s ! t = Checking p"
  shows "\<exists>s'. read_flag t p s = Some s' \<and> safety_inv supported s'"
proof -
  note hold = safety_invD(1) [OF inv]
  have "p \<in> dom (mem (slab (tqueue s)))"
    using holders_invD(3) [OF hold, of t p] t in_lists_live [OF holders_invD(2) [OF hold]] by simp
  then obtain e where e: "load p (slab (tqueue s)) = Some e" by (auto simp: load_def)
  have "safety_inv supported (goto t c s)" if "c = Woke p 0 \<or> c = Waiting p" for c
    using t safety_invD(2) [OF inv] that by (intro move_safe [OF inv t(1), of c]) auto
  then show ?thesis using e by (simp add: read_flag_def)
qed

lemma set_exited_safe:
  assumes inv: "safety_inv supported s" and t: "t < length (threads s)" "pcs s ! t = Exiting p r"
  shows "\<exists>s'. set_exited t p r s = Some s' \<and> safety_inv supported s'"
proof -
  define c where "c = (if r = - ERESTARTSYS then Failing else Measuring r)"
  have c: "unlinked c = None" "linked c = None" "in_region c" by (simp_all add: c_def)
  obtain q where q: "set_exited_flag p (tqueue s) = Some q" "holders_inv ((pcs s)[t := c]) q"
    "queue_cache q = queue_cache (tqueue s)" "global_queue q = global_queue (tqueue s)"
    using holders_set_exited [OF safety_invD(1) [OF inv], of t p c] t c by auto
  have "safety_inv supported (goto t c (s\<lparr>tqueue := q\<rparr>))"
    using t q safety_invD(2) [OF inv] c(3) by (intro safety_thread [OF inv t(1), of _ c]) auto
  then show ?thesis using q(1) unfolding set_exited_def c_def [symmetric] by simp
qed

lemma measure_delay_safe:
  assumes inv: "safety_inv supported s" and t: "t < length (threads s)" "pcs s ! t = Measuring r"
  shows "\<exists>s'. measure_delay supported t now s = Some s' \<and> safety_inv supported s'"
proof -
  obtain st where st: "sysThrot_add_blocked supported (who (threads s ! t)) (ucast (orig_ax (threads s ! t)))
      (now - clock_in (threads s ! t)) (stats s) = Some st" "stats_inv supported st"
    using record_safe [OF safety_invD(2) [OF inv] entry_update_record(1)]
    unfolding sysThrot_add_blocked_def by blast
  have "safety_inv supported (goto t (Leaving 0) (s\<lparr>stats := st\<rparr>))"
    using t st(2) by (intro move_safe [OF inv t(1), of "Leaving 0"]) auto
  then show ?thesis using st(1) by (simp add: measure_delay_def Let_def)
qed

lemma abort_call_safe:
  assumes inv: "safety_inv supported s" and t: "t < length (threads s)" "pcs s ! t = Failing"
  shows "\<exists>s'. abort_call supported t s = Some s' \<and> safety_inv supported s'"
proof -
  let ?s = "s\<lparr>threads := (threads s)[t := (threads s ! t)\<lparr>regs_ax := of_int (- EAGAIN)\<rparr>]\<rparr>"
  have ps: "pcs ?s = pcs s" by (rule pcs_threads_upd) simp
  obtain st where st: "sysThrot_add_aborted supported (ucast (orig_ax (threads ?s ! t))) (stats s) = Some st"
    "stats_inv supported st"
    using record_safe [OF safety_invD(2) [OF inv] entry_update_record(3)]
    unfolding sysThrot_add_aborted_def by blast
  have "safety_inv supported (goto t (Leaving (- EAGAIN)) (?s\<lparr>stats := st\<rparr>))"
    using t st(2) ps by (intro move_safe [OF inv t(1), of "Leaving (- EAGAIN)"]) auto
  then show ?thesis using st(1) by (simp add: abort_call_def Let_def)
qed


lemma take_token_safe:
  assumes inv: "safety_inv supported s" and t: "t < length (threads s)" "pcs s ! t = Registered"
  shows "safety_inv supported (take_token t s)"
  unfolding take_token_def Let_def if_distrib [of "safety_inv supported"]
  using t safety_invD(2) [OF inv]
  by (auto intro: move_safe [OF inv t(1), of "Leaving 0"] move_safe [OF inv t(1), of Throttled])

lemma count_in_safe:
  assumes inv: "safety_inv supported s" and t: "t < length (threads s)" "pcs s ! t = Entered"
  shows "safety_inv supported (goto t Counted (s\<lparr>threads_in_module := threads_in_module s + 1\<rparr>))"
  using t safety_invD(1,2) [OF inv] by (intro safety_thread [OF inv t(1), of _ Counted]) (simp_all add: holders_inv_move)

lemma count_out_safe:
  assumes inv: "safety_inv supported s" and t: "t < length (threads s)" "pcs s ! t = Leaving v"
  shows "safety_inv supported (goto t (Outside (Some v)) (s\<lparr>threads_in_module := threads_in_module s - 1\<rparr>))"
  using t safety_invD(1,2) [OF inv]
  by (intro safety_thread [OF inv t(1), of _ "Outside (Some v)"]) (simp_all add: holders_inv_move)

lemma begin_call_safe:
  assumes inv: "safety_inv supported s" and t: "t < length (threads s)" "pcs s ! t = Outside r"
  shows "safety_inv supported (begin_call t nr s)"
  by (rule move_safe [OF inv t(1), of "if working s then Entered else Outside (Some 0)"])
    (use t safety_invD(2) [OF inv] in \<open>auto simp: pcs_begin_call\<close>)

lemma stub_step_safe:
  assumes inv: "safety_inv supported s" and t: "t < length (threads s)"
  shows "safe_outcome supported (stub_step supported t a s)"
proof -
  have c: "pc (threads s ! t) = pcs s ! t" using t by (simp add: pcs_nth)
  note stats = safety_invD(2) [OF inv]
  show ?thesis
  proof (cases a)
    case (CheckRegistered reg)
    then show ?thesis
      using t stats by (auto simp: c split: pc.split intro: move_safe [OF inv t, of Registered] move_safe [OF inv t, of "Leaving 0"])
  next
    case Signal
    then show ?thesis
      using t stats by (auto simp: c split: pc.split intro!: move_safe [OF inv t, of "Woke _ (- ERESTARTSYS)"])
  next
    case Recheck
    then show ?thesis
      using t stats by (auto simp: c split: pc.split intro: move_safe [OF inv t, of "Exiting _ _"] move_safe [OF inv t, of "Leaving 0"])
  qed (use allocate_safe [OF inv t] link_element_safe [OF inv t] evaluate_safe [OF inv t] read_flag_safe [OF inv t]
      set_exited_safe [OF inv t] measure_delay_safe [OF inv t] abort_call_safe [OF inv t] take_token_safe [OF inv t]
      count_in_safe [OF inv t] count_out_safe [OF inv t] begin_call_safe [OF inv t] in
      \<open>auto simp: c safe_outcome_of split: pc.split\<close>)
qed


section \<open>The steps of the timer and of the administrator keep the invariant\<close>

lemma timer_cache:
  assumes "safety_inv supported s" and "timer_pending s \<or> timer_callback_pc s \<noteq> CbIdle"
  shows "queue_cache (tqueue s)"
  using safety_invD(4) [OF assms(1)] assms(2) unfolding phase_inv_def timer_quiet_def by auto

text \<open>A step of the timer's callback: the threads, \<open>working\<close> and the administrator do not move.\<close>

lemma safety_timer:
  assumes inv: "safety_inv supported s" and active: "timer_pending s \<or> timer_callback_pc s \<noteq> CbIdle"
    and same: "pcs s' = pcs s" "working s' = working s" "admin_pc s' = admin_pc s" "threads_in_module s' = threads_in_module s"
      "queue_cache (tqueue s') = queue_cache (tqueue s)"
    and new: "holders_inv (pcs s) (tqueue s')" "stats_inv supported (stats s')"
    and queue: "global_queue (tqueue s) = [] \<Longrightarrow> global_queue (tqueue s') = []"
  shows "safety_inv supported s'"
proof -
  have "phase_inv s'"
    using safety_invD(4) [OF inv] active same queue unfolding phase_inv_def timer_quiet_def all_outside_def by auto
  then show ?thesis
    using safety_invD(3) [OF inv] same new by (simp add: safety_inv_def count_inv_def)
qed

lemma unqueued_simps [simp]:
  "queue_cache (unqueued n q) = queue_cache q" "global_queue q = [] \<Longrightarrow> global_queue (unqueued n q) = []"
  by (simp_all add: unqueued_def Let_def)

lemma timer_step_safe:
  assumes inv: "safety_inv supported s"
  shows "safe_outcome supported (timer_step s (timer_callback_pc s))"
proof -
  note hold = safety_invD(1) [OF inv] and st = safety_invD(2) [OF inv]
  note qi = holders_invD(2) [OF hold]
  show ?thesis
  proof (cases "timer_callback_pc s")
    case CbIdle
    show ?thesis
    proof (cases "timer_pending s")
      case True
      have "start_epoch s = Some (s\<lparr>timer_pending := False, tqueue := unqueued (max_syscalls_for_epoch s) (tqueue s),
          timer_callback_pc := CbStats (int (length (take (nat (max_syscalls_for_epoch s)) (present (tqueue s) (global_queue (tqueue s))))))\<rparr>)"
        using unqueue_eq [OF qi] by (simp add: start_epoch_def)
      then show ?thesis
        using True CbIdle st holders_unqueued [OF hold]
        by (auto simp: safe_outcome_of intro!: safety_timer [OF inv])
    qed (simp add: CbIdle)
  next
    case (CbStats k)
    obtain st' where "update_epoch_stats (stats s) = Some st'" "stats_inv supported st'"
      using update_epoch_stats_entries [OF st] by blast
    then show ?thesis
      using CbStats hold by (auto simp: safe_outcome_of intro!: safety_timer [OF inv])
  next
    case CbFree
    have "free_junk (tqueue s) = Some (junk_freed (tqueue s))"
      using free_junk_eq [OF qi] timer_cache [OF inv] CbFree by simp
    then show ?thesis
      using CbFree st holders_junk_freed [OF hold] by (auto simp: safe_outcome_of intro!: safety_timer [OF inv])
  qed (use hold st in \<open>auto simp: Let_def intro!: safety_timer [OF inv]\<close>)
qed

lemma no_region_all_outside:
  assumes "safety_inv supported s" and "threads_in_module s \<le> 0" and "Entered \<notin> set (pcs s)"
  shows "all_outside s"
  unfolding all_outside_def
proof
  fix c assume c: "c \<in> set (pcs s)"
  have "filter in_region (pcs s) = []"
    using safety_invD(3) [OF assms(1)] assms(2) by (simp add: count_inv_def)
  then have "\<not> in_region c" using c by (simp add: filter_empty_conv)
  then show "outside c" using c assms(3) by (cases c) auto
qed

lemma all_outside_more [simp]:
  "all_outside (s\<lparr>timer_pending := x1\<rparr>) = all_outside s" "all_outside (s\<lparr>admin_pc := x2\<rparr>) = all_outside s"
  "all_outside (s\<lparr>working := x3\<rparr>) = all_outside s" "all_outside (s\<lparr>tqueue := x4\<rparr>) = all_outside s"
  by (simp_all add: all_outside_def)

lemma safety_admin:
  assumes inv: "safety_inv supported s" and same: "pcs s' = pcs s" "threads_in_module s' = threads_in_module s"
    and new: "holders_inv (pcs s) (tqueue s')" "stats_inv supported (stats s')" "phase_inv s'"
  shows "safety_inv supported s'"
  using assms safety_invD(3) [OF inv] by (simp add: safety_inv_def count_inv_def)

lemma admin_step_safe:
  assumes inv: "safety_inv supported s" and timed: "well_timed Admin s"
  shows "safe_outcome supported (admin_step s (admin_pc s))"
proof -
  note hold = safety_invD(1) [OF inv] and st = safety_invD(2) [OF inv] and ph = safety_invD(4) [OF inv]
  note qi = holders_invD(2) [OF hold]
  show ?thesis
  proof (cases "admin_pc s")
    case OffTimer
    have "wake_up_everyone s = Some (s\<lparr>tqueue := all_woken (tqueue s), admin_pc := OffDrain\<rparr>)"
      using wake_up_queue_eq [OF qi] by (simp add: wake_up_everyone_def)
    moreover have "phase_inv (s\<lparr>tqueue := all_woken (tqueue s), admin_pc := OffDrain\<rparr>)"
      using ph OffTimer by (auto simp: phase_inv_def timer_quiet_def all_woken_def)
    ultimately show ?thesis
      using OffTimer st holders_all_woken [OF hold]
      by (auto simp: safe_outcome_of intro!: safety_admin [OF inv])
  next
    case OffDestroy
    have cache: "queue_cache (tqueue s)" using ph OffDestroy by (simp add: phase_inv_def)
    let ?q = "junk_freed (tqueue s)\<lparr>queue_cache := False\<rparr>"
    have "destroy s = Some (s\<lparr>tqueue := ?q, admin_pc := AdminIdle\<rparr>)"
      using free_junk_eq [OF qi cache] by (simp add: destroy_def destroy_queue_def)
    moreover have "holders_inv (pcs s) ?q"
      using holders_junk_freed [OF hold]
      by (simp add: holders_inv_def queue_inv_def in_lists_def has_exited_def is_woken_def)
    moreover have "phase_inv (s\<lparr>tqueue := ?q, admin_pc := AdminIdle\<rparr>)"
      using ph OffDestroy by (auto simp: phase_inv_def timer_quiet_def)
    ultimately show ?thesis
      using OffDestroy st by (auto simp: safe_outcome_of intro!: safety_admin [OF inv])
  next
    case OffDrain
    have "phase_inv (s\<lparr>admin_pc := OffDestroy\<rparr>)" if "threads_in_module s \<le> 0"
      using ph OffDrain timed that no_region_all_outside [OF inv that]
      by (auto simp: phase_inv_def timer_quiet_def well_timed_def)
    then show ?thesis
      using OffDrain inv hold st by (auto intro!: safety_admin [OF inv])
  qed (use ph hold st in \<open>auto simp: phase_inv_def timer_quiet_def intro!: safety_admin [OF inv]\<close>)
qed


lemma step_safe:
  assumes inv: "safety_inv supported s" and timed: "well_timed a s"
  shows "safe_outcome supported (step supported a s)"
proof -
  note hold = safety_invD(1) [OF inv] and st = safety_invD(2) [OF inv] and ph = safety_invD(4) [OF inv]
  show ?thesis
  proof (cases a)
    case (Thread t b)
    then show ?thesis using stub_step_safe [OF inv] by simp
  next
    case Timer
    then show ?thesis using timer_step_safe [OF inv] by simp
  next
    case Admin
    then show ?thesis using admin_step_safe [OF inv] timed by simp
  next
    case (TurnOn created)
    then have created: "created" using timed by (auto simp: well_timed_def)
    let ?s = "s\<lparr>tqueue := tqueue s\<lparr>queue_cache := True\<rparr>, admin_pc := OnReady\<rparr>"
    have "safety_inv supported ?s" if "\<not> working s" "admin_pc s = AdminIdle"
    proof (rule safety_admin [OF inv])
      show "holders_inv (pcs s) (tqueue ?s)"
        using hold by (simp add: holders_inv_def queue_inv_def in_lists_def has_exited_def is_woken_def)
      show "phase_inv ?s" using ph that by (auto simp: phase_inv_def timer_quiet_def)
    qed (use st in simp_all)
    then show ?thesis using TurnOn inv created by (auto simp: turn_on_def init_queue_def)
  next
    case TurnOff
    have "safety_inv supported (s\<lparr>working := False, admin_pc := OffStarted\<rparr>)" if "working s"
      using ph that hold st by (intro safety_admin [OF inv]) (auto simp: phase_inv_def)
    then show ?thesis using TurnOff inv by (auto simp: turn_off_def)
  qed
qed

lemma reaches_safe: "reaches supported s0 s \<Longrightarrow> safety_inv supported s0 \<Longrightarrow> safety_inv supported s"
proof (induction rule: reaches.induct)
  case (reaches_step s a s')
  then show ?case using step_safe [of supported s a] by simp
qed


section \<open>The quota\<close>

definition quota_view :: "throttle \<Rightarrow> u32 \<times> int \<times> int \<times> nat \<times> nat \<times> int" where
  "quota_view s = (current_epoch_tokens s, max_syscalls_for_epoch s, refill s, taken s, admitted s, released s)"

fun callback_queued :: "callback \<Rightarrow> int" where
  "callback_queued (CbStats k) = k"
| "callback_queued (CbEpoch k) = k"
| "callback_queued (CbRefill k) = k"
| "callback_queued _ = 0"

definition quota_inv :: "int \<Rightarrow> throttle \<Rightarrow> bool" where
  "quota_inv n s \<longleftrightarrow>
     max_syscalls_for_epoch s = n \<and> 0 \<le> refill s \<and> refill s < 2 ^ 31 \<and> 0 \<le> released s \<and> refill s + released s \<le> n \<and>
     current_epoch_tokens s = of_int (refill s - int (taken s)) \<and>
     (taken s < 2 ^ 31 \<longrightarrow> int (admitted s) = min (int (taken s)) (refill s)) \<and>
     0 \<le> callback_queued (timer_callback_pc s) \<and> callback_queued (timer_callback_pc s) \<le> n"

lemma quota_inv_view:
  "quota_view s' = quota_view s \<Longrightarrow> timer_callback_pc s' = timer_callback_pc s \<Longrightarrow> quota_inv n s' = quota_inv n s"
  by (simp add: quota_inv_def quota_view_def)

lemma quota_view_goto [simp]: "quota_view (goto t c s) = quota_view s" "quota_view (begin_call t nr s) = quota_view s"
  by (simp_all add: quota_view_def)

lemma quota_view_more [simp]:
  "quota_view (s\<lparr>threads_in_module := x1\<rparr>) = quota_view s" "quota_view (s\<lparr>tqueue := x2\<rparr>) = quota_view s"
  "quota_view (s\<lparr>stats := x3\<rparr>) = quota_view s" "quota_view (s\<lparr>threads := x4\<rparr>) = quota_view s"
  by (simp_all add: quota_view_def)

lemma stub_step_quota_view:
  assumes "stub_step supported t a s = Next s'" and "a \<noteq> TakeToken"
  shows "quota_view s' = quota_view s \<and> timer_callback_pc s' = timer_callback_pc s"
  using assms
  by (cases a) (auto simp: allocate_def link_element_def evaluate_def read_flag_def set_exited_def measure_delay_def
      abort_call_def Let_def split: pc.splits bind_splits)

lemma sint_of_int_32: "- (2 ^ 31) \<le> v \<Longrightarrow> v < 2 ^ 31 \<Longrightarrow> sint (of_int v :: u32) = v"
  by (simp add: signed_of_int signed_take_bit_int_eq_self_iff)

lemma take_token_quota:
  assumes "quota_inv n s"
  shows "quota_inv n (take_token t s)"
proof -
  have left: "current_epoch_tokens s - 1 = of_int (refill s - int (taken s) - 1)"
    using assms by (simp add: quota_inv_def)
  have view: "taken (take_token t s) = taken s + 1" "refill (take_token t s) = refill s"
    "released (take_token t s) = released s" "max_syscalls_for_epoch (take_token t s) = max_syscalls_for_epoch s"
    "timer_callback_pc (take_token t s) = timer_callback_pc s"
    "current_epoch_tokens (take_token t s) = of_int (refill s - int (taken s) - 1)"
    by (simp_all add: take_token_def Let_def left)
  have "int (admitted (take_token t s)) = min (int (taken s) + 1) (refill s)" if "taken s + 1 < 2 ^ 31"
  proof -
    have "sint (current_epoch_tokens s - 1) = refill s - int (taken s) - 1"
      unfolding left using assms that by (intro sint_of_int_32) (simp_all add: quota_inv_def)
    then have "int (admitted (take_token t s)) = int (admitted s) + (if int (taken s) < refill s then 1 else 0)"
      by (simp add: take_token_def Let_def)
    then show ?thesis using assms that by (simp add: quota_inv_def)
  qed
  then show ?thesis
    using assms unfolding quota_inv_def view by (simp add: algebra_simps)
qed

lemma quota_step:
  assumes inv: "safety_inv supported s" and quota: "quota_inv n s" and n: "0 \<le> n" "n < 2 ^ 31"
    and step: "step supported a s = Next s'"
  shows "quota_inv n s'"
proof (cases a)
  case (Thread t b)
  then have b: "stub_step supported t b s = Next s'" using step by (simp split: if_splits)
  show ?thesis
  proof (cases "b = TakeToken")
    case True
    then show ?thesis using b take_token_quota [OF quota, of t] by (auto split: pc.splits)
  next
    case False
    then show ?thesis using stub_step_quota_view [OF b] quota_inv_view quota by blast
  qed
next
  case Timer
  then have b: "timer_step s (timer_callback_pc s) = Next s'" using step by simp
  show ?thesis
  proof (cases "timer_callback_pc s")
    case CbIdle
    have "length (take (nat n) (present (tqueue s) (global_queue (tqueue s)))) \<le> nat n" by simp
    then show ?thesis
      using b CbIdle quota n unqueue_eq [OF holders_invD(2) [OF safety_invD(1) [OF inv]], of n]
      by (auto simp: start_epoch_def quota_inv_def split: if_splits)
  qed (use b quota n in \<open>auto simp: quota_inv_def Let_def split: bind_splits\<close>)
next
  case (TurnOn created)
  then show ?thesis
    using step quota by (auto simp: turn_on_def quota_inv_def split: if_splits)
next
  case TurnOff
  then show ?thesis
    using step quota by (auto simp: turn_off_def quota_inv_def split: if_splits)
next
  case Admin
  then have b: "admin_step s (admin_pc s) = Next s'" using step by simp
  show ?thesis
    using b quota by (cases "admin_pc s")
      (auto simp: quota_inv_def wake_up_everyone_def destroy_def split: if_splits bind_splits)
qed

lemma reaches_quota:
  "reaches supported s0 s \<Longrightarrow> safety_inv supported s0 \<Longrightarrow> quota_inv n s0 \<Longrightarrow> 0 \<le> n \<Longrightarrow> n < 2 ^ 31 \<Longrightarrow> quota_inv n s"
proof (induction rule: reaches.induct)
  case (reaches_step s a s')
  then show ?case using quota_step reaches_safe by blast
qed


section \<open>Draining\<close>

text \<open>How many steps of the stub a thread has at most left to go once \<open>working\<close> is 0.\<close>

fun rank :: "pc \<Rightarrow> nat" where
  "rank (Outside _) = 0"
| "rank (Leaving _) = 1"
| "rank Failing = 2"
| "rank (Measuring _) = 2"
| "rank (Exiting _ _) = 3"
| "rank (Woke _ _) = 4"
| "rank (Waiting _) = 5"
| "rank (Checking _) = 6"
| "rank (Holding _) = 6"
| "rank Throttled = 7"
| "rank Registered = 8"
| "rank Counted = 9"
| "rank Entered = 10"

definition remaining :: "throttle \<Rightarrow> nat" where
  "remaining s = sum_list (map rank (pcs s))"

lemma sum_list_update_less:
  "t < length xs \<Longrightarrow> y < xs ! t \<Longrightarrow> sum_list (xs[t := y]) < (sum_list xs :: nat)"
proof (induction xs arbitrary: t)
  case (Cons x xs)
  then show ?case by (cases t) auto
qed simp

lemma remaining_update:
  assumes "t < length (threads s)" and "pcs s' = (pcs s)[t := c]" and "rank c < rank (pcs s ! t)"
  shows "remaining s' < remaining s"
  using assms sum_list_update_less [of t "map rank (pcs s)" "rank c"]
  by (simp add: remaining_def map_update)

lemma pcs_clock: "pcs (s\<lparr>threads := (threads s)[t := (threads s ! t)\<lparr>clock_in := x\<rparr>]\<rparr>) = pcs s"
  "pcs (s\<lparr>threads := (threads s)[t := (threads s ! t)\<lparr>regs_ax := y\<rparr>]\<rparr>) = pcs s"
  by (rule pcs_threads_upd; simp)+

lemma pcs_take_token: "pcs (take_token t s) = (pcs s)[t := Leaving 0] \<or> pcs (take_token t s) = (pcs s)[t := Throttled]"
  by (simp add: take_token_def Let_def)

lemma take_token_working [simp]: "working (take_token t s) = working s"
  by (simp add: take_token_def Let_def)

lemma stub_step_decreases:
  assumes off: "\<not> working s" and t: "t < length (threads s)" and step: "stub_step supported t a s = Next s'"
    and call: "\<And>nr. a \<noteq> Call nr"
  shows "remaining s' < remaining s \<and> \<not> working s' \<and> length (threads s') = length (threads s)"
proof -
  have c: "pc (threads s ! t) = pcs s ! t" using t by (simp add: pcs_nth)
  have "\<exists>d. pcs s' = (pcs s)[t := d] \<and> rank d < rank (pcs s ! t)"
  proof (cases "a = TakeToken")
    case True
    then have "pcs s ! t = Registered" "s' = take_token t s" using step by (auto simp: c split: pc.splits)
    then show ?thesis using pcs_take_token [of t s] by (elim disjE) (auto intro!: exI)
  next
    case False
    then show ?thesis
      using step call off
      by (cases a) (auto simp: c allocate_def link_element_def evaluate_def read_flag_def set_exited_def measure_delay_def
          abort_call_def queue_link_def pcs_clock Let_def split: pc.splits bind_splits)
  qed
  moreover have "\<not> working s'"
    using step off
    by (cases a) (auto simp: allocate_def link_element_def evaluate_def read_flag_def set_exited_def measure_delay_def
        abort_call_def Let_def split: pc.splits bind_splits if_splits)
  ultimately show ?thesis
    using remaining_update [OF t] by (metis length_list_update length_pcs)
qed


lemma thread_enabled:
  assumes "t < length (threads s)" and "\<not> outside (pcs s ! t)"
  shows "\<exists>b. (\<forall>nr. b \<noteq> Call nr) \<and> stub_step supported t b s \<noteq> Disabled"
proof -
  have c: "pc (threads s ! t) = pcs s ! t" using assms(1) by (simp add: pcs_nth)
  show ?thesis
  proof (cases "pcs s ! t")
    case Entered then show ?thesis by (intro exI [of _ CountIn]) (simp add: c)
  next
    case Counted then show ?thesis by (intro exI [of _ "CheckRegistered False"]) (simp add: c)
  next
    case Registered then show ?thesis by (intro exI [of _ TakeToken]) (simp add: c)
  next
    case Throttled then show ?thesis by (intro exI [of _ "Allocate 0"]) (simp add: c)
  next
    case (Holding p) then show ?thesis by (intro exI [of _ Link]) (simp add: c)
  next
    case (Waiting p) then show ?thesis by (intro exI [of _ Evaluate]) (simp add: c)
  next
    case (Checking p) then show ?thesis by (intro exI [of _ ReadFlag]) (simp add: c)
  next
    case (Woke p r) then show ?thesis by (intro exI [of _ Recheck]) (simp add: c)
  next
    case (Exiting p r) then show ?thesis by (intro exI [of _ SetExited]) (simp add: c)
  next
    case (Measuring r) then show ?thesis by (intro exI [of _ "Measure 0"]) (simp add: c)
  next
    case Failing then show ?thesis by (intro exI [of _ Abort]) (simp add: c)
  next
    case (Leaving v) then show ?thesis by (intro exI [of _ CountOut]) (simp add: c)
  qed (use assms(2) in simp)
qed

lemma thread_can_step:
  assumes inv: "safety_inv supported s" and off: "\<not> working s" and t: "t < length (threads s)" "\<not> outside (pcs s ! t)"
  shows "\<exists>b s'. step supported (Thread t b) s = Next s' \<and> safety_inv supported s' \<and> \<not> working s' \<and> remaining s' < remaining s"
proof -
  obtain b where b: "\<And>nr. b \<noteq> Call nr" "stub_step supported t b s \<noteq> Disabled"
    using thread_enabled [OF t, of supported] by blast
  then obtain s' where s': "stub_step supported t b s = Next s'" "safety_inv supported s'"
    using stub_step_safe [OF inv t(1), of b] by (cases "stub_step supported t b s") auto
  then show ?thesis
    using stub_step_decreases [OF off t(1) s'(1) b(1)] t(1) by auto
qed

lemma drain_schedule:
  assumes "safety_inv supported s" and "\<not> working s"
  shows "\<exists>as s'. run supported as s = Next s' \<and> length as \<le> remaining s \<and> (\<forall>a \<in> set as. \<exists>t b. a = Thread t b) \<and>
    safety_inv supported s' \<and> \<not> working s' \<and> all_outside s'"
  using assms
proof (induction "remaining s" arbitrary: s rule: less_induct)
  case less
  show ?case
  proof (cases "all_outside s")
    case True
    then show ?thesis using less.prems by (intro exI [of _ "[]"] exI [of _ s]) simp
  next
    case False
    then obtain t where t: "t < length (threads s)" "\<not> outside (pcs s ! t)"
      by (auto simp: all_outside_def in_set_conv_nth)
    obtain b s1 where s1: "step supported (Thread t b) s = Next s1" "safety_inv supported s1" "\<not> working s1"
      "remaining s1 < remaining s"
      using thread_can_step [OF less.prems t] by blast
    obtain as s' where as: "run supported as s1 = Next s'" "length as \<le> remaining s1" "\<forall>a \<in> set as. \<exists>t b. a = Thread t b"
      "safety_inv supported s'" "\<not> working s'" "all_outside s'"
      using less.hyps [OF s1(4,2,3)] by blast
    then show ?thesis
      using s1(1,4) by (intro exI [of _ "Thread t b # as"] exI [of _ s']) auto
  qed
qed

lemma all_outside_count: "all_outside s \<Longrightarrow> filter in_region (pcs s) = []"
  unfolding all_outside_def filter_empty_conv by (metis in_region.simps(1) outside.elims(2))

section \<open>Properties\<close>

text \<open>The state in which \<open>sysThrot_init\<close> leaves the core before it turns the monitor on.\<close>

definition loaded :: "thread list \<Rightarrow> int \<Rightarrow> (nat \<Rightarrow> bool) \<Rightarrow> (nat \<Rightarrow> bool) \<Rightarrow> throttle" where
  "loaded ths n slab_ok stats_ok = \<lparr>threads = ths, working = False, threads_in_module = 0, current_epoch_tokens = 0,
     epoch = 0, max_syscalls_for_epoch = n,
     tqueue = \<lparr>slab = empty_heap slab_ok, queue_cache = False, global_queue = [], junk_list = [], current_in_queue = 0\<rparr>,
     stats = empty_statmon stats_ok, timer_pending = False, timer_callback_pc = CbIdle, admin_pc = AdminIdle,
     refill = 0, taken = 0, admitted = 0, released = 0\<rparr>"

definition fresh_threads :: "thread list \<Rightarrow> bool" where
  "fresh_threads ths \<longleftrightarrow> (\<forall>th \<in> set ths. pc th = Outside None)"

lemma loaded_safe:
  assumes "fresh_threads ths"
  shows "safety_inv supported (loaded ths n slab_ok stats_ok)"
proof -
  let ?s = "loaded ths n slab_ok stats_ok"
  have pcs: "pcs ?s ! t = Outside None" if "t < length ths" for t
    using assms that by (simp add: pcs_def loaded_def fresh_threads_def)
  have len: "length (pcs ?s) = length ths" by (simp add: pcs_def loaded_def)
  have out: "all_outside ?s"
    unfolding all_outside_def using pcs len by (metis in_set_conv_nth outside.simps(1))
  have sets: "unlinked_set (pcs ?s) = {}" "linked_set (pcs ?s) = {}" "exclusive (pcs ?s)"
    using pcs len by (auto simp: unlinked_set_def linked_set_def exclusive_def holds_def)
  have "holders_inv (pcs ?s) (tqueue ?s)"
    unfolding holders_inv_def sets using sets(3)
    by (simp add: queue_inv_def loaded_def) (simp add: empty_heap_def)
  moreover have "phase_inv ?s" using out by (simp add: phase_inv_def loaded_def timer_quiet_def)
  moreover have "count_inv ?s" using all_outside_count [OF out] by (simp add: count_inv_def) (simp add: loaded_def)
  ultimately show ?thesis by (simp add: safety_inv_def) (simp add: loaded_def)
qed

lemma loaded_quota: "0 \<le> n \<Longrightarrow> quota_inv n (loaded ths n slab_ok stats_ok)"
  by (simp add: quota_inv_def loaded_def)


definition one_thread :: "thread list" where
  "one_thread = [\<lparr>pc = Outside None, orig_ax = 39, regs_ax = 0, clock_in = 0, who = loader\<rparr>]"

lemma one_thread_fresh: "fresh_threads one_thread"
  by (simp add: fresh_threads_def one_thread_def)

text \<open>The state after a first turn-on.\<close>

definition started :: "thread list \<Rightarrow> int \<Rightarrow> throttle" where
  "started ths n = (loaded ths n (\<lambda>_. True) (\<lambda>_. True))\<lparr>
     tqueue := \<lparr>slab = empty_heap (\<lambda>_. True), queue_cache = True, global_queue = [], junk_list = [], current_in_queue = 0\<rparr>,
     admin_pc := AdminIdle, timer_pending := True, working := True\<rparr>"

lemma run_started: "run supported [TurnOn True, Admin, Admin] (loaded ths n (\<lambda>_. True) (\<lambda>_. True)) = Next (started ths n)"
  by (simp add: loaded_def turn_on_def init_queue_def started_def)

lemma started_reached: "reaches supported (loaded ths n (\<lambda>_. True) (\<lambda>_. True)) (started ths n)"
proof -
  let ?l = "loaded ths n (\<lambda>_. True) (\<lambda>_. True)"
  let ?q = "\<lparr>slab = empty_heap (\<lambda>_. True), queue_cache = True, global_queue = [], junk_list = [], current_in_queue = 0\<rparr>"
  have 1: "reaches supported ?l (?l\<lparr>tqueue := ?q, admin_pc := OnReady\<rparr>)"
    by (rule reaches_step [OF reaches_refl, where a = "TurnOn True"])
      (simp_all add: well_timed_def loaded_def turn_on_def init_queue_def)
  have 2: "reaches supported ?l (?l\<lparr>tqueue := ?q, admin_pc := OnArmed, timer_pending := True\<rparr>)"
    by (rule reaches_step [OF 1, where a = Admin]) (simp_all add: well_timed_def loaded_def)
  show ?thesis
    by (rule reaches_step [OF 2, where a = Admin]) (simp_all add: well_timed_def loaded_def started_def)
qed

text \<open>Runs in which every action is well timed, and a run that puts a thread to sleep in the queue.\<close>

fun timed :: "nat \<Rightarrow> action list \<Rightarrow> throttle \<Rightarrow> bool" where
  "timed supported [] s = True"
| "timed supported (a # as) s =
     (well_timed a s \<and> (case step supported a s of Next s \<Rightarrow> timed supported as s | _ \<Rightarrow> True))"

lemma timed_run_reaches:
  "reaches supported s0 s \<Longrightarrow> timed supported as s \<Longrightarrow> run supported as s = Next s' \<Longrightarrow> reaches supported s0 s'"
  by (induction as arbitrary: s) (auto split: outcome.splits intro: reaches_step)

definition queue_up :: "action list" where
  "queue_up = [Thread 0 (Call 39), Thread 0 CountIn, Thread 0 (CheckRegistered True), Thread 0 TakeToken,
     Thread 0 (Allocate 0), Thread 0 Link]"

lemmas run_defs = begin_call_def goto_def take_token_def allocate_def link_element_def queue_alloc_def queue_link_def
  kmalloc_def empty_heap_def turn_off_def well_timed_def pcs_def outcome_of_def Let_def

lemma queue_up_then_off:
  "\<exists>s. run 400 (queue_up @ [TurnOff]) (started one_thread 0) = Next s \<and>
     timed 400 (queue_up @ [TurnOff]) (started one_thread 0) \<and> \<not> working s \<and> pcs s = [Waiting 0x1000]"
  by (simp add: queue_up_def started_def loaded_def one_thread_def run_defs)

lemma queued_off_reached:
  obtains s where "reaches 400 (loaded one_thread 0 (\<lambda>_. True) (\<lambda>_. True)) s" "\<not> working s" "pcs s = [Waiting 0x1000]"
  using queue_up_then_off timed_run_reaches [OF started_reached] by blast

text \<open>C2: No use after free. In every state that a well-timed run reaches, whatever the interleaving, the
  element a waiting thread watches is allocated, on one of the queue's lists and not marked as left,
  no two threads share one, and no action (allocation failures, signals and turn-off included) faults.\<close>

theorem throttle_no_use_after_free:
  assumes "fresh_threads ths" and "reaches supported (loaded ths n slab_ok stats_ok) s"
  shows "(\<forall>a. well_timed a s \<longrightarrow> step supported a s \<noteq> Fault) \<and>
    (\<forall>t < length (threads s). \<forall>p. linked (pc (threads s ! t)) = Some p \<longrightarrow>
       p \<in> dom (mem (slab (tqueue s))) \<and> in_lists (tqueue s) p \<and> \<not> has_exited (tqueue s) p) \<and>
    exclusive (pcs s)"
proof -
  have inv: "safety_inv supported s" by (rule reaches_safe [OF assms(2) loaded_safe [OF assms(1)]])
  note hold = safety_invD(1) [OF inv]
  have "step supported a s \<noteq> Fault" if "well_timed a s" for a
    using step_safe [OF inv that] by auto
  moreover have "p \<in> dom (mem (slab (tqueue s))) \<and> in_lists (tqueue s) p \<and> \<not> has_exited (tqueue s) p"
    if "t < length (threads s)" "linked (pc (threads s ! t)) = Some p" for t p
    using holders_invD(3) [OF hold, of t p] in_lists_live [OF holders_invD(2) [OF hold]] that by (simp add: pcs_nth)
  ultimately show ?thesis using holders_invD(1) [OF hold] by blast
qed

theorem throttle_no_use_after_free_witness:
  "\<exists>s. reaches 400 (loaded one_thread 0 (\<lambda>_. True) (\<lambda>_. True)) s \<and> pcs s = [Waiting 0x1000] \<and>
     0x1000 \<in> dom (mem (slab (tqueue s))) \<and> (\<forall>a. well_timed a s \<longrightarrow> step 400 a s \<noteq> Fault)"
proof -
  obtain s where s: "reaches 400 (loaded one_thread 0 (\<lambda>_. True) (\<lambda>_. True)) s" "pcs s = [Waiting 0x1000]"
    using queued_off_reached by metis
  have "0 < length (threads s)" using arg_cong [OF s(2), of length] by simp
  then have "pc (threads s ! 0) = Waiting 0x1000" using pcs_nth [of 0 s] unfolding s(2) by simp
  then have "linked (pc (threads s ! 0)) = Some 0x1000" by simp
  then show ?thesis
    using throttle_no_use_after_free [OF one_thread_fresh s(1)] s \<open>0 < length (threads s)\<close> by blast
qed

text \<open>C1: The quota. In every epoch the calls let through by a token and the waiting threads released at
  its start are together at most \<open>max_syscalls_for_epoch\<close>, as long as fewer than \<open>2^31\<close> tokens are requested in
  the epoch (the atomic counter has 32 bits and wraps around).\<close>

theorem throttle_quota:
  assumes "fresh_threads ths" and "reaches supported (loaded ths n slab_ok stats_ok) s" and "0 \<le> n" and "n < 2 ^ 31"
    and "taken s < 2 ^ 31"
  shows "released s + int (admitted s) \<le> n \<and> 0 \<le> released s"
proof -
  have "quota_inv n s"
    by (rule reaches_quota [OF assms(2) loaded_safe [OF assms(1)] loaded_quota [OF assms(3)] assms(3,4)])
  then show ?thesis using assms(5) unfolding quota_inv_def by linarith
qed

theorem throttle_quota_witness:
  "released (started one_thread 5) + int (admitted (started one_thread 5)) \<le> 5"
  using throttle_quota [OF one_thread_fresh started_reached, of 5] by (simp add: started_def loaded_def)

text \<open>C3: \<open>threads_in_module\<close> is exactly the number of threads between their increment and their decrement of it;
  and once \<open>sysThrot_turn_off\<close> has returned, no thread is in the stub, nobody is queued, and the
  timer neither runs nor is pending.\<close>

theorem throttle_count_and_off:
  assumes "fresh_threads ths" and "reaches supported (loaded ths n slab_ok stats_ok) s"
  shows "threads_in_module s = int (length (filter (\<lambda>th. in_region (pc th)) (threads s))) \<and>
    (\<not> working s \<and> admin_pc s = AdminIdle \<longrightarrow>
       (\<forall>th \<in> set (threads s). outside (pc th)) \<and> global_queue (tqueue s) = [] \<and>
       \<not> timer_pending s \<and> timer_callback_pc s = CbIdle)"
proof -
  have inv: "safety_inv supported s" by (rule reaches_safe [OF assms(2) loaded_safe [OF assms(1)]])
  have "threads_in_module s = int (length (filter (\<lambda>th. in_region (pc th)) (threads s)))"
    using safety_invD(3) [OF inv] by (simp add: count_inv_def pcs_def filter_map comp_def)
  then show ?thesis
    using safety_invD(4) [OF inv] by (auto simp: phase_inv_def all_outside_def timer_quiet_def pcs_def)
qed

theorem throttle_count_and_off_witness:
  "threads_in_module (started one_thread 1) = 0"
  using throttle_count_and_off [OF one_thread_fresh started_reached] by (simp add: started_def loaded_def one_thread_def)




text \<open>\<open>sysThrot_turn_on\<close> ignores the result of \<open>init_queue\<close>: when the cache cannot be created the monitor is
  turned on all the same, and the first thread to be queued faults.\<close>

lemma failed_cache_creation_faults:
  "run supported [TurnOn False, Admin, Admin, Thread 0 (Call 39), Thread 0 CountIn,
     Thread 0 (CheckRegistered True), Thread 0 TakeToken, Thread 0 (Allocate 0)]
     (loaded one_thread 0 slab_ok stats_ok) = Fault"
  by (simp add: loaded_def one_thread_def run_defs turn_on_def init_queue_def)

section \<open>Elements that are never freed\<close>

text \<open>An element on the junk list that its thread has not marked and no thread holds any more.\<close>

definition leaked :: "throttle \<Rightarrow> addr \<Rightarrow> bool" where
  "leaked s p \<longleftrightarrow> p \<in> set (junk_list (tqueue s)) \<and> \<not> has_exited (tqueue s) p \<and> p \<notin> linked_set (pcs s)"

lemma linked_set_update: "linked_set (ps[t := c]) \<subseteq> linked_set ps \<union> set_option (linked c)"
proof
  fix p assume "p \<in> linked_set (ps[t := c])"
  then obtain u where u: "u < length ps" "linked (ps[t := c] ! u) = Some p" by (auto simp: linked_set_def)
  then show "p \<in> linked_set ps \<union> set_option (linked c)"
    by (cases "u = t") (auto simp: linked_set_def)
qed

lemma linked_set_nth: "t < length ps \<Longrightarrow> linked (ps ! t) = Some p \<Longrightarrow> p \<in> linked_set ps"
  by (auto simp: linked_set_def)

lemma leaked_move:
  assumes "leaked s p" and "t < length (threads s)" and "pcs s' = (pcs s)[t := c]"
    and "set_option (linked c) \<subseteq> set_option (linked (pcs s ! t)) \<union> unlinked_set (pcs s)" and "safety_inv supported s"
    and "p \<in> set (junk_list (tqueue s'))" and "\<not> has_exited (tqueue s') p"
  shows "leaked s' p"
proof -
  have "p \<notin> unlinked_set (pcs s)"
    using in_lists_live [OF holders_invD(2) [OF safety_invD(1) [OF assms(5)]]] assms(1)
    by (auto simp: leaked_def in_lists_def)
  moreover have "p \<notin> linked_set (pcs s)" "p \<notin> set_option (linked (pcs s ! t))"
    using assms(1,2) linked_set_nth [of t "pcs s" p] by (auto simp: leaked_def)
  ultimately have "p \<notin> linked_set (pcs s')"
    using linked_set_update [of "pcs s" t c] assms(3,4) by auto
  then show ?thesis using assms(6,7) by (simp add: leaked_def)
qed


lemma stub_step_queue_same:
  assumes "stub_step supported t a s = Next s'" and "t < length (threads s)"
    and "a \<noteq> Link" and "a \<noteq> SetExited" and "\<And>now. a \<noteq> Allocate now"
  shows "tqueue s' = tqueue s \<and> (\<exists>c. pcs s' = (pcs s)[t := c] \<and> set_option (linked c) \<subseteq> set_option (linked (pcs s ! t)))"
proof (cases "a = TakeToken")
  case True
  then have "s' = take_token t s" using assms(1) by (auto split: pc.splits)
  moreover have "tqueue (take_token t s) = tqueue s" by (simp add: take_token_def Let_def)
  ultimately show ?thesis using pcs_take_token [of t s] by (elim disjE) (auto intro!: exI)
next
  case False
  have c: "pc (threads s ! t) = pcs s ! t" using assms(2) by (simp add: pcs_nth)
  show ?thesis
    using assms False
    by (cases a) (auto simp: c evaluate_def read_flag_def measure_delay_def abort_call_def pcs_begin_call pcs_clock Let_def
        split: pc.splits bind_splits if_splits intro!: exI)
qed

lemma leaked_thread_step:
  assumes inv: "safety_inv supported s" and leak: "leaked s p" and t: "t < length (threads s)"
    and step: "stub_step supported t a s = Next s'"
  shows "leaked s' p"
proof -
  have c: "pc (threads s ! t) = pcs s ! t" using t by (simp add: pcs_nth)
  note hold = safety_invD(1) [OF inv]
  note qi = holders_invD(2) [OF hold]
  have p: "p \<in> set (junk_list (tqueue s))" "\<not> has_exited (tqueue s) p" "p \<in> dom (mem (slab (tqueue s)))" "p \<notin> unlinked_set (pcs s)"
    using leak in_lists_live [OF qi, of p] by (auto simp: leaked_def in_lists_def)
  consider now where "a = Allocate now" | "a = Link" | "a = SetExited" | "a \<noteq> Link" "a \<noteq> SetExited" "\<And>now. a \<noteq> Allocate now"
    by blast
  then show ?thesis
  proof cases
    case (1 now)
    then have th: "pcs s ! t = Throttled" "allocate t now s = Some s'" using step by (auto simp: c split: pc.splits)
    have cache: "queue_cache (tqueue s)" using cache_exists [OF inv t] th by simp
    from qi cache show ?thesis
    proof (cases rule: queue_alloc_cases)
      case (fail q)
      then show ?thesis using th p
        by (intro leaked_move [OF leak t, of _ Failing, OF _ _ inv])
          (auto simp: allocate_def pcs_clock has_exited_def)
    next
      case (ok r q)
      then show ?thesis using th p
        by (intro leaked_move [OF leak t, of _ "Holding r", OF _ _ inv])
          (auto simp: allocate_def pcs_clock has_exited_def split: if_splits)
    qed
  next
    case 2
    then obtain r where r: "pcs s ! t = Holding r" "link_element t r s = Some s'"
      using step by (auto simp: c split: pc.splits)
    then have "r \<in> unlinked_set (pcs s)" using t by (auto simp: unlinked_set_def)
    then show ?thesis using r p
      by (cases "working s"; intro leaked_move [OF leak t, of _ "if working s then Waiting r else Leaving 0", OF _ _ inv])
        (auto simp: link_element_def queue_link_def kmem_cache_free_def kfree_def has_exited_def
          split: bind_splits option.splits if_splits)
  next
    case 3
    then obtain r v where r: "pcs s ! t = Exiting r v" "set_exited t r v s = Some s'"
      using step by (auto simp: c split: pc.splits)
    have "p \<noteq> r" using leak linked_set_nth [of t "pcs s" r] r(1) t by (auto simp: leaked_def)
    then show ?thesis using r p
      by (intro leaked_move [OF leak t, of _ "if v = - ERESTARTSYS then Failing else Measuring v", OF _ _ inv])
        (auto simp: set_exited_def set_exited_flag_def store_obj_def load_def has_exited_def split: bind_splits option.splits)
  next
    case 4
    obtain d where d: "tqueue s' = tqueue s" "pcs s' = (pcs s)[t := d]" "set_option (linked d) \<subseteq> set_option (linked (pcs s ! t))"
      using stub_step_queue_same [OF step t 4] by blast
    then show ?thesis using p by (intro leaked_move [OF leak t d(2) _ inv]) auto
  qed
qed


lemma leaked_queue:
  "leaked s p \<Longrightarrow> pcs s' = pcs s \<Longrightarrow> p \<in> set (junk_list (tqueue s')) \<Longrightarrow> \<not> has_exited (tqueue s') p \<Longrightarrow> leaked s' p"
  by (simp add: leaked_def)

lemma leaked_step:
  assumes inv: "safety_inv supported s" and leak: "leaked s p" and step: "step supported a s = Next s'"
    and timed: "well_timed a s"
  shows "leaked s' p"
proof -
  note qi = holders_invD(2) [OF safety_invD(1) [OF inv]]
  have p: "p \<in> set (junk_list (tqueue s))" "\<not> has_exited (tqueue s) p" using leak by (simp_all add: leaked_def)
  have unq: "\<not> has_exited (unqueued n (tqueue s)) p" "p \<in> set (junk_list (unqueued n (tqueue s)))" for n
    using p mark_woken_exited [of "unqueued n (tqueue s)" _ "tqueue s"] by (simp_all add: unqueued_def Let_def)
  have woke: "\<not> has_exited (all_woken (tqueue s)) p" "p \<in> set (junk_list (all_woken (tqueue s)))"
    using p mark_woken_exited [of "all_woken (tqueue s)" _ "tqueue s"] by (simp_all add: all_woken_def)
  have freed: "\<not> has_exited (junk_freed (tqueue s)) p" "p \<in> set (junk_list (junk_freed (tqueue s)))"
    using p by (simp_all add: junk_freed_has_exited)
  have cache: "has_exited (q\<lparr>queue_cache := b\<rparr>) p = has_exited q p" for q b
    by (simp add: has_exited_def)
  show ?thesis
  proof (cases a)
    case (Thread t b)
    then show ?thesis using leaked_thread_step [OF inv leak] step by (simp split: if_splits)
  next
    case Timer
    then have b: "timer_step s (timer_callback_pc s) = Next s'" using step by simp
    show ?thesis
    proof (cases "timer_callback_pc s")
      case CbIdle
      then show ?thesis
        using b unqueue_eq [OF qi] unq by (intro leaked_queue [OF leak]) (auto simp: start_epoch_def split: if_splits)
    next
      case CbFree
      then show ?thesis
        using b free_junk_eq [OF qi] timer_cache [OF inv] freed by (intro leaked_queue [OF leak]) auto
    qed (use b p in \<open>intro leaked_queue [OF leak]; auto simp: Let_def split: bind_splits\<close>)+
  next
    case (TurnOn created)
    then show ?thesis
      using step p by (intro leaked_queue [OF leak]) (auto simp: turn_on_def init_queue_def cache Let_def split: if_splits)
  next
    case TurnOff
    then show ?thesis
      using step p by (intro leaked_queue [OF leak]) (auto simp: turn_off_def split: if_splits)
  next
    case Admin
    then have b: "admin_step s (admin_pc s) = Next s'" using step by simp
    show ?thesis
    proof (cases "admin_pc s")
      case OffTimer
      then show ?thesis
        using b wake_up_queue_eq [OF qi] woke by (intro leaked_queue [OF leak]) (auto simp: wake_up_everyone_def)
    next
      case OffDestroy
      then have "queue_cache (tqueue s)" using safety_invD(4) [OF inv] by (simp add: phase_inv_def)
      then show ?thesis
        using b OffDestroy free_junk_eq [OF qi] freed
        by (intro leaked_queue [OF leak]) (auto simp: destroy_def destroy_queue_def cache)
    qed (use b p in \<open>intro leaked_queue [OF leak]; auto split: if_splits\<close>)+
  qed
qed

lemma leaked_forever: "reaches supported s s' \<Longrightarrow> safety_inv supported s \<Longrightarrow> leaked s p \<Longrightarrow> leaked s' p"
proof (induction rule: reaches.induct)
  case (reaches_step s1 a s2)
  then show ?case using leaked_step reaches_safe by blast
qed

text \<open>C26: A thread that finds the monitor turned off when it wakes up leaves without setting \<open>exited\<close>. Its
  element is then allocated and on the junk list in every state that can follow: neither \<open>free_junk\<close>, nor
  \<open>destroy_queue\<close>, nor turning the monitor on again ever frees it.\<close>

theorem leaked_element_never_freed:
  assumes "fresh_threads ths" and "reaches supported (loaded ths n slab_ok stats_ok) s" and "leaked s p"
    and "reaches supported s s'"
  shows "p \<in> dom (mem (slab (tqueue s'))) \<and> p \<in> set (junk_list (tqueue s')) \<and> \<not> has_exited (tqueue s') p"
proof -
  have inv: "safety_inv supported s" by (rule reaches_safe [OF assms(2) loaded_safe [OF assms(1)]])
  have "safety_inv supported s'" by (rule reaches_safe [OF assms(4) inv])
  then show ?thesis
    using leaked_forever [OF assms(4) inv assms(3)] in_lists_live holders_invD(2) safety_invD(1)
    unfolding leaked_def in_lists_def by blast
qed

definition sleep_through_off :: "action list" where
  "sleep_through_off = queue_up @
     [TurnOff, Admin, Admin, Thread 0 Evaluate, Thread 0 Recheck, Thread 0 CountOut, Admin, Admin]"

lemma waiter_leaks:
  "\<exists>s. run 0 sleep_through_off (started one_thread 0) = Next s \<and> timed 0 sleep_through_off (started one_thread 0) \<and>
     leaked s 0x1000 \<and> \<not> working s \<and> admin_pc s = AdminIdle"
  by (simp add: sleep_through_off_def queue_up_def started_def loaded_def one_thread_def run_defs wake_up_everyone_def
      wake_up_queue_def set_wake_up_def load_def store_obj_def evaluate_def sysThrot_add_ctx_switch_def with_entry_def
      destroy_def destroy_queue_def free_junk_def leaked_def linked_set_def has_exited_def)

theorem leaked_element_never_freed_witness:
  "\<exists>s. reaches 0 (loaded one_thread 0 (\<lambda>_. True) (\<lambda>_. True)) s \<and> \<not> working s \<and> admin_pc s = AdminIdle \<and>
     (\<forall>s'. reaches 0 s s' \<longrightarrow> 0x1000 \<in> dom (mem (slab (tqueue s'))))"
proof -
  obtain s where s: "run 0 sleep_through_off (started one_thread 0) = Next s"
    "timed 0 sleep_through_off (started one_thread 0)" "leaked s 0x1000" "\<not> working s" "admin_pc s = AdminIdle"
    using waiter_leaks by blast
  have "reaches 0 (loaded one_thread 0 (\<lambda>_. True) (\<lambda>_. True)) s"
    by (rule timed_run_reaches [OF started_reached s(2,1)])
  then show ?thesis
    using leaked_element_never_freed [OF one_thread_fresh _ s(3)] s(4,5) by blast
qed

end
