(* ===== verification/Control.thy ===== *)
theory Control
  imports Throttle
begin

text \<open>
  \<open>sysThrot_turn_on\<close> and \<open>sysThrot_turn_off\<close> (\<open>sysThrot.c\<close>, lines 564-596) as complete calls. A call starts with
  the test of \<open>working\<close>, and then its remaining operations (\<open>admin_step\<close>) are interleaved with steps of the
  threads and of the timer; \<open>sched\<close> is that interleaving, and the call returns when the administrator is idle
  again. \<open>None\<close> is a fault, or a schedule in which the call does not return.
\<close>

section \<open>Calls\<close>

fun complete :: "nat \<Rightarrow> action list \<Rightarrow> throttle \<Rightarrow> throttle option" where
  "complete supported [] s = (if admin_pc s = AdminIdle then Some s else None)"
| "complete supported (a # as) s =
     (if admin_pc s = AdminIdle then Some s
      else case step supported a s of Next s \<Rightarrow> complete supported as s | _ \<Rightarrow> None)"

text \<open>\<open>timer_setup\<close> initialises a timer that is not pending, so \<open>mod_timer\<close> returns 0 after it and the error branch
  of \<open>sysThrot_turn_on\<close> is not taken.\<close>

definition sysThrot_turn_on :: "nat \<Rightarrow> bool \<Rightarrow> action list \<Rightarrow> throttle \<Rightarrow> (int \<times> throttle) option" where
  "sysThrot_turn_on supported created sched s =
     (if working s then Some (- EALREADY, s)
      else do { s \<leftarrow> complete supported sched (turn_on created s); Some (0, s) })"

definition sysThrot_turn_off :: "nat \<Rightarrow> action list \<Rightarrow> throttle \<Rightarrow> (int \<times> throttle) option" where
  "sysThrot_turn_off supported sched s =
     (if \<not> working s then Some (- EALREADY, s)
      else do { s \<leftarrow> complete supported sched (turn_off s); Some (0, s) })"

section \<open>Schedules\<close>

fun background :: "action \<Rightarrow> bool" where
  "background (Thread t a) = True"
| "background Timer = True"
| "background _ = False"

lemma stub_step_admin:
  "stub_step supported t b s = Next s' \<Longrightarrow> admin_pc s' = admin_pc s"
  by (cases b)
    (auto simp: take_token_def allocate_def link_element_def evaluate_def read_flag_def set_exited_def measure_delay_def
      abort_call_def Let_def bind_eq_Some_conv split: pc.splits prod.splits if_splits)

lemma timer_step_admin:
  "timer_step s c = Next s' \<Longrightarrow> admin_pc s' = admin_pc s \<and> working s' = working s"
  by (cases c) (auto simp: start_epoch_def Let_def bind_eq_Some_conv split: prod.splits if_splits)

lemma background_admin:
  "background a \<Longrightarrow> step supported a s = Next s' \<Longrightarrow> admin_pc s' = admin_pc s"
  by (cases a) (auto dest: stub_step_admin timer_step_admin split: if_splits)

lemma run_background_admin:
  "run supported as s = Next s' \<Longrightarrow> \<forall>a \<in> set as. background a \<Longrightarrow> admin_pc s' = admin_pc s"
proof (induction as arbitrary: s)
  case (Cons a as)
  then obtain s1 where "step supported a s = Next s1" "run supported as s1 = Next s'"
    by (auto split: outcome.splits)
  then show ?case using Cons.IH [of s1] Cons.prems(2) background_admin [of a supported s s1] by simp
qed simp

text \<open>However the other parties are interleaved, the monitor is off when \<open>sysThrot_turn_off\<close> has returned.\<close>

lemma stub_step_working: "stub_step supported t b s = Next s' \<Longrightarrow> working s' = working s"
  by (cases b)
    (auto simp: begin_call_def take_token_def allocate_def link_element_def evaluate_def read_flag_def set_exited_def measure_delay_def
      abort_call_def goto_def Let_def bind_eq_Some_conv outcome_of_def split: pc.splits prod.splits if_splits option.splits)

definition going_off :: "throttle \<Rightarrow> bool" where
  "going_off s \<longleftrightarrow> \<not> working s \<and> admin_pc s \<in> {OffStarted, OffTimer, OffDrain, OffDestroy, AdminIdle}"

lemma going_off_step:
  assumes "going_off s" and "admin_pc s \<noteq> AdminIdle" and "step supported a s = Next s'"
  shows "going_off s'"
proof (cases a)
  case (Thread t b)
  then show ?thesis
    using assms stub_step_working [of supported t b s s'] stub_step_admin [of supported t b s s'] by (auto simp: going_off_def split: if_splits)
next
  case Timer
  then show ?thesis
    using assms by (cases "timer_callback_pc s")
      (auto simp: going_off_def start_epoch_def Let_def bind_eq_Some_conv outcome_of_def split: if_splits option.splits prod.splits)
next
  case Admin
  then show ?thesis
    using assms by (cases "admin_pc s")
      (auto simp: going_off_def wake_up_everyone_def destroy_def bind_eq_Some_conv outcome_of_def split: if_splits option.splits prod.splits)
qed (use assms in \<open>auto split: if_splits\<close>)

lemma complete_going_off: "complete supported as s = Some s' \<Longrightarrow> going_off s \<Longrightarrow> going_off s'"
  by (induction as arbitrary: s) (auto dest: going_off_step split: if_splits outcome.splits)

lemma turn_off_result: "sysThrot_turn_off supported sched s = Some (c, s') \<Longrightarrow> \<not> working s'"
  using complete_going_off [of supported sched "turn_off s" s']
  by (auto simp: sysThrot_turn_off_def turn_off_def going_off_def bind_eq_Some_conv split: if_splits)

lemma complete_background:
  "run supported as s = Next s' \<Longrightarrow> \<forall>a \<in> set as. background a \<Longrightarrow> admin_pc s \<noteq> AdminIdle \<Longrightarrow>
   complete supported (as @ bs) s = complete supported bs s'"
  by (induction as arbitrary: s) (auto simp: background_admin split: outcome.splits)

lemma background_reaches:
  "reaches supported s0 s \<Longrightarrow> \<forall>a \<in> set as. background a \<Longrightarrow> run supported as s = Next s' \<Longrightarrow> reaches supported s0 s'"
proof (induction as arbitrary: s)
  case (Cons a as)
  then obtain s1 where s1: "step supported a s = Next s1" "run supported as s1 = Next s'"
    by (auto split: outcome.splits)
  have "well_timed a s" using Cons.prems(2) by (cases a) (auto simp: well_timed_def)
  then have "reaches supported s0 s1" using reaches_step [OF Cons.prems(1)] s1(1) by blast
  then show ?case using Cons.IH [of s1] Cons.prems(2) s1(2) by simp
qed simp

text \<open>A running callback ends: it has at most five steps left.\<close>

fun callback_left :: "callback \<Rightarrow> nat" where
  "callback_left CbIdle = 0"
| "callback_left CbFree = 1"
| "callback_left CbRearm = 2"
| "callback_left (CbRefill _) = 3"
| "callback_left (CbEpoch _) = 4"
| "callback_left (CbStats _) = 5"

lemma callback_step:
  assumes "safety_inv supported s" and "timer_callback_pc s \<noteq> CbIdle"
  shows "\<exists>s'. step supported Timer s = Next s' \<and> safety_inv supported s' \<and>
    callback_left (timer_callback_pc s') < callback_left (timer_callback_pc s)"
  using timer_step_safe [OF assms(1)] assms(2)
  by (cases "timer_callback_pc s") (auto simp: safe_outcome_of Let_def bind_eq_Some_conv)

lemma callback_ends:
  assumes "safety_inv supported s"
  shows "\<exists>n s'. run supported (replicate n Timer) s = Next s' \<and> safety_inv supported s' \<and> timer_callback_pc s' = CbIdle \<and>
    admin_pc s' = admin_pc s \<and> working s' = working s"
  using assms
proof (induction "callback_left (timer_callback_pc s)" arbitrary: s rule: less_induct)
  case less
  show ?case
  proof (cases "timer_callback_pc s = CbIdle")
    case True
    then show ?thesis using less.prems by (intro exI [of _ 0]) simp
  next
    case False
    then obtain s1 where s1: "step supported Timer s = Next s1" "safety_inv supported s1"
      "callback_left (timer_callback_pc s1) < callback_left (timer_callback_pc s)"
      using callback_step [OF less.prems] by blast
    obtain n s' where n: "run supported (replicate n Timer) s1 = Next s'" "safety_inv supported s'" "timer_callback_pc s' = CbIdle"
      "admin_pc s' = admin_pc s1" "working s' = working s1"
      using less.hyps [OF s1(3,2)] by blast
    then show ?thesis
      using s1(1) timer_step_admin [of s _ s1] by (intro exI [of _ "Suc n"] exI [of _ s']) simp
  qed
qed

text \<open>From \<open>s\<close> the administrator's call can return in \<open>s'\<close>, by well-timed steps.\<close>

definition returns :: "nat \<Rightarrow> throttle \<Rightarrow> throttle \<Rightarrow> throttle \<Rightarrow> bool" where
  "returns supported s0 s s' \<longleftrightarrow>
     (\<exists>as. complete supported as s = Some s' \<and> (reaches supported s0 s \<longrightarrow> reaches supported s0 s'))"

lemma returns_now: "admin_pc s = AdminIdle \<Longrightarrow> returns supported s0 s s"
  unfolding returns_def by (rule exI [of _ "[]"]) simp

lemma returns_background:
  assumes "run supported as s = Next s1" and "\<forall>a \<in> set as. background a" and "admin_pc s \<noteq> AdminIdle"
    and "returns supported s0 s1 s'"
  shows "returns supported s0 s s'"
proof -
  obtain bs where "complete supported bs s1 = Some s'" "reaches supported s0 s1 \<longrightarrow> reaches supported s0 s'"
    using assms(4) by (auto simp: returns_def)
  then have "complete supported (as @ bs) s = Some s' \<and> (reaches supported s0 s \<longrightarrow> reaches supported s0 s')"
    using complete_background [OF assms(1-3)] background_reaches [OF _ assms(2,1)] by simp
  then show ?thesis unfolding returns_def by (rule exI)
qed

lemma returns_admin:
  assumes "step supported Admin s = Next s1" and "well_timed Admin s" and "admin_pc s \<noteq> AdminIdle"
    and "returns supported s0 s1 s'"
  shows "returns supported s0 s s'"
proof -
  obtain bs where "complete supported bs s1 = Some s'" "reaches supported s0 s1 \<longrightarrow> reaches supported s0 s'"
    using assms(4) by (auto simp: returns_def)
  then have "complete supported (Admin # bs) s = Some s' \<and> (reaches supported s0 s \<longrightarrow> reaches supported s0 s')"
    using assms(1,3) reaches_step [OF _ assms(2,1)] by auto
  then show ?thesis unfolding returns_def by (rule exI)
qed

text \<open>The three stages of turning off: stopping the timer, waking everyone, and draining.\<close>

definition off_state :: "throttle \<Rightarrow> bool" where
  "off_state s \<longleftrightarrow> \<not> working s \<and> admin_pc s = AdminIdle \<and> \<not> queue_cache (tqueue s)"

lemma outcome_of_enabled [simp]: "outcome_of r \<noteq> Disabled"
  by (cases r) (simp_all add: outcome_of_def)

lemma admin_next:
  assumes "safety_inv supported s" and "well_timed Admin s" and "admin_step s (admin_pc s) \<noteq> Disabled"
  shows "\<exists>s'. step supported Admin s = Next s' \<and> safety_inv supported s'"
  using step_safe [OF assms(1,2)] assms(3) by (cases "step supported Admin s") auto

lemma off_destroy:
  assumes "safety_inv supported s" and "\<not> working s" and "admin_pc s = OffDestroy"
  shows "\<exists>s'. returns supported s0 s s' \<and> safety_inv supported s' \<and> off_state s'"
proof -
  have timed: "well_timed Admin s" using assms(3) by (simp add: well_timed_def)
  obtain s' where s': "step supported Admin s = Next s'" "safety_inv supported s'"
    using admin_next [OF assms(1) timed] assms(3) by auto
  then have "off_state s'"
    using assms(2,3) by (auto simp: destroy_def destroy_queue_def off_state_def bind_eq_Some_conv)
  then show ?thesis
    using returns_admin [OF s'(1) timed _ returns_now] s'(2) assms(3) by (auto simp: off_state_def)
qed

lemma off_drain:
  assumes "safety_inv supported s" and "\<not> working s" and "admin_pc s = OffDrain"
  shows "\<exists>s'. returns supported s0 s s' \<and> safety_inv supported s' \<and> off_state s'"
proof -
  obtain as s1 where as: "run supported as s = Next s1" "\<forall>a \<in> set as. \<exists>t b. a = Thread t b"
    "safety_inv supported s1" "\<not> working s1" "all_outside s1"
    using drain_schedule [OF assms(1,2)] by blast
  have bg: "\<forall>a \<in> set as. background a" using as(2) by fastforce
  have "admin_pc s1 = OffDrain" using run_background_admin [OF as(1) bg] assms(3) by simp
  moreover have "threads_in_module s1 = 0"
    using safety_invD(3) [OF as(3)] all_outside_count [OF as(5)] by (simp add: count_inv_def)
  moreover have timed: "well_timed Admin s1"
    using as(5) by (auto simp: well_timed_def all_outside_def)
  ultimately have s2: "step supported Admin s1 = Next (s1\<lparr>admin_pc := OffDestroy\<rparr>)" "admin_pc s1 \<noteq> AdminIdle"
    by simp_all
  have "safety_inv supported (s1\<lparr>admin_pc := OffDestroy\<rparr>)"
    using step_safe [OF as(3) timed] s2(1) by simp
  then obtain s' where s': "returns supported s0 (s1\<lparr>admin_pc := OffDestroy\<rparr>) s'" "safety_inv supported s'" "off_state s'"
    using off_destroy [of supported "s1\<lparr>admin_pc := OffDestroy\<rparr>" s0] as(4) by auto
  then show ?thesis
    using returns_background [OF as(1) bg _ returns_admin [OF s2(1) timed s2(2) s'(1)]] assms(3) by auto
qed

lemma off_call:
  assumes "safety_inv supported s" and "\<not> working s" and "admin_pc s = OffStarted"
  shows "\<exists>s'. returns supported s0 s s' \<and> safety_inv supported s' \<and> off_state s'"
proof -
  obtain n s1 where s1: "run supported (replicate n Timer) s = Next s1" "safety_inv supported s1" "timer_callback_pc s1 = CbIdle"
    "admin_pc s1 = OffStarted" "\<not> working s1"
    using callback_ends [OF assms(1)] assms(2,3) by auto
  let ?s2 = "s1\<lparr>timer_pending := False, admin_pc := OffTimer\<rparr>"
  have t1: "well_timed Admin s1" using s1(4) by (simp add: well_timed_def)
  have s2: "step supported Admin s1 = Next ?s2" using s1(3,4) by simp
  have i2: "safety_inv supported ?s2" using step_safe [OF s1(2) t1] s2 by simp
  have t2: "well_timed Admin ?s2" by (simp add: well_timed_def)
  obtain s3 where s3: "step supported Admin ?s2 = Next s3" "safety_inv supported s3"
    using admin_next [OF i2 t2] by auto
  then have "\<not> working s3" "admin_pc s3 = OffDrain"
    using s1(5) by (auto simp: wake_up_everyone_def bind_eq_Some_conv)
  then obtain s' where s': "returns supported s0 s3 s'" "safety_inv supported s'" "off_state s'"
    using off_drain [OF s3(2)] by blast
  have "returns supported s0 s1 s'"
    using returns_admin [OF s2 t1 _ returns_admin [OF s3(1) t2 _ s'(1)]] s1(4) by simp
  moreover have "\<forall>a \<in> set (replicate n Timer). background a" by simp
  ultimately show ?thesis
    using returns_background [OF s1(1)] assms(3) s'(2,3) by auto
qed

lemma on_call:
  assumes "\<not> working s" and "admin_pc s = AdminIdle"
  shows "\<exists>s'. returns supported s0 (turn_on True s) s' \<and> working s' \<and> timer_pending s' \<and> queue_cache (tqueue s')"
proof -
  let ?s1 = "turn_on True s" and ?s2 = "(turn_on True s)\<lparr>timer_pending := True, admin_pc := OnArmed\<rparr>"
  have on: "admin_pc ?s1 = OnReady" "queue_cache (tqueue ?s1)" using assms by (simp_all add: turn_on_def init_queue_def)
  let ?s' = "?s2\<lparr>working := True, admin_pc := AdminIdle\<rparr>"
  have s2: "step supported Admin ?s1 = Next ?s2" and s': "step supported Admin ?s2 = Next ?s'" using on by simp_all
  have t: "well_timed Admin ?s1" "well_timed Admin ?s2" using on by (simp_all add: well_timed_def)
  have now: "returns supported s0 ?s' ?s'" by (rule returns_now) simp
  have "returns supported s0 ?s1 ?s'"
    using returns_admin [OF s2 t(1) _ returns_admin [OF s' t(2) _ now]] on(1) by simp
  then show ?thesis using on(2) by (intro exI [of _ ?s']) simp
qed

section \<open>Property\<close>

lemma off_state_quiet:
  assumes "safety_inv supported s" and "off_state s"
  shows "(\<forall>th \<in> set (threads s). outside (pc th)) \<and> threads_in_module s = 0 \<and> global_queue (tqueue s) = [] \<and>
    \<not> timer_pending s \<and> timer_callback_pc s = CbIdle"
proof -
  have out: "all_outside s" "timer_quiet s" "global_queue (tqueue s) = []"
    using safety_invD(4) [OF assms(1)] assms(2) by (auto simp: phase_inv_def off_state_def)
  moreover have "threads_in_module s = 0"
    using safety_invD(3) [OF assms(1)] all_outside_count [OF out(1)] by (simp add: count_inv_def)
  ultimately show ?thesis by (auto simp: all_outside_def timer_quiet_def pcs_def)
qed

text \<open>C27: Both switches work. Whatever the threads and the timer are doing, a monitor that is on can be
  turned off: there is an interleaving in which \<open>sysThrot_turn_off\<close> returns 0 (its waiting loop does not
  block progress), after which no thread is in the stub, nobody is queued, the timer is stopped and the
  cache is destroyed; \<open>sysThrot_turn_on\<close> then returns 0 with the timer armed. The call that asks for
  the present state returns \<open>-EALREADY\<close> and changes nothing.\<close>

theorem switches_work:
  assumes "fresh_threads ths" and "reaches supported (loaded ths n slab_ok stats_ok) s" and "admin_pc s = AdminIdle"
  shows "if working s
    then sysThrot_turn_on supported created sched s = Some (- EALREADY, s) \<and>
      (\<exists>as s'. sysThrot_turn_off supported as s = Some (0, s') \<and> reaches supported (loaded ths n slab_ok stats_ok) s' \<and>
         \<not> working s' \<and> \<not> queue_cache (tqueue s') \<and> (\<forall>th \<in> set (threads s'). outside (pc th)) \<and> threads_in_module s' = 0 \<and>
         global_queue (tqueue s') = [] \<and> \<not> timer_pending s' \<and> timer_callback_pc s' = CbIdle)
    else sysThrot_turn_off supported sched s = Some (- EALREADY, s) \<and>
      (\<exists>as s'. sysThrot_turn_on supported True as s = Some (0, s') \<and> reaches supported (loaded ths n slab_ok stats_ok) s' \<and>
         working s' \<and> timer_pending s' \<and> queue_cache (tqueue s'))"
proof -
  let ?s0 = "loaded ths n slab_ok stats_ok"
  have inv: "safety_inv supported s" by (rule reaches_safe [OF assms(2) loaded_safe [OF assms(1)]])
  show ?thesis
  proof (cases "working s")
    case True
    have step: "step supported TurnOff s = Next (turn_off s)" using assms(3) by simp
    have timed: "well_timed TurnOff s" by (simp add: well_timed_def)
    have inv': "safety_inv supported (turn_off s)" using step_safe [OF inv timed] step by simp
    obtain s' where s': "returns supported ?s0 (turn_off s) s'" "safety_inv supported s'" "off_state s'"
      using off_call [OF inv'] True by (auto simp: turn_off_def)
    have "reaches supported ?s0 (turn_off s)" by (rule reaches_step [OF assms(2) timed step])
    then obtain as where as: "complete supported as (turn_off s) = Some s'" "reaches supported ?s0 s'"
      using s'(1) by (auto simp: returns_def)
    then have "sysThrot_turn_off supported as s = Some (0, s')" using True by (simp add: sysThrot_turn_off_def)
    then show ?thesis
      using True as(2) off_state_quiet [OF s'(2,3)] s'(3) by (auto simp: sysThrot_turn_on_def off_state_def)
  next
    case False
    have step: "step supported (TurnOn True) s = Next (turn_on True s)" using assms(3) by simp
    have timed: "well_timed (TurnOn True) s" by (simp add: well_timed_def)
    obtain s' where s': "returns supported ?s0 (turn_on True s) s'" "working s'" "timer_pending s'" "queue_cache (tqueue s')"
      using on_call [OF False assms(3)] by blast
    have "reaches supported ?s0 (turn_on True s)" by (rule reaches_step [OF assms(2) timed step])
    then obtain as where as: "complete supported as (turn_on True s) = Some s'" "reaches supported ?s0 s'"
      using s'(1) by (auto simp: returns_def)
    then have "sysThrot_turn_on supported True as s = Some (0, s')" using False by (simp add: sysThrot_turn_on_def)
    then show ?thesis using False as(2) s'(2-4) by (auto simp: sysThrot_turn_off_def)
  qed
qed

lemma queued_on_reached:
  obtains s where "reaches 400 (loaded one_thread 0 (\<lambda>_. True) (\<lambda>_. True)) s" "working s" "admin_pc s = AdminIdle"
    "pcs s = [Waiting 0x1000]"
proof -
  have "\<exists>s. run 400 queue_up (started one_thread 0) = Next s \<and> timed 400 queue_up (started one_thread 0) \<and> working s \<and>
      admin_pc s = AdminIdle \<and> pcs s = [Waiting 0x1000]"
    by (simp add: queue_up_def started_def loaded_def one_thread_def run_defs)
  then show ?thesis using that timed_run_reaches [OF started_reached] by blast
qed

theorem switches_work_witness:
  "\<exists>s as s'. reaches 400 (loaded one_thread 0 (\<lambda>_. True) (\<lambda>_. True)) s \<and> pcs s = [Waiting 0x1000] \<and>
     sysThrot_turn_off 400 as s = Some (0, s') \<and> threads_in_module s' = 0 \<and> \<not> queue_cache (tqueue s')"
proof -
  obtain s where s: "reaches 400 (loaded one_thread 0 (\<lambda>_. True) (\<lambda>_. True)) s" "working s" "admin_pc s = AdminIdle"
    "pcs s = [Waiting 0x1000]"
    by (rule queued_on_reached)
  show ?thesis
    using switches_work [OF one_thread_fresh s(1,3), of True "[]", unfolded if_P [OF s(2)]] s(1,4) by blast
qed

end
