(* ===== verification/Ioctl.thy ===== *)
theory Ioctl
  imports Store Probe Control
begin

text \<open>
  The administrator's interface (\<open>sysThrot_ioctl.c\<close>, \<open>lib/sysThrot_ioctl.h\<close>) and the test that the stub
  applies to the calling task (\<open>check_if_registered\<close> of \<open>sysThrot.c\<close>). The driver's state gathers
  the store, the probes and the throttling core. User memory is a parameter: \<open>user_int\<close> is what
  \<open>copy_from_user\<close> reads at an address (or a failure), \<open>user_string\<close> is what \<open>strncpy_from_user\<close> returns
  and leaves in its buffer. \<open>schedule\<close> is what the threads and the timer do while \<open>sysThrot_turn_on\<close> or
  \<open>sysThrot_turn_off\<close> runs.
\<close>

section \<open>Commands\<close>

text \<open>The encoding of \<open>_IOW\<close> and \<open>_IO\<close> for the type '-' and an argument of pointer size.\<close>

definition IOW :: "u32 \<Rightarrow> u32" where
  "IOW nr = push_bit 30 1 OR push_bit 16 8 OR push_bit 8 0x2d OR nr"

definition IO :: "u32 \<Rightarrow> u32" where
  "IO nr = push_bit 8 0x2d OR nr"

definition sysThrot_IOC_REGISTER_USER :: u32 where "sysThrot_IOC_REGISTER_USER = IOW 1"
definition sysThrot_IOC_DEREGISTER_USER :: u32 where "sysThrot_IOC_DEREGISTER_USER = IOW 2"
definition sysThrot_IOC_REGISTER_PROGRAM :: u32 where "sysThrot_IOC_REGISTER_PROGRAM = IOW 3"
definition sysThrot_IOC_DEREGISTER_PROGRAM :: u32 where "sysThrot_IOC_DEREGISTER_PROGRAM = IOW 4"
definition sysThrot_IOC_REGISTER_SYSCALL :: u32 where "sysThrot_IOC_REGISTER_SYSCALL = IOW 5"
definition sysThrot_IOC_DEREGISTER_SYSCALL :: u32 where "sysThrot_IOC_DEREGISTER_SYSCALL = IOW 6"
definition sysThrot_IOC_TURN_ON :: u32 where "sysThrot_IOC_TURN_ON = IO 7"
definition sysThrot_IOC_TURN_OFF :: u32 where "sysThrot_IOC_TURN_OFF = IO 8"

lemmas command_defs = sysThrot_IOC_REGISTER_USER_def sysThrot_IOC_DEREGISTER_USER_def
  sysThrot_IOC_REGISTER_PROGRAM_def sysThrot_IOC_DEREGISTER_PROGRAM_def
  sysThrot_IOC_REGISTER_SYSCALL_def sysThrot_IOC_DEREGISTER_SYSCALL_def
  sysThrot_IOC_TURN_ON_def sysThrot_IOC_TURN_OFF_def

section \<open>State and environment\<close>

record driver =
  dheap :: heap
  store :: addr
  dprobes :: probes
  core :: throttle

record platform =
  env :: kernel_env
  supported_syscalls :: nat
  syscall_symbols :: "nat \<Rightarrow> string option"
  stub_trampoline :: u64
  user_int :: "u64 \<Rightarrow> u32 option"
  user_string :: "u64 \<Rightarrow> nat \<Rightarrow> int \<times> cstring"
  cache_created :: bool
  schedule :: "action list"

section \<open>Handlers\<close>

definition check_root_user :: "u32 \<Rightarrow> bool" where
  "check_root_user uid \<longleftrightarrow> uid = 0"

text \<open>An integer argument: a buffer is allocated, filled from user memory, used and freed.\<close>

definition sysThrot_register_user :: "platform \<Rightarrow> u64 \<Rightarrow> driver \<Rightarrow> (int \<times> driver) option" where
  "sysThrot_register_user pl arg d =
     (let (p, h) = kmalloc (KInt 0) (dheap d)
      in if p = NULL then Some (- ENOMEM, d\<lparr>dheap := h\<rparr>)
         else case user_int pl arg of
                None \<Rightarrow> do { h \<leftarrow> kfree p h; Some (- EFAULT, d\<lparr>dheap := h\<rparr>) }
              | Some uid \<Rightarrow> do {
                  h \<leftarrow> store_obj p (KInt uid) h;
                  (ret, h) \<leftarrow> add_user_to_store (store d) uid h;
                  h \<leftarrow> kfree p h;
                  Some (ret, d\<lparr>dheap := h\<rparr>) })"

definition sysThrot_deregister_user :: "platform \<Rightarrow> u64 \<Rightarrow> driver \<Rightarrow> (int \<times> driver) option" where
  "sysThrot_deregister_user pl arg d =
     (let (p, h) = kmalloc (KInt 0) (dheap d)
      in if p = NULL then Some (- ENOMEM, d\<lparr>dheap := h\<rparr>)
         else case user_int pl arg of
                None \<Rightarrow> do { h \<leftarrow> kfree p h; Some (- EFAULT, d\<lparr>dheap := h\<rparr>) }
              | Some uid \<Rightarrow> do {
                  h \<leftarrow> store_obj p (KInt uid) h;
                  (ret, h) \<leftarrow> remove_user_from_store (store d) uid h;
                  h \<leftarrow> kfree p h;
                  Some (ret, d\<lparr>dheap := h\<rparr>) })"

text \<open>A program name: the copy must be non-empty and shorter than \<open>TASK_COMM_LEN\<close>.\<close>

definition sysThrot_register_program :: "platform \<Rightarrow> u64 \<Rightarrow> driver \<Rightarrow> (int \<times> driver) option" where
  "sysThrot_register_program pl arg d =
     (let (p, h) = kmalloc (KStr []) (dheap d)
      in if p = NULL then Some (- ENOMEM, d\<lparr>dheap := h\<rparr>)
         else let (res, name) = user_string pl arg TASK_COMM_LEN
              in if res \<le> 0 \<or> res \<ge> int TASK_COMM_LEN
                 then do { h \<leftarrow> kfree p h; Some (if res \<le> 0 then res else - EINVAL, d\<lparr>dheap := h\<rparr>) }
                 else do {
                   h \<leftarrow> store_obj p (KStr name) h;
                   (res, h) \<leftarrow> add_program_to_store (store d) name h;
                   h \<leftarrow> kfree p h;
                   Some (res, d\<lparr>dheap := h\<rparr>) })"

definition sysThrot_deregister_program :: "platform \<Rightarrow> u64 \<Rightarrow> driver \<Rightarrow> (int \<times> driver) option" where
  "sysThrot_deregister_program pl arg d =
     (let (p, h) = kmalloc (KStr []) (dheap d)
      in if p = NULL then Some (- ENOMEM, d\<lparr>dheap := h\<rparr>)
         else let (res, name) = user_string pl arg TASK_COMM_LEN
              in if res \<le> 0 \<or> res \<ge> int TASK_COMM_LEN
                 then do { h \<leftarrow> kfree p h; Some (if res \<le> 0 then res else - EINVAL, d\<lparr>dheap := h\<rparr>) }
                 else do {
                   h \<leftarrow> store_obj p (KStr name) h;
                   (res, h) \<leftarrow> remove_program_from_store (store d) name h;
                   h \<leftarrow> kfree p h;
                   Some (res, d\<lparr>dheap := h\<rparr>) })"

definition sysThrot_register_syscall :: "platform \<Rightarrow> u64 \<Rightarrow> driver \<Rightarrow> (int \<times> driver) option" where
  "sysThrot_register_syscall pl arg d =
     (let (p, h) = kmalloc (KInt 0) (dheap d)
      in if p = NULL then Some (- ENOMEM, d\<lparr>dheap := h\<rparr>)
         else case user_int pl arg of
                None \<Rightarrow> do { h \<leftarrow> kfree p h; Some (- EFAULT, d\<lparr>dheap := h\<rparr>) }
              | Some nr \<Rightarrow> do {
                  h \<leftarrow> store_obj p (KInt nr) h;
                  (res, ps) \<leftarrow> installProbe (env pl) (supported_syscalls pl) (syscall_symbols pl) (stub_trampoline pl)
                                 (sint nr) (dprobes d);
                  h \<leftarrow> kfree p h;
                  Some (res, d\<lparr>dheap := h, dprobes := ps\<rparr>) })"

definition sysThrot_deregister_syscall :: "platform \<Rightarrow> u64 \<Rightarrow> driver \<Rightarrow> (int \<times> driver) option" where
  "sysThrot_deregister_syscall pl arg d =
     (let (p, h) = kmalloc (KInt 0) (dheap d)
      in if p = NULL then Some (- ENOMEM, d\<lparr>dheap := h\<rparr>)
         else case user_int pl arg of
                None \<Rightarrow> do { h \<leftarrow> kfree p h; Some (- EFAULT, d\<lparr>dheap := h\<rparr>) }
              | Some nr \<Rightarrow> do {
                  h \<leftarrow> store_obj p (KInt nr) h;
                  (res, ps) \<leftarrow> removeProbe (env pl) (supported_syscalls pl) (syscall_symbols pl) (sint nr) (dprobes d);
                  h \<leftarrow> kfree p h;
                  Some (res, d\<lparr>dheap := h, dprobes := ps\<rparr>) })"

definition switch_on :: "platform \<Rightarrow> driver \<Rightarrow> (int \<times> driver) option" where
  "switch_on pl d = do {
     (r, s) \<leftarrow> sysThrot_turn_on (supported_syscalls pl) (cache_created pl) (schedule pl) (core d);
     Some (r, d\<lparr>core := s\<rparr>) }"

definition switch_off :: "platform \<Rightarrow> driver \<Rightarrow> (int \<times> driver) option" where
  "switch_off pl d = do {
     (r, s) \<leftarrow> sysThrot_turn_off (supported_syscalls pl) (schedule pl) (core d);
     Some (r, d\<lparr>core := s\<rparr>) }"

definition sysThrot_ioctl :: "platform \<Rightarrow> u32 \<Rightarrow> u32 \<Rightarrow> u64 \<Rightarrow> driver \<Rightarrow> (int \<times> driver) option" where
  "sysThrot_ioctl pl uid cmd arg d =
     (if cmd = sysThrot_IOC_REGISTER_USER then
        (if \<not> check_root_user uid then Some (- EPERM, d) else sysThrot_register_user pl arg d)
      else if cmd = sysThrot_IOC_DEREGISTER_USER then
        (if \<not> check_root_user uid then Some (- EPERM, d) else sysThrot_deregister_user pl arg d)
      else if cmd = sysThrot_IOC_REGISTER_PROGRAM then
        (if \<not> check_root_user uid then Some (- EPERM, d) else sysThrot_register_program pl arg d)
      else if cmd = sysThrot_IOC_DEREGISTER_PROGRAM then
        (if \<not> check_root_user uid then Some (- EPERM, d) else sysThrot_deregister_program pl arg d)
      else if cmd = sysThrot_IOC_REGISTER_SYSCALL then
        (if \<not> check_root_user uid then Some (- EPERM, d) else sysThrot_register_syscall pl arg d)
      else if cmd = sysThrot_IOC_DEREGISTER_SYSCALL then
        (if \<not> check_root_user uid then Some (- EPERM, d) else sysThrot_deregister_syscall pl arg d)
      else if cmd = sysThrot_IOC_TURN_ON then
        (if \<not> check_root_user uid then Some (- EPERM, d) else switch_on pl d)
      else if cmd = sysThrot_IOC_TURN_OFF then
        (if \<not> check_root_user uid then Some (- EPERM, d) else switch_off pl d)
      else Some (- EINVAL, d))"

section \<open>Is the caller limited?\<close>

definition check_if_registered :: "addr \<Rightarrow> cstring \<Rightarrow> u32 \<Rightarrow> heap \<Rightarrow> int option" where
  "check_if_registered sp comm uid h = do {
     r \<leftarrow> find_program_in_store sp comm h;
     if r = 0 then Some 1
     else do {
       r \<leftarrow> find_user_in_store sp uid h;
       if r = 0 then Some 1 else Some (- 1) } }"


section \<open>Buffers beside the store\<close>

text \<open>What is allocated, written and freed outside the store's own memory does not disturb it.\<close>

lemma table_footprint: "occupied m t i \<Longrightarrow> table m t i \<in> footprint p m"
  by (auto simp: footprint_def ptrs_def tab_def occ_def image_iff)

lemma items_agree: "(\<And>t i. occupied m t i \<Longrightarrow> mem h' (table m t i) = mem h (table m t i)) \<Longrightarrow> items h' m = items h m"
  by (simp add: items_def cong: conj_cong)

lemma store_inv_neighbours:
  assumes inv: "store_inv sp R h" and wf: "heap_wf h'"
    and same: "\<And>a. a \<in> dom (mem h) - R \<Longrightarrow> mem h' a = mem h a"
    and doms: "dom (mem h') = (dom (mem h) - R) \<union> R'" "R' \<inter> (dom (mem h) - R) = {}"
  shows "store_inv sp R' h'" "store_users sp h' = store_users sp h" "store_programs sp h' = store_programs sp h"
proof -
  obtain u mu p mp where lay: "layout user_key user_ok program_key program_ok sp (KStore u p) R h u mu p mp"
    using inv by (auto simp: store_inv_def)
  have core: "dom (mem h) - R = insert sp (footprint u mu \<union> footprint p mp)"
    using lay by (auto simp: layout_def)
  have agree: "mem h' a = mem h a" if "a \<in> insert sp (footprint u mu \<union> footprint p mp)" for a
    using same that unfolding core by blast
  have maps: "map_at k ok h' u mu = map_at k ok h u mu" "map_at k ok h' p mp = map_at k ok h p mp" for k ok
    using agree by (auto intro!: map_at_cong)
  have R': "R' \<inter> insert sp (footprint u mu \<union> footprint p mp) = {}"
    "dom (mem h') = insert sp (footprint u mu \<union> footprint p mp) \<union> R'"
    using doms unfolding core by auto
  have lay': "layout user_key user_ok program_key program_ok sp (KStore u p) R' h' u mu p mp"
    using lay wf R' agree [of sp] unfolding layout_def maps by auto
  then show "store_inv sp R' h'" by (auto simp: store_inv_def)
  have "items h' mu = items h mu" "items h' mp = items h mp"
    using agree table_footprint by (auto intro!: items_agree)
  then show "store_users sp h' = store_users sp h" "store_programs sp h' = store_programs sp h"
    using layout_contents [OF lay] layout_contents [OF lay'] by simp_all
qed

lemma store_inv_wf: "store_inv sp R h \<Longrightarrow> heap_wf h" "store_inv sp R h \<Longrightarrow> R \<subseteq> dom (mem h)"
  by (auto simp: store_inv_def layout_def)

text \<open>The buffer of a handler: allocated, filled, and freed again.\<close>

lemma buffer_alloc:
  assumes "store_inv sp R h" and "kmalloc x h = (p, h')" and "p \<noteq> NULL"
  shows "store_inv sp (insert p R) h'" "store_users sp h' = store_users sp h" "store_programs sp h' = store_programs sp h"
    "p \<notin> R" "\<forall>r \<in> R. mem h' r = mem h r"
proof -
  note wf = store_inv_wf [OF assms(1)]
  from assms(2) wf(1) assms(3) have h': "p = brk h" "h' = h\<lparr>mem := (mem h)(p \<mapsto> x), brk := Suc (brk h)\<rparr>"
    by (cases rule: kmalloc_cases; simp)+
  have p: "p \<notin> dom (mem h)" using heap_wf_fresh [OF wf(1), of p] h'(1) by auto
  then show "p \<notin> R" using wf(2) by auto
  have doms: "dom (mem h') = (dom (mem h) - R) \<union> insert p R" "insert p R \<inter> (dom (mem h) - R) = {}"
    using p h'(2) wf(2) by auto
  have same: "mem h' a = mem h a" if "a \<in> dom (mem h) - R" for a
    using p h'(2) that by auto
  note keep = store_inv_neighbours [OF assms(1) heap_wf_kmalloc [OF wf(1) assms(2)] same doms]
  show "store_inv sp (insert p R) h'" "store_users sp h' = store_users sp h" "store_programs sp h' = store_programs sp h"
    by (simp_all only: keep)
  show "\<forall>r \<in> R. mem h' r = mem h r" using p h'(2) wf(2) by auto
qed


lemma buffer_fill:
  assumes "store_inv sp R h" and "p \<in> R"
  shows "\<exists>h'. store_obj p y h = Some h' \<and> store_inv sp R h' \<and> store_users sp h' = store_users sp h \<and>
    store_programs sp h' = store_programs sp h \<and> alloc_ok h' = alloc_ok h \<and> (\<forall>a. a \<noteq> p \<longrightarrow> mem h' a = mem h a)"
proof -
  note wf = store_inv_wf [OF assms(1)]
  obtain x where x: "mem h p = Some x" using wf(2) assms(2) by auto
  let ?h = "h\<lparr>mem := (mem h)(p \<mapsto> y)\<rparr>"
  have wf': "heap_wf ?h" using wf(1) x by auto
  have same: "mem ?h a = mem h a" if "a \<in> dom (mem h) - R" for a using that assms(2) by auto
  have doms: "dom (mem ?h) = (dom (mem h) - R) \<union> R" "R \<inter> (dom (mem h) - R) = {}" using x wf(2) by auto
  show ?thesis
    using store_inv_neighbours [OF assms(1) wf' same doms] x by (simp add: store_obj_def)
qed

lemma buffer_free:
  assumes "store_inv sp (insert p R) h" and "p \<notin> R"
  shows "\<exists>h'. kfree p h = Some h' \<and> store_inv sp R h' \<and> store_users sp h' = store_users sp h \<and>
    store_programs sp h' = store_programs sp h \<and> alloc_ok h' = alloc_ok h \<and> mem h' = (mem h)(p := None)"
proof -
  note wf = store_inv_wf [OF assms(1)]
  obtain x where x: "mem h p = Some x" using wf(2) by auto
  have nz: "p \<noteq> NULL" using heap_wfD [OF wf(1) x] by simp
  let ?h = "h\<lparr>mem := (mem h)(p := None)\<rparr>"
  have wf': "heap_wf ?h" using wf(1) by (intro heap_wf_mem_sub) auto
  have same: "mem ?h a = mem h a" if "a \<in> dom (mem h) - insert p R" for a using that by auto
  have doms: "dom (mem ?h) = (dom (mem h) - insert p R) \<union> R" "R \<inter> (dom (mem h) - insert p R) = {}"
    using wf(2) assms(2) by auto
  show ?thesis
    using store_inv_neighbours [OF assms(1) wf' same doms] x nz by (simp add: heap_simps)
qed

section \<open>The handlers\<close>

text \<open>The store is as before, among the same neighbours.\<close>

definition keeps_store :: "addr \<Rightarrow> addr set \<Rightarrow> heap \<Rightarrow> heap \<Rightarrow> bool" where
  "keeps_store sp R h h' \<longleftrightarrow> store_inv sp R h' \<and> store_users sp h' = store_users sp h \<and> store_programs sp h' = store_programs sp h"

lemma buffer_dropped:
  assumes "store_inv sp R h" and "kmalloc x h = (p, h1)"
  shows "p = NULL \<Longrightarrow> keeps_store sp R h h1"
    and "p \<noteq> NULL \<Longrightarrow> \<exists>h'. kfree p h1 = Some h' \<and> keeps_store sp R h h'"
proof -
  assume nz: "p \<noteq> NULL"
  note a = buffer_alloc [OF assms nz]
  show "\<exists>h'. kfree p h1 = Some h' \<and> keeps_store sp R h h'"
    using buffer_free [OF a(1,4)] a(2,3) by (auto simp: keeps_store_def)
next
  assume null: "p = NULL"
  note wf = store_inv_wf [OF assms(1)]
  have "same_mem h h1"
    using assms(2) null heap_wf_brk [OF wf(1)] heap_wf_kmalloc [OF wf(1) assms(2)]
    by (auto simp: same_mem_def later_def kmalloc_def split: if_splits)
  then show "keeps_store sp R h h1"
    using store_inv_same_mem [OF assms(1)] same_mem_contents by (simp add: keeps_store_def)
qed

section \<open>What a registration does\<close>

text \<open>\<open>change adding x r A A'\<close>: the code \<open>r\<close> reports truthfully how the set \<open>A\<close> of registered items has become
  \<open>A'\<close> when \<open>x\<close> was to be added or removed. Without memory nothing is said about \<open>x\<close>.\<close>

definition change :: "bool \<Rightarrow> 'a \<Rightarrow> int \<Rightarrow> 'a set \<Rightarrow> 'a set \<Rightarrow> bool" where
  "change adding x r A A' \<longleftrightarrow>
     (if r = 0 then (x \<in> A \<longleftrightarrow> \<not> adding) \<and> A' = (if adding then insert x A else A - {x})
      else A' = A \<and> r \<in> (if adding then {- EEXIST, - ENOMEM, - ENOSPC} else {- EINVAL, - ENOMEM}) \<and>
        (r = - (if adding then EEXIST else EINVAL) \<longrightarrow> (x \<in> A \<longleftrightarrow> adding)) \<and>
        (r = - ENOSPC \<longrightarrow> x \<notin> A))"

lemma change_none [simp]: "change adding x (- ENOMEM) A A"
  by (simp add: change_def)

lemma change_refused:
  assumes "r \<in> (if adding then {- EEXIST, - ENOMEM, - ENOSPC} else {- EINVAL, - ENOMEM})"
    and "r = - (if adding then EEXIST else EINVAL) \<longleftrightarrow> (x \<in> A \<longleftrightarrow> adding)"
  shows "change adding x r A A"
  using assms by (cases adding) (auto simp: change_def)

lemma refused_change:
  assumes "store_inv sp R h" and "f = Some (r, h')" and "same_mem h h'"
    and "r = - (if adding then EEXIST else EINVAL) \<longleftrightarrow> (x \<in> A h \<longleftrightarrow> adding)"
    and "r \<in> (if adding then {- EEXIST, - ENOMEM, - ENOSPC} else {- EINVAL, - ENOMEM})"
    and "A h' = A h" and "B h' = B h"
  shows "\<exists>r h'. f = Some (r, h') \<and> store_inv sp R h' \<and> change adding x r (A h) (A h') \<and> B h' = B h"
  using change_refused [OF assms(5,4)] assms(2,6,7) store_inv_same_mem [OF assms(1,3)]
  by (intro exI [of _ r] exI [of _ h']) simp

lemma add_user_change:
  assumes inv: "store_inv sp R h"
  shows "\<exists>r h'. add_user_to_store sp uid h = Some (r, h') \<and> store_inv sp R h' \<and>
    change True uid r (store_users sp h) (store_users sp h') \<and> store_programs sp h' = store_programs sp h"
  using assms
proof (cases rule: add_user_cases [where uid = uid])
  case (refused r h')
  then show ?thesis
    using same_mem_contents [OF refused(2)] by (intro refused_change [OF inv refused(1,2)]) simp_all
next
  case (added h')
  then show ?thesis by (intro exI [of _ 0] exI [of _ h']) (simp add: store_frame_inv change_def)
qed

lemma remove_user_change:
  assumes inv: "store_inv sp R h"
  shows "\<exists>r h'. remove_user_from_store sp uid h = Some (r, h') \<and> store_inv sp R h' \<and>
    change False uid r (store_users sp h) (store_users sp h') \<and> store_programs sp h' = store_programs sp h"
  using assms
proof (cases rule: remove_user_cases [where uid = uid])
  case (refused r h')
  then show ?thesis
    using same_mem_contents [OF refused(2)] by (intro refused_change [OF inv refused(1,2)]) simp_all
next
  case (removed h')
  then show ?thesis by (intro exI [of _ 0] exI [of _ h']) (simp add: store_frame_inv change_def)
qed

lemma add_program_change:
  assumes inv: "store_inv sp R h" and nul: "0 \<notin> set name"
  shows "\<exists>r h'. add_program_to_store sp name h = Some (r, h') \<and> store_inv sp R h' \<and>
    change True name r (store_programs sp h) (store_programs sp h') \<and> store_users sp h' = store_users sp h"
  using assms
proof (cases rule: add_program_cases [where name = name])
  case (refused r h')
  then show ?thesis
    using same_mem_contents [OF refused(2)] by (intro refused_change [OF inv refused(1,2)]) simp_all
next
  case (added h')
  then show ?thesis by (intro exI [of _ 0] exI [of _ h']) (simp add: store_frame_inv change_def)
qed

lemma remove_program_change:
  assumes inv: "store_inv sp R h" and nul: "0 \<notin> set name"
  shows "\<exists>r h'. remove_program_from_store sp name h = Some (r, h') \<and> store_inv sp R h' \<and>
    change False name r (store_programs sp h) (store_programs sp h') \<and> store_users sp h' = store_users sp h"
  using assms
proof (cases rule: remove_program_cases [where name = name])
  case (refused r h')
  then show ?thesis
    using same_mem_contents [OF refused(2)] by (intro refused_change [OF inv refused(1,2)]) simp_all
next
  case (removed h')
  then show ?thesis by (intro exI [of _ 0] exI [of _ h']) (simp add: store_frame_inv change_def)
qed

section \<open>The handlers that call the store\<close>

lemma command_values:
  "sysThrot_IOC_REGISTER_USER = 0x40082d01" "sysThrot_IOC_DEREGISTER_USER = 0x40082d02"
  "sysThrot_IOC_REGISTER_PROGRAM = 0x40082d03" "sysThrot_IOC_DEREGISTER_PROGRAM = 0x40082d04"
  "sysThrot_IOC_REGISTER_SYSCALL = 0x40082d05" "sysThrot_IOC_DEREGISTER_SYSCALL = 0x40082d06"
  "sysThrot_IOC_TURN_ON = 0x2d07" "sysThrot_IOC_TURN_OFF = 0x2d08"
  by (simp_all add: command_defs IOW_def IO_def)

text \<open>The shape of the four handlers: allocate a buffer, fill it from user memory or give up with an error,
  call the store, free the buffer.\<close>

definition buffered :: "kobj \<Rightarrow> int + kobj \<Rightarrow> (heap \<Rightarrow> (int \<times> heap) option) \<Rightarrow> driver \<Rightarrow> (int \<times> driver) option" where
  "buffered x input f d =
     (let (p, h) = kmalloc x (dheap d)
      in if p = NULL then Some (- ENOMEM, d\<lparr>dheap := h\<rparr>)
         else case input of
                Inl e \<Rightarrow> do { h \<leftarrow> kfree p h; Some (e, d\<lparr>dheap := h\<rparr>) }
              | Inr y \<Rightarrow> do {
                  h \<leftarrow> store_obj p y h;
                  (r, h) \<leftarrow> f h;
                  h \<leftarrow> kfree p h;
                  Some (r, d\<lparr>dheap := h\<rparr>) })"

definition int_input :: "platform \<Rightarrow> u64 \<Rightarrow> int + u32" where
  "int_input pl arg = (case user_int pl arg of None \<Rightarrow> Inl (- EFAULT) | Some v \<Rightarrow> Inr v)"

definition name_input :: "platform \<Rightarrow> u64 \<Rightarrow> int + cstring" where
  "name_input pl arg =
     (case user_string pl arg TASK_COMM_LEN of (res, name) \<Rightarrow>
        if res \<le> 0 then Inl res else if res \<ge> int TASK_COMM_LEN then Inl (- EINVAL) else Inr name)"

lemma buffered_user_handlers:
  "sysThrot_register_user pl arg d =
     buffered (KInt 0) (map_sum id KInt (int_input pl arg)) (add_user_to_store (store d) (projr (int_input pl arg))) d" (is ?user1)
  "sysThrot_deregister_user pl arg d =
     buffered (KInt 0) (map_sum id KInt (int_input pl arg)) (remove_user_from_store (store d) (projr (int_input pl arg))) d" (is ?user2)
proof -
  obtain p h where "kmalloc (KInt 0) (dheap d) = (p, h)" by (cases "kmalloc (KInt 0) (dheap d)")
  then show ?user1 ?user2
    by (cases "user_int pl arg";
        simp add: sysThrot_register_user_def sysThrot_deregister_user_def buffered_def int_input_def)+
qed

lemma buffered_program_handlers:
  "sysThrot_register_program pl arg d =
     buffered (KStr []) (map_sum id KStr (name_input pl arg)) (add_program_to_store (store d) (projr (name_input pl arg))) d" (is ?program1)
  "sysThrot_deregister_program pl arg d =
     buffered (KStr []) (map_sum id KStr (name_input pl arg)) (remove_program_from_store (store d) (projr (name_input pl arg))) d" (is ?program2)
proof -
  obtain p h where "kmalloc (KStr []) (dheap d) = (p, h)" by (cases "kmalloc (KStr []) (dheap d)")
  moreover obtain res name where "user_string pl arg TASK_COMM_LEN = (res, name)" by (cases "user_string pl arg TASK_COMM_LEN")
  ultimately show ?program1 ?program2
    by (simp_all add: sysThrot_register_program_def sysThrot_deregister_program_def buffered_def name_input_def)
qed

lemma buffered_outcome:
  assumes inv: "store_inv (store d) R (dheap d)"
    and op: "\<And>y h R. input = Inr y \<Longrightarrow> store_inv (store d) R h \<Longrightarrow> \<exists>r h'. f h = Some (r, h') \<and> store_inv (store d) R h' \<and>
      change adding x r (A h) (A h') \<and> B h' = B h"
    and AB: "\<And>h h'. store_users (store d) h' = store_users (store d) h \<Longrightarrow>
      store_programs (store d) h' = store_programs (store d) h \<Longrightarrow> A h' = A h \<and> B h' = B h"
  shows "\<exists>r h'. buffered z input f d = Some (r, d\<lparr>dheap := h'\<rparr>) \<and> store_inv (store d) R h' \<and> B h' = B (dheap d) \<and>
    (case input of Inl e \<Rightarrow> r \<in> {e, - ENOMEM} \<and> A h' = A (dheap d) | Inr y \<Rightarrow> change adding x r (A (dheap d)) (A h'))"
proof -
  obtain p h where k: "kmalloc z (dheap d) = (p, h)" by (cases "kmalloc z (dheap d)")
  consider (null) "p = NULL" | (bad) e where "p \<noteq> NULL" "input = Inl e" | (ok) y where "p \<noteq> NULL" "input = Inr y"
    by (cases input) auto
  then show ?thesis
  proof cases
    case null
    then show ?thesis
      using buffer_dropped(1) [OF inv k] AB [of h "dheap d"] by (auto simp: buffered_def k keeps_store_def split: sum.splits)
  next
    case bad
    then obtain h' where "kfree p h = Some h'" "keeps_store (store d) R (dheap d) h'"
      using buffer_dropped(2) [OF inv k] by blast
    then show ?thesis
      using bad AB [of h' "dheap d"] by (intro exI [of _ e] exI [of _ h']) (auto simp: buffered_def k keeps_store_def)
  next
    case ok
    note a = buffer_alloc [OF inv k ok(1)]
    obtain h2 where h2: "store_obj p y h = Some h2" "store_inv (store d) (insert p R) h2"
      "store_users (store d) h2 = store_users (store d) h" "store_programs (store d) h2 = store_programs (store d) h"
      using buffer_fill [OF a(1), of p y] by auto
    obtain r h3 where h3: "f h2 = Some (r, h3)" "store_inv (store d) (insert p R) h3"
      "change adding x r (A h2) (A h3)" "B h3 = B h2"
      using op [OF ok(2) h2(2)] by blast
    obtain h4 where h4: "kfree p h3 = Some h4" "store_inv (store d) R h4"
      "store_users (store d) h4 = store_users (store d) h3" "store_programs (store d) h4 = store_programs (store d) h3"
      using buffer_free [OF h3(2) a(4)] by blast
    have "A h2 = A (dheap d)" "B h2 = B (dheap d)" "A h4 = A h3" "B h4 = B h3"
      using AB [of h2 "dheap d"] AB [of h4 h3] h2(3,4) h4(3,4) a(2,3) by simp_all
    then show ?thesis
      using h2(1) h3 h4 ok by (intro exI [of _ r] exI [of _ h4]) (simp add: buffered_def k)
  qed
qed

text \<open>What \<open>strncpy_from_user\<close> documents: on success the result is the length of the string copied, which has no
  terminator among its characters; an error is negative.\<close>

definition user_memory_ok :: "platform \<Rightarrow> bool" where
  "user_memory_ok pl \<longleftrightarrow> (\<forall>a n. case user_string pl a n of (res, name) \<Rightarrow>
     0 < res \<and> res < int n \<longrightarrow> int (length name) = res \<and> 0 \<notin> set name)"

lemma name_input_ok:
  "user_memory_ok pl \<Longrightarrow> name_input pl arg = Inr name \<Longrightarrow> 0 \<notin> set name \<and> 0 < length name \<and> length name < TASK_COMM_LEN"
  unfolding user_memory_ok_def name_input_def
  by (drule spec [of _ arg], drule spec [of _ TASK_COMM_LEN]) (auto split: prod.splits if_splits)

lemma user_handlers:
  assumes inv: "store_inv (store d) R (dheap d)"
  shows "\<exists>r h'. (if adding then sysThrot_register_user else sysThrot_deregister_user) pl arg d = Some (r, d\<lparr>dheap := h'\<rparr>) \<and>
    store_inv (store d) R h' \<and> store_programs (store d) h' = store_programs (store d) (dheap d) \<and>
    (case int_input pl arg of
       Inl e \<Rightarrow> r \<in> {e, - ENOMEM} \<and> store_users (store d) h' = store_users (store d) (dheap d)
     | Inr uid \<Rightarrow> change adding uid r (store_users (store d) (dheap d)) (store_users (store d) h'))"
proof -
  have "\<exists>r h'. buffered (KInt 0) (map_sum id KInt (int_input pl arg))
      ((if adding then add_user_to_store else remove_user_from_store) (store d) (projr (int_input pl arg))) d = Some (r, d\<lparr>dheap := h'\<rparr>) \<and>
    store_inv (store d) R h' \<and> store_programs (store d) h' = store_programs (store d) (dheap d) \<and>
    (case map_sum id KInt (int_input pl arg) of
       Inl e \<Rightarrow> r \<in> {e, - ENOMEM} \<and> store_users (store d) h' = store_users (store d) (dheap d)
     | Inr y \<Rightarrow> change adding (projr (int_input pl arg)) r (store_users (store d) (dheap d)) (store_users (store d) h'))"
    using add_user_change remove_user_change
    by (intro buffered_outcome [OF inv, where A = "store_users (store d)" and B = "store_programs (store d)"]) simp_all
  then show ?thesis
    by (cases "int_input pl arg"; cases adding) (simp_all add: buffered_user_handlers)
qed

lemma program_handlers:
  assumes inv: "store_inv (store d) R (dheap d)" and "user_memory_ok pl"
  shows "\<exists>r h'. (if adding then sysThrot_register_program else sysThrot_deregister_program) pl arg d = Some (r, d\<lparr>dheap := h'\<rparr>) \<and>
    store_inv (store d) R h' \<and> store_users (store d) h' = store_users (store d) (dheap d) \<and>
    (case name_input pl arg of
       Inl e \<Rightarrow> r \<in> {e, - ENOMEM} \<and> store_programs (store d) h' = store_programs (store d) (dheap d)
     | Inr name \<Rightarrow> change adding name r (store_programs (store d) (dheap d)) (store_programs (store d) h'))"
proof -
  have nul: "0 \<notin> set (projr (name_input pl arg))" if "map_sum id KStr (name_input pl arg) = Inr y" for y
    using that name_input_ok [OF assms(2), of arg] by (cases "name_input pl arg") auto
  have "\<exists>r h'. buffered (KStr []) (map_sum id KStr (name_input pl arg))
      ((if adding then add_program_to_store else remove_program_from_store) (store d) (projr (name_input pl arg))) d = Some (r, d\<lparr>dheap := h'\<rparr>) \<and>
    store_inv (store d) R h' \<and> store_users (store d) h' = store_users (store d) (dheap d) \<and>
    (case map_sum id KStr (name_input pl arg) of
       Inl e \<Rightarrow> r \<in> {e, - ENOMEM} \<and> store_programs (store d) h' = store_programs (store d) (dheap d)
     | Inr y \<Rightarrow> change adding (projr (name_input pl arg)) r (store_programs (store d) (dheap d)) (store_programs (store d) h'))"
    using add_program_change remove_program_change nul
    by (intro buffered_outcome [OF inv, where A = "store_programs (store d)" and B = "store_users (store d)"]) simp_all
  then show ?thesis
    by (cases "name_input pl arg"; cases adding) (simp_all add: buffered_program_handlers)
qed

section \<open>The handlers that patch system calls\<close>

text \<open>The patching operation between the allocation and the release of the buffer.\<close>

definition patching :: "(u32 \<Rightarrow> probes \<Rightarrow> (int \<times> probes) option) \<Rightarrow> platform \<Rightarrow> u64 \<Rightarrow> driver \<Rightarrow> (int \<times> driver) option" where
  "patching f pl arg d =
     (let (p, h) = kmalloc (KInt 0) (dheap d)
      in if p = NULL then Some (- ENOMEM, d\<lparr>dheap := h\<rparr>)
         else case user_int pl arg of
                None \<Rightarrow> do { h \<leftarrow> kfree p h; Some (- EFAULT, d\<lparr>dheap := h\<rparr>) }
              | Some nr \<Rightarrow> do {
                  h \<leftarrow> store_obj p (KInt nr) h;
                  (res, ps) \<leftarrow> f nr (dprobes d);
                  h \<leftarrow> kfree p h;
                  Some (res, d\<lparr>dheap := h, dprobes := ps\<rparr>) })"

lemma patching_handlers:
  "sysThrot_register_syscall pl = patching (\<lambda>nr. installProbe (env pl) (supported_syscalls pl) (syscall_symbols pl)
     (stub_trampoline pl) (sint nr)) pl"
  "sysThrot_deregister_syscall pl = patching (\<lambda>nr. removeProbe (env pl) (supported_syscalls pl) (syscall_symbols pl) (sint nr)) pl"
  by (simp_all add: fun_eq_iff sysThrot_register_syscall_def sysThrot_deregister_syscall_def patching_def)

lemma patching_outcome:
  assumes inv: "store_inv (store d) R (dheap d)"
    and op: "\<And>nr. \<exists>ps. f nr (dprobes d) = Some (g nr, ps) \<and> Q nr ps"
  shows "\<exists>r h' ps. patching f pl arg d = Some (r, d\<lparr>dheap := h', dprobes := ps\<rparr>) \<and> keeps_store (store d) R (dheap d) h' \<and>
    (ps = dprobes d \<and> (r = - ENOMEM \<or> user_int pl arg = None \<and> r = - EFAULT) \<or>
     (\<exists>nr. user_int pl arg = Some nr \<and> r = g nr \<and> Q nr ps))"
proof -
  obtain p h where k: "kmalloc (KInt 0) (dheap d) = (p, h)" by (cases "kmalloc (KInt 0) (dheap d)")
  consider (null) "p = NULL" | (bad) "p \<noteq> NULL" "user_int pl arg = None" | (ok) nr where "p \<noteq> NULL" "user_int pl arg = Some nr"
    by (cases "user_int pl arg") auto
  then show ?thesis
  proof cases
    case null
    then show ?thesis
      using buffer_dropped(1) [OF inv k]
      by (intro exI [of _ "- ENOMEM"] exI [of _ h] exI [of _ "dprobes d"]) (simp add: patching_def k)
  next
    case bad
    then obtain h' where "kfree p h = Some h'" "keeps_store (store d) R (dheap d) h'"
      using buffer_dropped(2) [OF inv k] by blast
    then show ?thesis
      using bad by (intro exI [of _ "- EFAULT"] exI [of _ h'] exI [of _ "dprobes d"]) (simp add: patching_def k)
  next
    case ok
    note a = buffer_alloc [OF inv k ok(1)]
    obtain h2 where h2: "store_obj p (KInt nr) h = Some h2" "store_inv (store d) (insert p R) h2"
      "store_users (store d) h2 = store_users (store d) h" "store_programs (store d) h2 = store_programs (store d) h"
      using buffer_fill [OF a(1), of p "KInt nr"] by auto
    obtain h3 where h3: "kfree p h2 = Some h3" "store_inv (store d) R h3"
      "store_users (store d) h3 = store_users (store d) h2" "store_programs (store d) h3 = store_programs (store d) h2"
      using buffer_free [OF h2(2) a(4)] by blast
    obtain ps where ps: "f nr (dprobes d) = Some (g nr, ps)" "Q nr ps" using op by blast
    have "keeps_store (store d) R (dheap d) h3" using h2 h3 a(2,3) by (simp add: keeps_store_def)
    then show ?thesis
      using ok ps h2(1) h3(1) by (intro exI [of _ "g nr"] exI [of _ h3] exI [of _ ps]) (simp add: patching_def k)
  qed
qed

lemma syscall_handlers:
  assumes "store_inv (store d) R (dheap d)"
    and "probes_inv (supported_syscalls pl) (stub_trampoline pl) site (dprobes d)"
    and "kernel_ok (supported_syscalls pl) (syscall_symbols pl) site (env pl)"
    and "sites_ok (supported_syscalls pl) (stub_trampoline pl) site"
  shows "\<exists>r h' ps. (if adding then sysThrot_register_syscall else sysThrot_deregister_syscall) pl arg d =
      Some (r, d\<lparr>dheap := h', dprobes := ps\<rparr>) \<and>
    keeps_store (store d) R (dheap d) h' \<and> probes_inv (supported_syscalls pl) (stub_trampoline pl) site ps \<and>
    (ps = dprobes d \<and> (r = - ENOMEM \<or> user_int pl arg = None \<and> r = - EFAULT) \<or>
     (\<exists>nr. user_int pl arg = Some nr \<and>
        r = probe_result (env pl) (supported_syscalls pl) (syscall_symbols pl) (\<not> adding) (if adding then (\<lambda>e. e) else (\<lambda>_. - 1))
              (sint nr) (dprobes d) \<and>
        (if r = 1 then monitored ps = (if adding then insert (nat (sint nr)) (monitored (dprobes d))
                                       else monitored (dprobes d) - {nat (sint nr)})
         else monitored ps = monitored (dprobes d) \<and> text_bytes ps = text_bytes (dprobes d))))"
proof -
  let ?f = "\<lambda>nr. if adding then installProbe (env pl) (supported_syscalls pl) (syscall_symbols pl) (stub_trampoline pl) (sint nr)
    else removeProbe (env pl) (supported_syscalls pl) (syscall_symbols pl) (sint nr)"
  let ?g = "\<lambda>nr. probe_result (env pl) (supported_syscalls pl) (syscall_symbols pl) (\<not> adding)
    (if adding then (\<lambda>e. e) else (\<lambda>_. - 1)) (sint nr) (dprobes d)"
  let ?Q = "\<lambda>nr ps. probes_inv (supported_syscalls pl) (stub_trampoline pl) site ps \<and>
    (if ?g nr = 1 then monitored ps = (if adding then insert (nat (sint nr)) (monitored (dprobes d))
                                       else monitored (dprobes d) - {nat (sint nr)})
     else monitored ps = monitored (dprobes d) \<and> text_bytes ps = text_bytes (dprobes d))"
  have op: "\<exists>ps. ?f nr (dprobes d) = Some (?g nr, ps) \<and> ?Q nr ps" for nr :: u32
    using installProbe_effect [OF assms(2-4), of "sint nr"] removeProbe_effect [OF assms(2-4), of "sint nr"]
    by (cases adding) (elim exE conjE, intro exI conjI, auto)+
  have "(if adding then sysThrot_register_syscall else sysThrot_deregister_syscall) pl arg d = patching ?f pl arg d"
    by (cases adding) (simp_all add: patching_handlers)
  moreover obtain r h' ps where "patching ?f pl arg d = Some (r, d\<lparr>dheap := h', dprobes := ps\<rparr>)"
    "keeps_store (store d) R (dheap d) h'"
    "ps = dprobes d \<and> (r = - ENOMEM \<or> user_int pl arg = None \<and> r = - EFAULT) \<or> (\<exists>nr. user_int pl arg = Some nr \<and> r = ?g nr \<and> ?Q nr ps)"
    using patching_outcome [where f = ?f and g = ?g and Q = ?Q, OF assms(1) op, of pl arg] by blast
  ultimately show ?thesis
    using assms(2) by (intro exI [of _ r] exI [of _ h'] exI [of _ ps] conjI) auto
qed

definition sample_platform :: platform where
  "sample_platform = \<lparr>env = sample_kernel, supported_syscalls = 2, syscall_symbols = two_symbols,
     stub_trampoline = trampoline_addr, user_int = (\<lambda>_. Some 1), user_string = (\<lambda>_ _. (2, [0x70, 0x31])),
     cache_created = True, schedule = []\<rparr>"

definition sample_driver :: driver where
  "sample_driver = \<lparr>dheap = booted_heap, store = 0x1000, dprobes = no_probes, core = started one_thread 5\<rparr>"

lemma sample_platform_ok: "user_memory_ok sample_platform"
  by (simp add: user_memory_ok_def sample_platform_def)

lemma sample_driver_inv: "store_inv (store sample_driver) {} (dheap sample_driver)"
  by (simp add: sample_driver_def booted_heap_inv)

section \<open>Properties\<close>

text \<open>C28: Registering and deregistering a user, as root. The call never faults and frees its buffer (what is
  live besides the store is what was live before); programs, probes and the core are untouched. When the argument cannot be
  read the result is \<open>-EFAULT\<close> (or \<open>-ENOMEM\<close>) and nothing changes; otherwise the code says truthfully what
  happened to the set of users.\<close>

theorem user_ioctls_correct:
  assumes "store_inv (store d) R (dheap d)"
  shows "\<exists>r h'. sysThrot_ioctl pl 0 (if adding then sysThrot_IOC_REGISTER_USER else sysThrot_IOC_DEREGISTER_USER) arg d =
      Some (r, d\<lparr>dheap := h'\<rparr>) \<and>
    store_inv (store d) R h' \<and> store_programs (store d) h' = store_programs (store d) (dheap d) \<and>
    (case user_int pl arg of
       None \<Rightarrow> r \<in> {- EFAULT, - ENOMEM} \<and> store_users (store d) h' = store_users (store d) (dheap d)
     | Some uid \<Rightarrow> change adding uid r (store_users (store d) (dheap d)) (store_users (store d) h'))"
  using user_handlers [OF assms, of adding pl arg]
  by (cases adding; cases "user_int pl arg") (simp_all add: sysThrot_ioctl_def check_root_user_def command_values int_input_def)

theorem user_ioctls_correct_witness:
  "\<exists>r h'. sysThrot_ioctl sample_platform 0 sysThrot_IOC_REGISTER_USER 0 sample_driver = Some (r, sample_driver\<lparr>dheap := h'\<rparr>) \<and>
     change True 1 r {} (store_users 0x1000 h')"
  using user_ioctls_correct [OF sample_driver_inv, of sample_platform True 0]
  by (simp add: sample_platform_def) (auto simp: sample_driver_def booted_heap_contents)

text \<open>C29: Registering and deregistering a program name, as root, with the same guarantees. A name that cannot be
  read gives the error, one of 16 bytes or more gives \<open>-EINVAL\<close>, and an empty name gives 0 although
  nothing is registered.\<close>

theorem program_ioctls_correct:
  assumes "store_inv (store d) R (dheap d)" and "user_memory_ok pl"
  shows "\<exists>r h'. sysThrot_ioctl pl 0 (if adding then sysThrot_IOC_REGISTER_PROGRAM else sysThrot_IOC_DEREGISTER_PROGRAM) arg d =
      Some (r, d\<lparr>dheap := h'\<rparr>) \<and>
    store_inv (store d) R h' \<and> store_users (store d) h' = store_users (store d) (dheap d) \<and>
    (case user_string pl arg TASK_COMM_LEN of (res, name) \<Rightarrow>
       if res \<le> 0 then r \<in> {res, - ENOMEM} \<and> store_programs (store d) h' = store_programs (store d) (dheap d)
       else if int TASK_COMM_LEN \<le> res
       then r \<in> {- EINVAL, - ENOMEM} \<and> store_programs (store d) h' = store_programs (store d) (dheap d)
       else int (length name) = res \<and> change adding name r (store_programs (store d) (dheap d)) (store_programs (store d) h'))"
proof -
  obtain res name where us: "user_string pl arg TASK_COMM_LEN = (res, name)" by fastforce
  have len: "int (length name) = res" if "0 < res" "res < int TASK_COMM_LEN"
    using assms(2) us that unfolding user_memory_ok_def by (metis (mono_tags, lifting) case_prod_conv)
  show ?thesis
    using program_handlers [OF assms, of adding arg] len
    by (cases adding; cases "res \<le> 0"; cases "int TASK_COMM_LEN \<le> res")
      (simp_all add: sysThrot_ioctl_def check_root_user_def command_values name_input_def us)
qed

theorem program_ioctls_correct_witness:
  "\<exists>r h'. sysThrot_ioctl sample_platform 0 sysThrot_IOC_DEREGISTER_PROGRAM 0 sample_driver = Some (r, sample_driver\<lparr>dheap := h'\<rparr>) \<and>
     change False [0x70, 0x31] r {} (store_programs 0x1000 h')"
  using program_ioctls_correct [OF sample_driver_inv sample_platform_ok, of False 0]
  by (simp add: sample_platform_def) (auto simp: sample_driver_def booted_heap_contents)

text \<open>C30: Registering and deregistering a system call, as root. The store and the core are untouched and the buffer is
  freed; the code is that of \<open>installProbe\<close> or \<open>removeProbe\<close> for the number read, or the failure to
  read it; when it is 1 exactly that system call has become, or is no longer, monitored, and otherwise
  the kernel text is unchanged.\<close>

theorem syscall_ioctls_correct:
  assumes "store_inv (store d) R (dheap d)"
    and "probes_inv (supported_syscalls pl) (stub_trampoline pl) site (dprobes d)"
    and "kernel_ok (supported_syscalls pl) (syscall_symbols pl) site (env pl)"
    and "sites_ok (supported_syscalls pl) (stub_trampoline pl) site"
  shows "\<exists>r h' ps. sysThrot_ioctl pl 0 (if adding then sysThrot_IOC_REGISTER_SYSCALL else sysThrot_IOC_DEREGISTER_SYSCALL) arg d =
      Some (r, d\<lparr>dheap := h', dprobes := ps\<rparr>) \<and>
    keeps_store (store d) R (dheap d) h' \<and> probes_inv (supported_syscalls pl) (stub_trampoline pl) site ps \<and>
    (ps = dprobes d \<and> (r = - ENOMEM \<or> user_int pl arg = None \<and> r = - EFAULT) \<or>
     (\<exists>nr. user_int pl arg = Some nr \<and>
        r = probe_result (env pl) (supported_syscalls pl) (syscall_symbols pl) (\<not> adding) (if adding then (\<lambda>e. e) else (\<lambda>_. - 1))
              (sint nr) (dprobes d) \<and>
        (if r = 1 then monitored ps = (if adding then insert (nat (sint nr)) (monitored (dprobes d))
                                       else monitored (dprobes d) - {nat (sint nr)})
         else monitored ps = monitored (dprobes d) \<and> text_bytes ps = text_bytes (dprobes d))))"
  using syscall_handlers [OF assms, of adding arg]
  by (cases adding) (simp_all add: sysThrot_ioctl_def check_root_user_def command_values)

theorem syscall_ioctls_correct_witness:
  "\<exists>r h' ps. sysThrot_ioctl sample_platform 0 sysThrot_IOC_REGISTER_SYSCALL 0 sample_driver =
     Some (r, sample_driver\<lparr>dheap := h', dprobes := ps\<rparr>) \<and> keeps_store 0x1000 {} booted_heap h'"
  using syscall_ioctls_correct [OF sample_driver_inv, of sample_platform two_sites True 0] no_probes_inv sample_kernel_ok two_sites_ok
  by (simp add: sample_platform_def sample_driver_def) blast

text \<open>C31: Only root controls the module. For any other user every command, known or unknown, leaves the whole
  state as it is and fails: with \<open>-EPERM\<close> for the eight commands and \<open>-EINVAL\<close> for every other number.
  An unknown command fails in the same way for root.\<close>

theorem ioctl_needs_root:
  assumes "uid \<noteq> 0 \<or> cmd \<notin> {sysThrot_IOC_REGISTER_USER, sysThrot_IOC_DEREGISTER_USER, sysThrot_IOC_REGISTER_PROGRAM,
      sysThrot_IOC_DEREGISTER_PROGRAM, sysThrot_IOC_REGISTER_SYSCALL, sysThrot_IOC_DEREGISTER_SYSCALL,
      sysThrot_IOC_TURN_ON, sysThrot_IOC_TURN_OFF}"
  shows "sysThrot_ioctl pl uid cmd arg d =
    Some (if cmd \<in> {sysThrot_IOC_REGISTER_USER, sysThrot_IOC_DEREGISTER_USER, sysThrot_IOC_REGISTER_PROGRAM,
      sysThrot_IOC_DEREGISTER_PROGRAM, sysThrot_IOC_REGISTER_SYSCALL, sysThrot_IOC_DEREGISTER_SYSCALL,
      sysThrot_IOC_TURN_ON, sysThrot_IOC_TURN_OFF} then - EPERM else - EINVAL, d)"
  using assms by (auto simp: sysThrot_ioctl_def check_root_user_def)

theorem ioctl_needs_root_witness:
  "sysThrot_ioctl sample_platform 1000 sysThrot_IOC_TURN_OFF 0 sample_driver = Some (- 1, sample_driver)"
  using ioctl_needs_root [of 1000 sysThrot_IOC_TURN_OFF sample_platform 0 sample_driver] by simp

text \<open>Who is throttled. The stub limits a caller exactly when the name of its task or its user is registered, and
  the lookup never faults.\<close>

lemma check_if_registered_correct:
  assumes "store_inv sp R h" and "0 \<notin> set comm"
  shows "check_if_registered sp comm uid h =
    Some (if comm \<in> store_programs sp h \<or> uid \<in> store_users sp h then 1 else - 1)"
  by (simp add: check_if_registered_def find_program_eq [OF assms] find_user_eq [OF assms(1)])

end
