(* ===== verification/Device.thy ===== *)
theory Device
  imports Throttle_Prelude
begin

text \<open>
  The character device (\<open>sysThrot.c\<close>, lines 153, 221-233 and 471-512): the counter that lets one process at a
  time hold the device open, as a system of interleaved steps of any number of processes, and the
  registration of the device with the kernel, with its roll-back on errors.
\<close>

section \<open>Opening and releasing\<close>

text \<open>A step is one atomic operation on \<open>dev_available\<close>. A process whose decrement did not reach 0 is
  \<open>Refused\<close> until it has undone it; \<open>Closed\<close> holds the last result of \<open>open\<close>.\<close>

datatype opener = Closed "int option" | Opened | Refused

record device =
  dev_available :: u32
  openers :: "opener list"

datatype dev_action = Dec nat | Undo nat | Release nat

definition atomic_dec_and_test :: "u32 \<Rightarrow> bool \<times> u32" where
  "atomic_dec_and_test v = (v - 1 = 0, v - 1)"

definition sysThrot_open_dec :: "nat \<Rightarrow> device \<Rightarrow> device" where
  "sysThrot_open_dec p d =
     (let (zero, v) = atomic_dec_and_test (dev_available d)
      in d\<lparr>dev_available := v, openers := (openers d)[p := if zero then Opened else Refused]\<rparr>)"

definition sysThrot_open_undo :: "nat \<Rightarrow> device \<Rightarrow> device" where
  "sysThrot_open_undo p d =
     d\<lparr>dev_available := dev_available d + 1, openers := (openers d)[p := Closed (Some (- EBUSY))]\<rparr>"

definition sysThrot_release :: "nat \<Rightarrow> device \<Rightarrow> device" where
  "sysThrot_release p d =
     d\<lparr>dev_available := dev_available d + 1, openers := (openers d)[p := Closed (Some 0)]\<rparr>"

text \<open>\<open>sysThrot_open\<close> when it is not interleaved with others.\<close>

definition sysThrot_open :: "u32 \<Rightarrow> int \<times> u32" where
  "sysThrot_open v =
     (let (zero, v) = atomic_dec_and_test v
      in if \<not> zero then (- EBUSY, v + 1) else (0, v))"

fun dev_step :: "dev_action \<Rightarrow> device \<Rightarrow> device option" where
  "dev_step (Dec p) d =
     (if p < length (openers d) then
        (case openers d ! p of Closed _ \<Rightarrow> Some (sysThrot_open_dec p d) | _ \<Rightarrow> None)
      else None)"
| "dev_step (Undo p) d =
     (if p < length (openers d) \<and> openers d ! p = Refused then Some (sysThrot_open_undo p d) else None)"
| "dev_step (Release p) d =
     (if p < length (openers d) \<and> openers d ! p = Opened then Some (sysThrot_release p d) else None)"

inductive dev_reaches :: "device \<Rightarrow> device \<Rightarrow> bool" for d0 where
  dev_start: "dev_reaches d0 d0"
| dev_more: "dev_reaches d0 d \<Longrightarrow> dev_step a d = Some d' \<Longrightarrow> dev_reaches d0 d'"

definition all_closed :: "nat \<Rightarrow> device" where
  "all_closed n = \<lparr>dev_available = 1, openers = replicate n (Closed None)\<rparr>"

fun busy :: "opener \<Rightarrow> bool" where
  "busy (Closed _) = False"
| "busy _ = True"

definition busy_count :: "opener list \<Rightarrow> nat" where
  "busy_count xs = length (filter busy xs)"

definition open_count :: "opener list \<Rightarrow> nat" where
  "open_count xs = length (filter ((=) Opened) xs)"

definition device_inv :: "nat \<Rightarrow> device \<Rightarrow> bool" where
  "device_inv n d \<longleftrightarrow> length (openers d) = n \<and> dev_available d = 1 - of_nat (busy_count (openers d)) \<and>
     open_count (openers d) \<le> 1"

lemma count_list_update:
  assumes "p < length xs"
  shows "length (filter P (xs[p := y])) + (if P (xs ! p) then 1 else 0) = length (filter P xs) + (if P y then 1 else 0)"
  using assms
proof (induction xs arbitrary: p)
  case (Cons x xs)
  then show ?case by (cases p) (auto simp: Suc_le_eq)
qed simp

lemma open_le_busy: "open_count xs \<le> busy_count xs"
  unfolding open_count_def busy_count_def by (induction xs) auto

lemma busy_le: "busy_count xs \<le> length xs"
  by (simp add: busy_count_def)

lemma dec_succeeds:
  assumes "device_inv n d" and "n < 2 ^ 32"
  shows "dev_available d - 1 = 0 \<longleftrightarrow> busy_count (openers d) = 0"
proof -
  have "busy_count (openers d) < 2 ^ 32" using assms busy_le [of "openers d"] by (simp add: device_inv_def)
  then have "(of_nat (busy_count (openers d)) :: u32) = 0 \<longleftrightarrow> busy_count (openers d) = 0"
    using unat_of_nat_32 [of "busy_count (openers d)"] by (auto simp: unat_eq_zero)
  then show ?thesis using assms(1) by (simp add: device_inv_def)
qed

lemma open_update:
  assumes "p < length xs"
  shows "busy_count (xs[p := y]) + (if busy (xs ! p) then 1 else 0) = busy_count xs + (if busy y then 1 else 0)"
    and "open_count (xs[p := y]) + (if xs ! p = Opened then 1 else 0) = open_count xs + (if y = Opened then 1 else 0)"
  using count_list_update [OF assms, of busy y] count_list_update [OF assms, of "(=) Opened" y]
  by (simp_all add: busy_count_def open_count_def eq_commute [of Opened])

text \<open>A process that stops being busy gives its decrement back.\<close>

lemma device_inv_leave:
  assumes inv: "device_inv n d" and p: "p < length (openers d)" "busy (openers d ! p)"
  shows "device_inv n (d\<lparr>dev_available := dev_available d + 1, openers := (openers d)[p := Closed r]\<rparr>)"
proof -
  have "busy_count (openers d) = Suc (busy_count ((openers d)[p := Closed r]))"
    "open_count ((openers d)[p := Closed r]) \<le> open_count (openers d)"
    using open_update [OF p(1), of "Closed r"] p(2) by (auto split: if_splits)
  then show ?thesis using inv by (simp add: device_inv_def)
qed

lemma device_inv_step:
  assumes inv: "device_inv n d" and n: "n < 2 ^ 32" and step: "dev_step a d = Some d'"
  shows "device_inv n d'"
proof (cases a)
  case (Dec p)
  then obtain r where p: "p < length (openers d)" "openers d ! p = Closed r" "d' = sysThrot_open_dec p d"
    using step by (auto split: if_splits opener.splits)
  note u = open_update [OF p(1)]
  have "busy_count ((openers d)[p := y]) = Suc (busy_count (openers d))" if "busy y" for y
    using u(1) [of y] p(2) that by simp
  moreover have "open_count ((openers d)[p := Opened]) = Suc (open_count (openers d))"
    "open_count ((openers d)[p := Refused]) = open_count (openers d)"
    using u(2) [of Opened] u(2) [of Refused] p(2) by simp_all
  ultimately show ?thesis
    using inv dec_succeeds [OF inv n] open_le_busy [of "openers d"]
    by (auto simp: p(3) sysThrot_open_dec_def atomic_dec_and_test_def device_inv_def)
next
  case (Undo p)
  then show ?thesis
    using step device_inv_leave [OF inv, of p] by (auto simp: sysThrot_open_undo_def split: if_splits)
next
  case (Release p)
  then show ?thesis
    using step device_inv_leave [OF inv, of p] by (auto simp: sysThrot_release_def split: if_splits)
qed

lemma dev_reaches_inv:
  "dev_reaches (all_closed n) d \<Longrightarrow> n < 2 ^ 32 \<Longrightarrow> device_inv n d"
proof (induction rule: dev_reaches.induct)
  case dev_start
  then show ?case by (simp add: device_inv_def all_closed_def busy_count_def open_count_def)
next
  case (dev_more d a d')
  then show ?case using device_inv_step by blast
qed

lemma two_in_filter:
  assumes "p < length xs" and "q < length xs" and "p \<noteq> q" and "P (xs ! p)" and "P (xs ! q)"
  shows "2 \<le> length (filter P xs)"
proof -
  have "{p, q} \<subseteq> {i. i < length xs \<and> P (xs ! i)}" using assms by auto
  then have "card {p, q} \<le> card {i. i < length xs \<and> P (xs ! i)}" by (intro card_mono) auto
  then show ?thesis using assms(3) by (simp add: length_filter_conv_card)
qed

section \<open>Registering the device\<close>

text \<open>What the kernel holds for the driver. Giving up something that is not held, or a class that
  still has a device node, is a fault. \<open>kernel_results\<close> is what the registration functions return; pointers in the
  range of \<open>IS_ERR\<close> are errors.\<close>

datatype resource = Region | Cdev | Class | Node

record kernel_results =
  alloc_chrdev_region :: int
  cdev_add :: int
  class_create :: int
  device_create :: int

definition IS_ERR :: "int \<Rightarrow> bool" where
  "IS_ERR p \<longleftrightarrow> - 4095 \<le> p \<and> p < 0"

definition give_up :: "resource \<Rightarrow> resource set \<Rightarrow> resource set option" where
  "give_up r rs = (if r \<in> rs \<and> (r = Class \<longrightarrow> Node \<notin> rs) then Some (rs - {r}) else None)"

definition device_driver_init :: "kernel_results \<Rightarrow> resource set \<Rightarrow> (int \<times> resource set) option" where
  "device_driver_init k rs =
     (if alloc_chrdev_region k < 0 then Some (alloc_chrdev_region k, rs)
      else let rs = insert Region rs in
        if cdev_add k < 0 then do { rs \<leftarrow> give_up Region rs; Some (cdev_add k, rs) }
        else let rs = insert Cdev rs in
          if IS_ERR (class_create k) then do {
            rs \<leftarrow> give_up Cdev rs;
            rs \<leftarrow> give_up Region rs;
            Some (class_create k, rs) }
          else let rs = insert Class rs in
            if IS_ERR (device_create k) then do {
              rs \<leftarrow> give_up Class rs;
              rs \<leftarrow> give_up Cdev rs;
              rs \<leftarrow> give_up Region rs;
              Some (- 1, rs) }
            else Some (0, insert Node rs))"

definition device_driver_cleanup :: "resource set \<Rightarrow> (int \<times> resource set) option" where
  "device_driver_cleanup rs = do {
     rs \<leftarrow> give_up Cdev rs;
     rs \<leftarrow> give_up Node rs;
     rs \<leftarrow> give_up Class rs;
     rs \<leftarrow> give_up Region rs;
     Some (0, rs) }"

lemma device_driver_init_cases:
  obtains (failed) r where "device_driver_init k {} = Some (r, {})" "r < 0"
  | (ready) "device_driver_init k {} = Some (0, {Region, Cdev, Class, Node})"
proof -
  consider "alloc_chrdev_region k < 0" | "\<not> alloc_chrdev_region k < 0" "cdev_add k < 0"
    | "\<not> alloc_chrdev_region k < 0" "\<not> cdev_add k < 0" "IS_ERR (class_create k)"
    | "\<not> alloc_chrdev_region k < 0" "\<not> cdev_add k < 0" "\<not> IS_ERR (class_create k)" "IS_ERR (device_create k)"
    | "\<not> alloc_chrdev_region k < 0" "\<not> cdev_add k < 0" "\<not> IS_ERR (class_create k)" "\<not> IS_ERR (device_create k)"
    by blast
  then show ?thesis
  proof cases
    case 4
    then show ?thesis by (intro that(1) [of "- 1"]) (auto simp: device_driver_init_def give_up_def)
  next
    case 5
    then show ?thesis by (intro that(2)) (auto simp: device_driver_init_def)
  qed (rule that(1); force simp: device_driver_init_def give_up_def IS_ERR_def)+
qed

lemma device_driver_cleanup_all: "device_driver_cleanup {Region, Cdev, Class, Node} = Some (0, {})"
  by (auto simp: device_driver_cleanup_def give_up_def)

section \<open>Properties\<close>

text \<open>C34: Exclusive access. However the opens and releases of any number of processes interleave, at most one of them
  has the device open. An attempt succeeds exactly when no other process has it open or is still undoing
  a refused attempt (so an open can be refused although nobody has the device open), and when
  everything is closed the device is available again.\<close>

theorem device_exclusive:
  assumes "dev_reaches (all_closed n) d" and "n < 2 ^ 32"
  shows "(\<forall>p < n. \<forall>q < n. openers d ! p = Opened \<and> openers d ! q = Opened \<longrightarrow> p = q) \<and>
    (\<forall>p < n. \<not> busy (openers d ! p) \<longrightarrow> (\<exists>d'. dev_step (Dec p) d = Some d' \<and>
       (openers d' ! p = Opened \<longleftrightarrow> (\<forall>q < n. \<not> busy (openers d ! q))))) \<and>
    ((\<forall>q < n. \<not> busy (openers d ! q)) \<longrightarrow> dev_available d = 1)"
proof -
  have inv: "device_inv n d" by (rule dev_reaches_inv [OF assms])
  have len: "length (openers d) = n" using inv by (simp add: device_inv_def)
  have quiet: "busy_count (openers d) = 0 \<longleftrightarrow> (\<forall>q < n. \<not> busy (openers d ! q))"
    using len by (simp add: busy_count_def filter_empty_conv all_set_conv_all_nth)
  have "p = q" if "p < n" "q < n" "openers d ! p = Opened" "openers d ! q = Opened" for p q
    using two_in_filter [of p "openers d" q "(=) Opened"] inv that len by (auto simp: device_inv_def open_count_def)
  moreover have "\<exists>d'. dev_step (Dec p) d = Some d' \<and> (openers d' ! p = Opened \<longleftrightarrow> (\<forall>q < n. \<not> busy (openers d ! q)))"
    if "p < n" "\<not> busy (openers d ! p)" for p
  proof -
    have "dev_step (Dec p) d = Some (sysThrot_open_dec p d)" using that len by (cases "openers d ! p") simp_all
    moreover have "openers (sysThrot_open_dec p d) ! p = Opened \<longleftrightarrow> dev_available d - 1 = 0"
      using that(1) len by (simp add: sysThrot_open_dec_def atomic_dec_and_test_def)
    ultimately show ?thesis using dec_succeeds [OF inv assms(2)] quiet by simp
  qed
  moreover have "dev_available d = 1" if "\<forall>q < n. \<not> busy (openers d ! q)"
    using inv quiet that by (simp add: device_inv_def)
  ultimately show ?thesis by blast
qed

theorem device_exclusive_witness:
  "\<exists>d. dev_reaches (all_closed 2) d \<and> openers d = [Opened, Refused] \<and>
     (\<forall>p < 2. \<forall>q < 2. openers d ! p = Opened \<and> openers d ! q = Opened \<longrightarrow> p = q)"
proof -
  define d1 d2 where d: "d1 = sysThrot_open_dec 0 (all_closed 2)" "d2 = sysThrot_open_dec 1 d1"
  have 1: "dev_reaches (all_closed 2) d1"
    by (rule dev_more [OF dev_start, of "Dec 0"]) (simp add: all_closed_def d)
  have 2: "dev_reaches (all_closed 2) d2"
    by (rule dev_more [OF 1, of "Dec 1"])
      (simp add: all_closed_def d sysThrot_open_dec_def atomic_dec_and_test_def numeral_2_eq_2)
  have "openers d2 = [Opened, Refused]"
    by (simp add: all_closed_def d sysThrot_open_dec_def atomic_dec_and_test_def numeral_2_eq_2)
  then show ?thesis using device_exclusive [OF 2] 2 by auto
qed

end
