(* ===== verification/Lifecycle.thy ===== *)
theory Lifecycle
  imports Ioctl Device
begin

text \<open>
  Loading and unloading of the module (\<open>sysThrot.c\<close>, lines 530-562 and 598-625), which run through every
  component: the store, the device, the statistics, the timer and the queue, and the probes. The
  module's state is the driver's state with what the kernel holds for it.
\<close>

section \<open>Loading and unloading\<close>

record module =
  drv :: driver
  held :: "resource set"
  sysThrot_stub_counter :: int

text \<open>\<open>max_calls_monitor\<close> is an \<open>unsigned long\<close> stored into an \<open>int\<close>; \<open>created\<close> says whether the
  proc entry could be made.\<close>

definition sysThrot_init :: "platform \<Rightarrow> kernel_results \<Rightarrow> bool \<Rightarrow> u64 \<Rightarrow> module \<Rightarrow> (int \<times> module) option" where
  "sysThrot_init pl k created max_calls_monitor m = do {
     (_, sp, h) \<leftarrow> init_sysThrot_store (dheap (drv m));
     let m = m\<lparr>drv := (drv m)\<lparr>dheap := h, store := sp\<rparr>\<rparr>;
     (ret, rs) \<leftarrow> device_driver_init k (held m);
     let m = m\<lparr>held := rs\<rparr>;
     if ret < 0 then Some (ret, m)
     else do {
       let (ret, st) = sysThrot_statmonitor_init created (stats (core (drv m)));
       let m = m\<lparr>drv := (drv m)\<lparr>core := (core (drv m))\<lparr>stats := st\<rparr>\<rparr>\<rparr>;
       if ret < 0 then do {
         (_, rs) \<leftarrow> device_driver_cleanup (held m);
         Some (ret, m\<lparr>held := rs\<rparr>) }
       else do {
         let s = (core (drv m))\<lparr>working := False, max_syscalls_for_epoch := sint (ucast max_calls_monitor :: u32),
                    epoch := 0, current_epoch_tokens := 0\<rparr>;
         let m = m\<lparr>sysThrot_stub_counter := 0\<rparr>;
         (ret, s) \<leftarrow> sysThrot_turn_on (supported_syscalls pl) (cache_created pl) (schedule pl) s;
         if ret < 0 then do {
           st \<leftarrow> sysThrot_statmonitor_exit (stats s);
           (_, rs) \<leftarrow> device_driver_cleanup (held m);
           Some (ret, m\<lparr>drv := (drv m)\<lparr>core := s\<lparr>stats := st\<rparr>\<rparr>, held := rs\<rparr>) }
         else Some (0, m\<lparr>drv := (drv m)\<lparr>core := s\<rparr>\<rparr>) } } }"

text \<open>The loop that waits for the threads in the trampoline: \<open>readings\<close> are the values of the counter that it sees.
  It ends at the first that is not positive.\<close>

fun wait_stub :: "int list \<Rightarrow> int option" where
  "wait_stub [] = None"
| "wait_stub (left # readings) = (if left > 0 then wait_stub readings else Some left)"

definition sysThrot_cleanup :: "platform \<Rightarrow> int list \<Rightarrow> module \<Rightarrow> module option" where
  "sysThrot_cleanup pl readings m = do {
     let d = drv m;
     (_, s) \<leftarrow> sysThrot_turn_off (supported_syscalls pl) (schedule pl) (core d);
     ps \<leftarrow> cleanup_probes (env pl) (supported_syscalls pl) (syscall_symbols pl) (dprobes d);
     left \<leftarrow> wait_stub readings;
     (_, h) \<leftarrow> destroy_sysThrot_store (store d) (dheap d);
     (_, rs) \<leftarrow> device_driver_cleanup (held m);
     st \<leftarrow> sysThrot_statmonitor_exit (stats s);
     Some (m\<lparr>drv := d\<lparr>dheap := h, dprobes := ps, core := s\<lparr>stats := st\<rparr>\<rparr>, held := rs, sysThrot_stub_counter := left\<rparr>) }"

lemma wait_stub_ends: "left \<in> set readings \<Longrightarrow> left \<le> 0 \<Longrightarrow> \<exists>l \<le> 0. wait_stub readings = Some l"
  by (induction readings) auto

section \<open>Properties\<close>

text \<open>The module as it is before loading: nothing is held, and its static data is zero.\<close>

definition unloaded :: "thread list \<Rightarrow> (nat \<Rightarrow> bool) \<Rightarrow> (nat \<Rightarrow> bool) \<Rightarrow> heap \<Rightarrow> probes \<Rightarrow> module" where
  "unloaded ths slab_ok stats_ok h ps = \<lparr>drv = \<lparr>dheap = h, store = NULL, dprobes = ps, core = loaded ths 0 slab_ok stats_ok\<rparr>,
     held = {}, sysThrot_stub_counter = 0\<rparr>"


definition sample_results :: kernel_results where
  "sample_results = \<lparr>alloc_chrdev_region = 0, cdev_add = 0, class_create = 4096, device_create = 8192\<rparr>"



lemma sample_turn_off:
  "\<exists>s. sysThrot_turn_off 2 [Admin, Admin, Admin, Admin] (started one_thread 5) = Some (0, s) \<and>
     reaches 2 (loaded one_thread 5 (\<lambda>_. True) (\<lambda>_. True)) s"
proof -
  have "\<exists>s. run 2 [TurnOff, Admin, Admin, Admin, Admin] (started one_thread 5) = Next s \<and>
      timed 2 [TurnOff, Admin, Admin, Admin, Admin] (started one_thread 5) \<and>
      sysThrot_turn_off 2 [Admin, Admin, Admin, Admin] (started one_thread 5) = Some (0, s)"
    by (simp add: started_def loaded_def one_thread_def run_defs wake_up_everyone_def wake_up_queue_def
        destroy_def destroy_queue_def free_junk_def sysThrot_turn_off_def)
  then show ?thesis using timed_run_reaches [OF started_reached] by blast
qed


end
