(* ===== verification/Report.thy ===== *)
theory Report
  imports Lifecycle
begin

text \<open>
  Reading the device (\<open>sysThrot_read\<close>, \<open>sysThrot.c\<close> lines 160-219): the status report for root, with the sixty-seven
  allocations it makes and the clean-up they share. The report is composed by \<open>scnprintf\<close> in a buffer of
  four pages, from which \<open>simple_read_from_buffer\<close> copies to user memory; \<open>uncopied\<close> is how many of the
  bytes it is asked for \<open>copy_to_user\<close> leaves out.
\<close>

section \<open>The buffer\<close>

abbreviation (input) BUF_SIZE :: nat where "BUF_SIZE \<equiv> 16384"

text \<open>\<open>scnprintf\<close> writes at most \<open>room - 1\<close> characters and a terminator, and returns the number of characters.\<close>

definition scnprintf :: "nat \<Rightarrow> nat \<Rightarrow> string \<Rightarrow> string \<Rightarrow> nat \<times> string" where
  "scnprintf off room text buf =
     (let t = take (room - 1) text
      in (length t, take off buf @ t @ [char_of (0 :: nat)] @ drop (off + length t + 1) buf))"

definition put :: "string \<Rightarrow> nat \<times> string \<Rightarrow> nat \<times> string" where
  "put text b = (case b of (len, buf) \<Rightarrow> let (n, buf) = scnprintf len (BUF_SIZE - len) text buf in (len + n, buf))"

definition simple_read_from_buffer :: "(nat \<Rightarrow> nat) \<Rightarrow> nat \<Rightarrow> int \<Rightarrow> string \<Rightarrow> nat \<Rightarrow> int \<times> int \<times> string" where
  "simple_read_from_buffer uncopied count pos buf available =
     (if pos < 0 then (- EINVAL, pos, [])
      else if int available \<le> pos \<or> count = 0 then (0, pos, [])
      else let n = min count (available - nat pos); ret = uncopied n
           in if ret = n then (- EFAULT, pos, [])
              else (int (n - ret), pos + int (n - ret), take (n - ret) (drop (nat pos) buf)))"

section \<open>The report\<close>

definition user_line :: "u32 \<Rightarrow> string" where
  "user_line uid = ''  UID: '' @ signed_decimal (sint uid) @ newline"

definition program_line :: "cstring \<Rightarrow> string" where
  "program_line name = ''  '' @ map (char_of \<circ> unat) name @ newline"

definition syscall_line :: "(nat \<Rightarrow> string option) \<Rightarrow> nat \<Rightarrow> string" where
  "syscall_line symbols i = (case symbols i of None \<Rightarrow> [] | Some t \<Rightarrow> ''  ['' @ decimal i @ ''] '' @ t @ newline)"

text \<open>The loop over the bitmap.\<close>

fun put_syscalls :: "(nat \<Rightarrow> string option) \<Rightarrow> u8 list \<Rightarrow> nat list \<Rightarrow> nat \<times> string \<Rightarrow> (nat \<times> string) option" where
  "put_syscalls symbols bitmap [] b = Some b"
| "put_syscalls symbols bitmap (i # js) b = do {
     present \<leftarrow> bit_set bitmap i;
     put_syscalls symbols bitmap js (if present \<and> symbols i \<noteq> None then put (syscall_line symbols i) b else b) }"

text \<open>The text, with the listings it asks the store for. The length of the title is not added, so the
  next line is written over it. The array for the users has room for \<open>MAX_STORE_USERS\<close>.\<close>

definition compose :: "platform \<Rightarrow> heap \<Rightarrow> driver \<Rightarrow> (nat \<times> string) option" where
  "compose pl h d = do {
     let (_, buf) = scnprintf 0 BUF_SIZE (''=== Syscall Throttling Module Status ==='' @ newline) [];
     let b = put (''Throttling is '' @ (if working (core d) then ''ON'' else ''OFF'') @ newline) (0, buf);
     let b = put (''Max syscalls per epoch: '' @ signed_decimal (max_syscalls_for_epoch (core d)) @ newline) b;
     us \<leftarrow> get_all_users_from_store (store d) h;
     if MAX_STORE_USERS < length us then None
     else do {
       let b = put (''=== Registered Users ('' @ decimal (length us) @ '') ==='' @ newline) b;
       let b = fold put (map user_line us) b;
       ps \<leftarrow> get_all_programs_from_store (store d) h;
       let b = put (newline @ ''=== Registered Programs ('' @ decimal (length ps) @ '') ==='' @ newline) b;
       let b = fold put (map program_line ps) b;
       let b = put (newline @ ''=== Monitored Syscalls ==='' @ newline) b;
       put_syscalls (syscall_symbols pl) (syscall_presence_bitmap (dprobes d)) [0..<supported_syscalls pl] b } }"

text \<open>The sixty-four buffers for the names; the allocation stops at the first failure.\<close>

fun alloc_names :: "nat \<Rightarrow> heap \<Rightarrow> addr list \<times> bool \<times> heap" where
  "alloc_names 0 h = ([], True, h)"
| "alloc_names (Suc n) h =
     (let (p, h) = kmalloc (KStr []) h
      in if p = NULL then ([], False, h)
         else let (ps, ok, h) = alloc_names n h in (p # ps, ok, h))"

fun kfree_all :: "addr list \<Rightarrow> heap \<Rightarrow> heap option" where
  "kfree_all [] h = Some h"
| "kfree_all (p # ps) h = do { h \<leftarrow> kfree p h; kfree_all ps h }"

text \<open>The clean-up at \<open>out\<close>: the pointers of \<open>programs\<close> that were not allocated are NULL (\<open>kcalloc\<close>).\<close>

definition release_buffers :: "addr \<Rightarrow> addr \<Rightarrow> addr \<Rightarrow> addr list \<Rightarrow> heap \<Rightarrow> heap option" where
  "release_buffers buf users programs names h = do {
     h \<leftarrow> (if programs \<noteq> NULL then kfree_all (names @ [programs]) h else Some h);
     h \<leftarrow> kfree users h;
     kfree buf h }"

definition sysThrot_read :: "platform \<Rightarrow> (nat \<Rightarrow> nat) \<Rightarrow> u32 \<Rightarrow> nat \<Rightarrow> int \<Rightarrow> driver \<Rightarrow> ((int \<times> int \<times> string) \<times> driver) option" where
  "sysThrot_read pl uncopied uid count pos d =
     (if uid \<noteq> 0 then Some ((- EPERM, pos, []), d)
      else let (buf, h) = kmalloc (KStr []) (dheap d) in
        if buf = NULL then Some ((- ENOMEM, pos, []), d\<lparr>dheap := h\<rparr>)
        else let (users, h) = kmalloc (KStr []) h in
          if users = NULL then do {
            h \<leftarrow> release_buffers buf NULL NULL [] h;
            Some ((- ENOMEM, pos, []), d\<lparr>dheap := h\<rparr>) }
          else let (programs, h) = kmalloc (KStr []) h in
            if programs = NULL then do {
              h \<leftarrow> release_buffers buf users NULL [] h;
              Some ((- ENOMEM, pos, []), d\<lparr>dheap := h\<rparr>) }
            else let (names, ok, h) = alloc_names MAX_STORE_PROGRAMS h in
              if \<not> ok then do {
                h \<leftarrow> release_buffers buf users programs names h;
                Some ((- ENOMEM, pos, []), d\<lparr>dheap := h\<rparr>) }
              else do {
                (len, text) \<leftarrow> compose pl h d;
                let ret = simple_read_from_buffer uncopied count pos text len;
                h \<leftarrow> release_buffers buf users programs names h;
                Some (ret, d\<lparr>dheap := h\<rparr>) })"

section \<open>Composing\<close>

text \<open>What the report says, before it is cut to the size of the buffer.\<close>

definition status_text :: "platform \<Rightarrow> driver \<Rightarrow> u32 list \<Rightarrow> cstring list \<Rightarrow> string" where
  "status_text pl d us ps =
     ''Throttling is '' @ (if working (core d) then ''ON'' else ''OFF'') @ newline @
     ''Max syscalls per epoch: '' @ signed_decimal (max_syscalls_for_epoch (core d)) @ newline @
     ''=== Registered Users ('' @ decimal (length us) @ '') ==='' @ newline @ concat (map user_line us) @
     newline @ ''=== Registered Programs ('' @ decimal (length ps) @ '') ==='' @ newline @ concat (map program_line ps) @
     newline @ ''=== Monitored Syscalls ==='' @ newline @
     concat (map (syscall_line (syscall_symbols pl)) (filter (probed (dprobes d)) [0..<supported_syscalls pl]))"

text \<open>The buffer holds a text, cut to what fits.\<close>

definition holds_text :: "string \<Rightarrow> nat \<times> string \<Rightarrow> bool" where
  "holds_text t b \<longleftrightarrow> fst b = min (length t) (BUF_SIZE - 1) \<and> fst b \<le> length (snd b) \<and> take (fst b) (snd b) = take (BUF_SIZE - 1) t"

lemma holds_text_put:
  assumes "holds_text t b"
  shows "holds_text (t @ u) (put u b)"
proof (cases b)
  case (Pair len buf)
  have b: "len = min (length t) (BUF_SIZE - 1)" "len \<le> length buf" "take len buf = take (BUF_SIZE - 1) t"
    using assms unfolding Pair holds_text_def fst_conv snd_conv by blast+
  define w where "w = take (BUF_SIZE - len - 1) u"
  define buf' where "buf' = take len buf @ w @ [char_of (0 :: nat)] @ drop (len + length w + 1) buf"
  have p: "put u b = (len + length w, buf')"
    by (simp add: Pair put_def scnprintf_def w_def buf'_def Let_def)
  have "take (len + length w) buf' = take len buf @ w" "len + length w \<le> length buf'"
    using b(2) by (simp_all add: buf'_def)
  moreover have "take (BUF_SIZE - 1) (t @ u) = take len buf @ w"
    using b(1,3) by (cases "length t \<le> BUF_SIZE - 1") (simp_all add: w_def min_def)
  moreover have "len + length w = min (length (t @ u)) (BUF_SIZE - 1)"
    using b(1) by (cases "length t \<le> BUF_SIZE - 1") (auto simp: w_def min_def)
  ultimately show ?thesis
    unfolding p holds_text_def fst_conv snd_conv by (intro conjI) (assumption, assumption, rule trans, assumption, rule sym, assumption)
qed

lemma holds_text_fold:
  "holds_text t b \<Longrightarrow> holds_text (t @ concat us) (fold put us b)"
proof (induction us arbitrary: t b)
  case (Cons u us)
  then show ?case using Cons.IH [OF holds_text_put [OF Cons.prems, of u]] by simp
qed simp

lemma put_syscalls_text:
  assumes "supported \<le> 8 * length (syscall_presence_bitmap ps)" and "\<forall>i \<in> set is. i < supported" and "holds_text t b"
  shows "\<exists>b'. put_syscalls symbols (syscall_presence_bitmap ps) is b = Some b' \<and>
    holds_text (t @ concat (map (syscall_line symbols) (filter (probed ps) is))) b'"
  using assms(2,3)
proof (induction "is" arbitrary: t b)
  case (Cons i js)
  have bit: "bit_set (syscall_presence_bitmap ps) i = Some (probed ps i)"
    using assms(1) Cons.prems(1) by (intro bit_set_probed) simp
  let ?b = "if probed ps i \<and> symbols i \<noteq> None then put (syscall_line symbols i) b else b"
  let ?t = "t @ (if probed ps i then syscall_line symbols i else [])"
  have "holds_text ?t ?b"
    using holds_text_put [OF Cons.prems(2), of "syscall_line symbols i"] Cons.prems(2)
    by (auto simp: syscall_line_def split: option.splits)
  then obtain b' where "put_syscalls symbols (syscall_presence_bitmap ps) js ?b = Some b'"
    "holds_text (?t @ concat (map (syscall_line symbols) (filter (probed ps) js))) b'"
    using Cons.IH Cons.prems(1) by fastforce
  then show ?case using bit by (cases "probed ps i") simp_all
qed simp

lemma compose_text:
  assumes "get_all_users_from_store (store d) h = Some us" and "length us \<le> MAX_STORE_USERS"
    and "get_all_programs_from_store (store d) h = Some ps"
    and "supported_syscalls pl \<le> 8 * length (syscall_presence_bitmap (dprobes d))"
  shows "\<exists>b. compose pl h d = Some b \<and> holds_text (status_text pl d us ps) b"
proof -
  define buf where "buf = snd (scnprintf 0 BUF_SIZE (''=== Syscall Throttling Module Status ==='' @ newline) [])"
  define b1 where "b1 = put (''Throttling is '' @ (if working (core d) then ''ON'' else ''OFF'') @ newline) (0, buf)"
  define b2 where "b2 = put (''Max syscalls per epoch: '' @ signed_decimal (max_syscalls_for_epoch (core d)) @ newline) b1"
  define b3 where "b3 = fold put (map user_line us)
    (put (''=== Registered Users ('' @ decimal (length us) @ '') ==='' @ newline) b2)"
  define b4 where "b4 = fold put (map program_line ps)
    (put (newline @ ''=== Registered Programs ('' @ decimal (length ps) @ '') ==='' @ newline) b3)"
  define b5 where "b5 = put (newline @ ''=== Monitored Syscalls ==='' @ newline) b4"
  have "holds_text [] (0, buf)" by (simp add: holds_text_def)
  note t1 = holds_text_put [OF this, of "''Throttling is '' @ (if working (core d) then ''ON'' else ''OFF'') @ newline", folded b1_def]
  note t2 = holds_text_put [OF t1, of "''Max syscalls per epoch: '' @ signed_decimal (max_syscalls_for_epoch (core d)) @ newline", folded b2_def]
  note t3 = holds_text_fold [OF holds_text_put [OF t2, of "''=== Registered Users ('' @ decimal (length us) @ '') ==='' @ newline"],
      of "map user_line us", folded b3_def]
  note t4 = holds_text_fold [OF holds_text_put [OF t3, of "newline @ ''=== Registered Programs ('' @ decimal (length ps) @ '') ==='' @ newline"],
      of "map program_line ps", folded b4_def]
  note t5 = holds_text_put [OF t4, of "newline @ ''=== Monitored Syscalls ==='' @ newline", folded b5_def]
  obtain b where b: "put_syscalls (syscall_symbols pl) (syscall_presence_bitmap (dprobes d)) [0..<supported_syscalls pl] b5 = Some b"
    "holds_text (status_text pl d us ps) b"
    using put_syscalls_text [OF assms(4) _ t5, of "[0..<supported_syscalls pl]" "syscall_symbols pl"]
    by (auto simp: status_text_def)
  have "compose pl h d = Some b"
    using assms(1-3) b(1) by (simp add: compose_def Let_def split_beta b1_def b2_def b3_def b4_def b5_def buf_def)
  then show ?thesis using b(2) by blast
qed

section \<open>Memory\<close>

text \<open>\<open>held_buffers sp R h0 xs h\<close>: since \<open>h0\<close> the buffers \<open>xs\<close> have been allocated beside the store and \<open>R\<close>, and the store is as
  it was.\<close>

definition held_buffers :: "addr \<Rightarrow> addr set \<Rightarrow> heap \<Rightarrow> addr list \<Rightarrow> heap \<Rightarrow> bool" where
  "held_buffers sp R h0 xs h \<longleftrightarrow> keeps_store sp (set xs \<union> R) h0 h \<and> distinct xs \<and> set xs \<inter> R = {} \<and> alloc_ok h = alloc_ok h0"

lemma kmalloc_null: "kmalloc x h = (NULL, h') \<Longrightarrow> heap_wf h \<Longrightarrow> \<not> alloc_ok h (brk h)"
  by (auto simp: kmalloc_def heap_wf_def split: if_splits)

lemma held_start: "store_inv sp R h \<Longrightarrow> held_buffers sp R h [] h"
  by (simp add: held_buffers_def keeps_store_def)

lemma held_alloc:
  assumes "held_buffers sp R h0 xs h" and "kmalloc x h = (p, h')"
  shows "p = NULL \<Longrightarrow> held_buffers sp R h0 xs h' \<and> (\<exists>n. \<not> alloc_ok h0 n)"
    and "p \<noteq> NULL \<Longrightarrow> held_buffers sp R h0 (p # xs) h'"
proof -
  have inv: "store_inv sp (set xs \<union> R) h" using assms(1) by (simp add: held_buffers_def keeps_store_def)
  have ok: "alloc_ok h' = alloc_ok h0" using assms kmalloc_alloc_ok [OF assms(2)] by (simp add: held_buffers_def)
  show "held_buffers sp R h0 xs h' \<and> (\<exists>n. \<not> alloc_ok h0 n)" if "p = NULL"
    using assms(1) ok buffer_dropped(1) [OF inv assms(2) that] kmalloc_null [of x h h'] assms(2) that store_inv_wf(1) [OF inv]
    by (auto simp: held_buffers_def keeps_store_def)
  show "held_buffers sp R h0 (p # xs) h'" if "p \<noteq> NULL"
    using assms(1) ok buffer_alloc(1-4) [OF inv assms(2) that] by (simp add: held_buffers_def keeps_store_def)
qed

lemma held_names:
  assumes "held_buffers sp R h0 xs h" and "alloc_names n h = (ps, ok, h')"
  shows "held_buffers sp R h0 (rev ps @ xs) h' \<and> (\<not> ok \<longrightarrow> (\<exists>n. \<not> alloc_ok h0 n))"
  using assms
proof (induction n arbitrary: xs h ps)
  case (Suc n)
  obtain p h1 where k: "kmalloc (KStr []) h = (p, h1)" by (cases "kmalloc (KStr []) h")
  show ?case
  proof (cases "p = NULL")
    case True
    then show ?thesis using Suc.prems held_alloc(1) [OF Suc.prems(1) k] by (simp add: k)
  next
    case False
    then obtain qs where q: "alloc_names n h1 = (qs, ok, h')" "ps = p # qs"
      using Suc.prems(2) by (auto simp: k split: prod.splits)
    show ?thesis using Suc.IH [OF held_alloc(2) [OF Suc.prems(1) k False] q(1)] q(2) by simp
  qed
qed simp

lemma kfree_all_keeps:
  assumes "keeps_store sp (set ps \<union> R) h0 h" and "distinct ps" and "set ps \<inter> R = {}"
  shows "\<exists>h'. kfree_all ps h = Some h' \<and> keeps_store sp R h0 h'"
  using assms
proof (induction ps arbitrary: h)
  case (Cons p ps)
  obtain h1 where h1: "kfree p h = Some h1" "keeps_store sp (set ps \<union> R) h0 h1"
    using buffer_free [of sp p "set ps \<union> R" h] Cons.prems by (auto simp: keeps_store_def)
  then show ?case using Cons.IH [OF h1(2)] Cons.prems by auto
qed simp

lemma kfree_all_Nil: "kfree_all [] = Some"
  by (rule ext) simp

lemma kfree_all_append: "kfree_all (xs @ ys) h = do { h \<leftarrow> kfree_all xs h; kfree_all ys h }"
proof (induction xs arbitrary: h)
  case (Cons x xs)
  then show ?case by (cases "kfree x h") simp_all
qed simp

text \<open>The order in which the clean-up frees.\<close>

definition buffer_list :: "addr \<Rightarrow> addr \<Rightarrow> addr \<Rightarrow> addr list \<Rightarrow> addr list" where
  "buffer_list buf users programs names =
     (if programs = NULL then [] else names @ [programs]) @ (if users = NULL then [] else [users]) @ [buf]"

lemma held_release:
  assumes "held_buffers sp R h0 xs h" and "set (buffer_list buf users programs names) = set xs"
    and "length (buffer_list buf users programs names) = length xs"
  shows "\<exists>h'. release_buffers buf users programs names h = Some h' \<and> keeps_store sp R h0 h'"
proof -
  have "release_buffers buf users programs names h = kfree_all (buffer_list buf users programs names) h"
    by (simp add: release_buffers_def buffer_list_def kfree_all_append kfree_null kfree_all_Nil del: kfree_all.simps(1))
  moreover have "distinct (buffer_list buf users programs names)"
    using assms by (intro card_distinct) (simp add: held_buffers_def distinct_card)
  ultimately show ?thesis
    using kfree_all_keeps [of sp "buffer_list buf users programs names" R h0 h] assms(1,2) by (simp add: held_buffers_def)
qed

lemma simple_read_prefix:
  "simple_read_from_buffer uncopied count pos (take len buf) len = simple_read_from_buffer uncopied count pos buf len"
proof -
  have "take (min count (len - nat pos) - u) (drop (nat pos) (take len buf)) = take (min count (len - nat pos) - u) (drop (nat pos) buf)" for u
    using le_trans [OF diff_le_self min.cobounded2, of count "len - nat pos" u] by (simp add: drop_take min_absorb1)
  then show ?thesis by (simp add: simple_read_from_buffer_def Let_def)
qed

text \<open>The listing of programs that a report shows.\<close>

definition program_listing :: "cstring set \<Rightarrow> cstring list \<Rightarrow> bool" where
  "program_listing P ps \<longleftrightarrow> length ps \<le> MAX_STORE_PROGRAMS \<and> (\<forall>s \<in> set ps. \<exists>n \<in> P. s = take (TASK_COMM_LEN - 1) n) \<and>
     (card P \<le> MAX_STORE_PROGRAMS \<and> (\<forall>n \<in> P. length n < TASK_COMM_LEN) \<longrightarrow> set ps = P)"

lemma compose_keeps:
  assumes "keeps_store (store d) R' (dheap d) h"
    and "supported_syscalls pl \<le> 8 * length (syscall_presence_bitmap (dprobes d))"
  shows "\<exists>us ps b. compose pl h d = Some b \<and> holds_text (status_text pl d us ps) b \<and>
    set us = store_users (store d) (dheap d) \<and> distinct us \<and> program_listing (store_programs (store d) (dheap d)) ps"
proof -
  have inv: "store_inv (store d) R' h" using assms(1) by (simp add: keeps_store_def)
  obtain us where us: "get_all_users_from_store (store d) h = Some us" "set us = store_users (store d) h" "distinct us"
    "length us \<le> MAX_STORE_USERS"
    using get_all_users_complete [OF inv] by blast
  obtain ps where ps: "get_all_programs_from_store (store d) h = Some ps" "program_listing (store_programs (store d) h) ps"
    using get_all_programs_bounded [OF inv] unfolding program_listing_def by blast
  show ?thesis
    using compose_text [OF us(1,4) ps(1) assms(2)] us(2,3) ps(2) assms(1) unfolding keeps_store_def by metis
qed

text \<open>The stages of the allocations: either one fails, and all is released, or all buffers are held.\<close>

lemma read_buffers:
  assumes inv: "store_inv (store d) R (dheap d)"
  obtains (nomem) h' where "sysThrot_read pl uncopied 0 count pos d = Some ((- ENOMEM, pos, []), d\<lparr>dheap := h'\<rparr>)"
      "keeps_store (store d) R (dheap d) h'" "\<exists>n. \<not> alloc_ok (dheap d) n"
  | (ready) h R' h' where "sysThrot_read pl uncopied 0 count pos d = do {
        (len, text) \<leftarrow> compose pl h d;
        Some (simple_read_from_buffer uncopied count pos text len, d\<lparr>dheap := h'\<rparr>) }"
      "keeps_store (store d) R' (dheap d) h" "keeps_store (store d) R (dheap d) h'"
proof -
  let ?H = "held_buffers (store d) R (dheap d)"
  obtain buf h1 where k1: "kmalloc (KStr []) (dheap d) = (buf, h1)" by (cases "kmalloc (KStr []) (dheap d)")
  obtain users h2 where k2: "kmalloc (KStr []) h1 = (users, h2)" by (cases "kmalloc (KStr []) h1")
  obtain programs h3 where k3: "kmalloc (KStr []) h2 = (programs, h3)" by (cases "kmalloc (KStr []) h2")
  obtain names ok h4 where k4: "alloc_names MAX_STORE_PROGRAMS h3 = (names, ok, h4)" by (cases "alloc_names MAX_STORE_PROGRAMS h3")
  note read = sysThrot_read_def k1 k2 k3 k4
  note a1 = held_alloc [OF held_start [OF inv] k1]
  show thesis
  proof (cases "buf = NULL")
    case True
    then show thesis using a1(1) by (intro nomem [of h1]) (auto simp: read held_buffers_def)
  next
    case b: False
    note a2 = held_alloc [OF a1(2) [OF b] k2]
    show thesis
    proof (cases "users = NULL")
      case True
      then obtain h' where "release_buffers buf NULL NULL [] h2 = Some h'" "keeps_store (store d) R (dheap d) h'"
        using held_release [of _ R _ "[buf]" h2 buf NULL NULL "[]"] a2(1) by (auto simp: buffer_list_def)
      then show thesis using True b a2(1) by (intro nomem [of h']) (auto simp: read)
    next
      case u: False
      note a3 = held_alloc [OF a2(2) [OF u] k3]
      show thesis
      proof (cases "programs = NULL")
        case True
        then obtain h' where "release_buffers buf users NULL [] h3 = Some h'" "keeps_store (store d) R (dheap d) h'"
          using held_release [of _ R _ "[users, buf]" h3 buf users NULL "[]"] a3(1) u by (auto simp: buffer_list_def)
        then show thesis using True b u a3(1) by (intro nomem [of h']) (auto simp: read)
      next
        case p: False
        have a4: "?H (rev names @ [programs, users, buf]) h4" "ok \<or> (\<exists>n. \<not> alloc_ok (dheap d) n)"
          using held_names [OF a3(2) [OF p] k4] by auto
        then obtain h' where "release_buffers buf users programs names h4 = Some h'" "keeps_store (store d) R (dheap d) h'"
          using held_release [of _ R _ "rev names @ [programs, users, buf]" h4 buf users programs names] p u
          by (auto simp: buffer_list_def)
        note h' = this
        show thesis
        proof (cases ok)
          case True
          then show thesis
            using b u p a4(1) h'
            by (intro ready [of h4 h' "set (rev names @ [programs, users, buf]) \<union> R"])
              (simp_all add: read held_buffers_def split_beta)
        next
          case False
          then show thesis using b u p a4(2) h' by (intro nomem [of h']) (auto simp: read)
        qed
      qed
    qed
  qed
qed

section \<open>Property\<close>

text \<open>C35: The status report. Only root may read it. Whatever allocation fails, the call does not fault and every one of
  its buffers is freed; \<open>-ENOMEM\<close> is returned only when an allocation failed. Otherwise what is
  delivered is the part of the report, cut to the buffer of four pages, that the file position and the
  count ask for; the report shows the state of the monitor, every registered user exactly once, the
  registered programs, and the monitored system calls that have a name. The title line that the source
  prints first is not in it.\<close>

theorem status_report_correct:
  assumes inv: "store_inv (store d) R (dheap d)"
    and bitmap: "supported_syscalls pl \<le> 8 * length (syscall_presence_bitmap (dprobes d))"
  shows "\<exists>res h'. sysThrot_read pl uncopied uid count pos d = Some (res, d\<lparr>dheap := h'\<rparr>) \<and> keeps_store (store d) R (dheap d) h' \<and>
    (if uid \<noteq> 0 then res = (- EPERM, pos, []) \<and> h' = dheap d
     else res = (- ENOMEM, pos, []) \<and> (\<exists>n. \<not> alloc_ok (dheap d) n) \<or>
       (\<exists>us ps. set us = store_users (store d) (dheap d) \<and> distinct us \<and> program_listing (store_programs (store d) (dheap d)) ps \<and>
          res = simple_read_from_buffer uncopied count pos (take (BUF_SIZE - 1) (status_text pl d us ps))
            (min (length (status_text pl d us ps)) (BUF_SIZE - 1))))"
proof (cases "uid = 0")
  case False
  then show ?thesis using inv by (intro exI [of _ "(- EPERM, pos, [])"] exI [of _ "dheap d"])
    (simp add: sysThrot_read_def keeps_store_def)
next
  case True
  show ?thesis
    using inv
  proof (cases rule: read_buffers [where pl = pl and uncopied = uncopied and count = count and pos = pos])
    case (nomem h')
    then show ?thesis using True by auto
  next
    case (ready h R' h')
    obtain us ps len buf where c: "compose pl h d = Some (len, buf)" "holds_text (status_text pl d us ps) (len, buf)"
      "set us = store_users (store d) (dheap d)" "distinct us" "program_listing (store_programs (store d) (dheap d)) ps"
      using compose_keeps [OF ready(2) bitmap] by fastforce
    have len: "len = min (length (status_text pl d us ps)) (BUF_SIZE - 1)" "take len buf = take (BUF_SIZE - 1) (status_text pl d us ps)"
      using c(2) unfolding holds_text_def fst_conv snd_conv by blast+
    have "sysThrot_read pl uncopied 0 count pos d =
        Some (simple_read_from_buffer uncopied count pos (take (BUF_SIZE - 1) (status_text pl d us ps))
          (min (length (status_text pl d us ps)) (BUF_SIZE - 1)), d\<lparr>dheap := h'\<rparr>)"
      unfolding len(2) [symmetric] unfolding len(1) [symmetric] using ready(1) c(1) by (simp add: simple_read_prefix)
    then show ?thesis using True ready(3) c(3-5) by (intro exI conjI) auto
  qed
qed

theorem status_report_correct_witness:
  "\<exists>res h'. sysThrot_read sample_platform (\<lambda>_. 0) 0 100 0 sample_driver = Some (res, sample_driver\<lparr>dheap := h'\<rparr>) \<and>
     keeps_store 0x1000 {} booted_heap h' \<and>
     (\<exists>us ps. us = [] \<and> res = simple_read_from_buffer (\<lambda>_. 0) 100 0 (take 16383 (status_text sample_platform sample_driver us ps))
        (min (length (status_text sample_platform sample_driver us ps)) 16383))"
proof -
  have bitmap: "supported_syscalls sample_platform \<le> 8 * length (syscall_presence_bitmap (dprobes sample_driver))"
    by (simp add: sample_platform_def sample_driver_def no_probes_def)
  have d: "store sample_driver = 0x1000" "dheap sample_driver = booted_heap" by (simp_all add: sample_driver_def)
  show ?thesis
    using status_report_correct [OF sample_driver_inv bitmap, of "\<lambda>_. 0" 0 100 0]
    unfolding d booted_heap_contents by (simp add: booted_heap_alloc del: split_paired_Ex) blast
qed

end
