(* ===== verification/Log.thy ===== *)
theory Log
  imports Throttle_Prelude
begin

text \<open>
  Logging (\<open>sysThrot_log.c\<close>, and the levels and the macro \<open>LOG\<close> of \<open>lib/sysThrot.h\<close>). The other theories leave the
  calls of \<open>LOG\<close> out: they print and change no state of the module.
\<close>

section \<open>Levels\<close>

definition LOG_CORE :: u32 where "LOG_CORE = 1"
definition LOG_IOCTL :: u32 where "LOG_IOCTL = push_bit 1 1"
definition LOG_ADMIN_COMMANDS :: u32 where "LOG_ADMIN_COMMANDS = push_bit 2 1"
definition LOG_STATS :: u32 where "LOG_STATS = push_bit 4 1"
definition LOG_STUB :: u32 where "LOG_STUB = push_bit 5 1"
definition LOG_CHECK_IF_LIMITED :: u32 where "LOG_CHECK_IF_LIMITED = push_bit 6 1"
definition LOG_STORE :: u32 where "LOG_STORE = push_bit 7 1"
definition LOG_QUEUE :: u32 where "LOG_QUEUE = push_bit 8 1"

definition LOG_LEVEL :: u32 where
  "LOG_LEVEL = LOG_CORE OR LOG_STORE OR LOG_IOCTL OR LOG_ADMIN_COMMANDS OR LOG_STATS"

lemmas level_defs = LOG_CORE_def LOG_IOCTL_def LOG_ADMIN_COMMANDS_def LOG_STATS_def LOG_STUB_def
  LOG_CHECK_IF_LIMITED_def LOG_STORE_def LOG_QUEUE_def LOG_LEVEL_def

section \<open>Printing\<close>

text \<open>\<open>vsnprintf\<close> cuts the formatted text to the local buffer of 256 bytes; \<open>log\<close> is what has been printed.\<close>

definition sysThrot_log :: "string \<Rightarrow> string list \<Rightarrow> string list" where
  "sysThrot_log formatted log = log @ [take (256 - 1) formatted]"

definition LOG :: "u32 \<Rightarrow> string \<Rightarrow> string list \<Rightarrow> string list" where
  "LOG level formatted log = (if LOG_LEVEL AND level \<noteq> 0 then sysThrot_log formatted log else log)"

text \<open>The levels of the hot path (the stub, the registration test and the queue) print nothing; the others print the
  message, whole if it has fewer than 256 characters.\<close>

lemma hot_path_silent:
  "LOG LOG_STUB t log = log" "LOG LOG_CHECK_IF_LIMITED t log = log" "LOG LOG_QUEUE t log = log"
  by (simp_all add: LOG_def level_defs)

lemma other_levels_print:
  assumes "level \<in> {LOG_CORE, LOG_STORE, LOG_IOCTL, LOG_ADMIN_COMMANDS, LOG_STATS}" and "length t < 256"
  shows "LOG level t log = log @ [t]"
  using assms by (auto simp: LOG_def sysThrot_log_def level_defs)

end
