(* ===== verification/Userspace.thy ===== *)
theory Userspace
  imports Ioctl Device
begin

text \<open>
  The user-space library (\<open>user/lib/sysThrot.h\<close>) and the command line tool (\<open>user/systhrot.c\<close>) on top of the
  module: every call opens the device, issues one \<open>ioctl\<close>, prints what happened and closes the device. The
  world holds the driver, the device's counter, the caller's \<open>errno\<close> and what was printed. The table of
  system call names that the library is compiled with is a parameter.
\<close>

section \<open>System calls\<close>

record world =
  kernel :: driver
  available :: u32
  may_open :: bool
  uid :: u32
  errno :: int
  console :: "string list"

abbreviation (input) EACCES :: int where "EACCES \<equiv> 13"

definition say :: "string \<Rightarrow> world \<Rightarrow> world" where
  "say t w = w\<lparr>console := console w @ [t]\<rparr>"

text \<open>The convention of the C library: a result between -4095 and -1 becomes -1, with \<open>errno\<close> set.\<close>

definition libc_result :: "int \<Rightarrow> world \<Rightarrow> int \<times> world" where
  "libc_result r w = (if - 4095 \<le> r \<and> r < 0 then (- 1, w\<lparr>errno := - r\<rparr>) else (r, w))"

definition open_device :: "world \<Rightarrow> int \<times> world" where
  "open_device w =
     (if \<not> may_open w then libc_result (- EACCES) w
      else let (r, v) = sysThrot_open (available w)
           in libc_result (if r < 0 then r else 3) (w\<lparr>available := v\<rparr>))"

definition close_device :: "world \<Rightarrow> world" where
  "close_device w = w\<lparr>available := available w + 1\<rparr>"

definition ioctl :: "platform \<Rightarrow> u32 \<Rightarrow> u64 \<Rightarrow> world \<Rightarrow> (int \<times> world) option" where
  "ioctl pl cmd arg w = do {
     (r, d) \<leftarrow> sysThrot_ioctl pl (uid w) cmd arg (kernel w);
     Some (libc_result r (w\<lparr>kernel := d\<rparr>)) }"

text \<open>The argument of an \<open>ioctl\<close> is the address of a local variable or of a string: the memory of the calling
  process as the module then reads it. \<open>strncpy_from_user\<close> copies at most \<open>n\<close> bytes and returns how many
  precede the terminator.\<close>

definition with_int :: "u32 \<Rightarrow> platform \<Rightarrow> platform" where
  "with_int v pl = pl\<lparr>user_int := (\<lambda>_. Some v)\<rparr>"

definition with_name :: "cstring \<Rightarrow> platform \<Rightarrow> platform" where
  "with_name name pl = pl\<lparr>user_string := (\<lambda>_ n. (int (min (length name) n), take n name))\<rparr>"

definition address :: u64 where "address = 0x7ffe0000"

section \<open>The library\<close>

text \<open>The library has its own copy of the command numbers; they agree with the module's.\<close>

definition user_IOC_REGISTER_USER :: u32 where "user_IOC_REGISTER_USER = IOW 1"
definition user_IOC_DEREGISTER_USER :: u32 where "user_IOC_DEREGISTER_USER = IOW 2"
definition user_IOC_REGISTER_PROGRAM :: u32 where "user_IOC_REGISTER_PROGRAM = IOW 3"
definition user_IOC_DEREGISTER_PROGRAM :: u32 where "user_IOC_DEREGISTER_PROGRAM = IOW 4"
definition user_IOC_REGISTER_SYSCALL :: u32 where "user_IOC_REGISTER_SYSCALL = IOW 5"
definition user_IOC_DEREGISTER_SYSCALL :: u32 where "user_IOC_DEREGISTER_SYSCALL = IOW 6"
definition user_IOC_TURN_ON :: u32 where "user_IOC_TURN_ON = IO 7"
definition user_IOC_TURN_OFF :: u32 where "user_IOC_TURN_OFF = IO 8"

lemma commands_agree [simp]:
  "user_IOC_REGISTER_USER = sysThrot_IOC_REGISTER_USER" "user_IOC_DEREGISTER_USER = sysThrot_IOC_DEREGISTER_USER"
  "user_IOC_REGISTER_PROGRAM = sysThrot_IOC_REGISTER_PROGRAM" "user_IOC_DEREGISTER_PROGRAM = sysThrot_IOC_DEREGISTER_PROGRAM"
  "user_IOC_REGISTER_SYSCALL = sysThrot_IOC_REGISTER_SYSCALL" "user_IOC_DEREGISTER_SYSCALL = sysThrot_IOC_DEREGISTER_SYSCALL"
  "user_IOC_TURN_ON = sysThrot_IOC_TURN_ON" "user_IOC_TURN_OFF = sysThrot_IOC_TURN_OFF"
  by (simp_all add: command_defs user_IOC_REGISTER_USER_def user_IOC_DEREGISTER_USER_def user_IOC_REGISTER_PROGRAM_def user_IOC_DEREGISTER_PROGRAM_def
      user_IOC_REGISTER_SYSCALL_def user_IOC_DEREGISTER_SYSCALL_def user_IOC_TURN_ON_def user_IOC_TURN_OFF_def)

text \<open>The part that all the wrappers share.\<close>

definition device_call :: "platform \<Rightarrow> u32 \<Rightarrow> u64 \<Rightarrow> string \<Rightarrow> world \<Rightarrow> (int \<times> world) option" where
  "device_call pl cmd arg success w =
     (let (fd, w) = open_device w
      in if fd < 0 then Some (- 1, say ''Failed to open device'' w)
         else do {
           (r, w) \<leftarrow> ioctl pl cmd arg w;
           if r < 0 then Some (- 1, close_device (say ''Failed to send ioctl command'' w))
           else Some (0, close_device (say success w)) })"

fun find_from :: "(nat \<Rightarrow> string option) \<Rightarrow> string \<Rightarrow> nat list \<Rightarrow> int" where
  "find_from symbols name [] = - 1"
| "find_from symbols name (i # js) = (if symbols i = Some name then int i else find_from symbols name js)"

definition find_syscall_id :: "(nat \<Rightarrow> string option) \<Rightarrow> nat \<Rightarrow> string \<Rightarrow> int" where
  "find_syscall_id symbols supported name = find_from symbols name [0..<supported]"

definition register_syscall :: "platform \<Rightarrow> (nat \<Rightarrow> string option) \<Rightarrow> nat \<Rightarrow> string \<Rightarrow> world \<Rightarrow> (int \<times> world) option" where
  "register_syscall pl symbols supported name w =
     (let syscall_id = find_syscall_id symbols supported name
      in if syscall_id = - 1 then Some (- 1, say (''Syscall '' @ name @ '' not found in supported syscalls'') w)
         else device_call (with_int (of_int syscall_id) pl) user_IOC_REGISTER_SYSCALL address
                (''Ioctl command sent successfully for registering syscall ID '' @ signed_decimal syscall_id) w)"

definition deregister_syscall :: "platform \<Rightarrow> (nat \<Rightarrow> string option) \<Rightarrow> nat \<Rightarrow> string \<Rightarrow> world \<Rightarrow> (int \<times> world) option" where
  "deregister_syscall pl symbols supported name w =
     (let syscall_id = find_syscall_id symbols supported name
      in if syscall_id = - 1 then Some (- 1, say (''Syscall '' @ name @ '' not found in supported syscalls'') w)
         else device_call (with_int (of_int syscall_id) pl) user_IOC_DEREGISTER_SYSCALL address
                (''Ioctl command sent successfully for deregistering syscall ID '' @ signed_decimal syscall_id) w)"

definition turn_off_monitor :: "platform \<Rightarrow> world \<Rightarrow> (int \<times> world) option" where
  "turn_off_monitor pl w =
     device_call pl user_IOC_TURN_OFF 0 ''Ioctl command sent successfully for turning off throttling'' w"

definition turn_on_monitor :: "platform \<Rightarrow> world \<Rightarrow> (int \<times> world) option" where
  "turn_on_monitor pl w =
     device_call pl user_IOC_TURN_ON 0 ''Ioctl command sent successfully for turning on throttling'' w"

definition bytes :: "string \<Rightarrow> cstring" where
  "bytes t = map (\<lambda>c. of_nat (of_char c)) t"

definition register_program :: "platform \<Rightarrow> string \<Rightarrow> world \<Rightarrow> (int \<times> world) option" where
  "register_program pl program_name w =
     device_call (with_name (bytes program_name) pl) user_IOC_REGISTER_PROGRAM address
       (''Ioctl command sent successfully for registering program '' @ program_name) w"

definition register_user :: "platform \<Rightarrow> u32 \<Rightarrow> world \<Rightarrow> (int \<times> world) option" where
  "register_user pl user_id w =
     device_call (with_int user_id pl) user_IOC_REGISTER_USER address
       (''Ioctl command sent successfully for registering user ID '' @ signed_decimal (sint user_id)) w"

definition deregister_user :: "platform \<Rightarrow> u32 \<Rightarrow> world \<Rightarrow> (int \<times> world) option" where
  "deregister_user pl user_id w =
     device_call (with_int user_id pl) user_IOC_DEREGISTER_USER address
       (''Ioctl command sent successfully for deregistering user ID '' @ signed_decimal (sint user_id)) w"

definition deregister_program :: "platform \<Rightarrow> string \<Rightarrow> world \<Rightarrow> (int \<times> world) option" where
  "deregister_program pl program_name w =
     device_call (with_name (bytes program_name) pl) user_IOC_DEREGISTER_PROGRAM address
       (''Ioctl command sent successfully for deregistering program '' @ program_name) w"

definition double_open_test :: "world \<Rightarrow> int \<times> world" where
  "double_open_test w =
     (let (fd1, w) = open_device w
      in if fd1 < 0 then (- 1, say ''Failed to open device the first time'' w)
         else let (fd2, w) = open_device w
              in if fd2 < 0 then (- 1, close_device (say ''Failed to open device the second time'' w))
                 else (0, close_device (close_device (say ''Device opened successfully twice'' w))))"

section \<open>The command line tool\<close>

text \<open>\<open>atoi\<close> reads as \<open>strtol\<close> does, saturating at the bounds of \<open>long\<close>, and cuts to \<open>int\<close>.\<close>

definition is_digit :: "char \<Rightarrow> bool" where
  "is_digit c \<longleftrightarrow> 48 \<le> (of_char c :: nat) \<and> (of_char c :: nat) \<le> 57"

fun digits :: "int \<Rightarrow> string \<Rightarrow> int" where
  "digits acc [] = acc"
| "digits acc (c # cs) =
     (if is_digit c then digits (acc * 10 + int (of_char c) - 48) cs else acc)"

fun skip_space :: "string \<Rightarrow> string" where
  "skip_space [] = []"
| "skip_space (c # cs) = (if of_char c \<in> {9 :: nat, 10, 11, 12, 13, 32} then skip_space cs else c # cs)"

definition atoi :: "string \<Rightarrow> u32" where
  "atoi t =
     (let t = skip_space t;
          v = (case t of
                 [] \<Rightarrow> 0
               | c # cs \<Rightarrow> if c = CHR ''-'' then - digits 0 cs else if c = CHR ''+'' then digits 0 cs else digits 0 t)
      in of_int (max (- (2 ^ 63)) (min (2 ^ 63 - 1) v)))"

abbreviation (input) EXIT_SUCCESS :: int where "EXIT_SUCCESS \<equiv> 0"
abbreviation (input) EXIT_FAILURE :: int where "EXIT_FAILURE \<equiv> 1"

definition exit_code :: "(int \<times> world) option \<Rightarrow> (int \<times> world) option" where
  "exit_code res = do { (r, w) \<leftarrow> res; Some (if r < 0 then EXIT_FAILURE else EXIT_SUCCESS, w) }"

definition with_argument :: "string list \<Rightarrow> string \<Rightarrow> (string \<Rightarrow> (int \<times> world) option) \<Rightarrow> world \<Rightarrow> (int \<times> world) option" where
  "with_argument argv usage_line f w =
     (if length argv < 3 then Some (EXIT_FAILURE, say usage_line w) else exit_code (f (argv ! 2)))"

definition say_all :: "string list \<Rightarrow> world \<Rightarrow> world" where
  "say_all ts w = w\<lparr>console := console w @ ts\<rparr>"

definition usage :: "string \<Rightarrow> string list" where
  "usage prog =
     [''Usage: '' @ prog @ '' <command> [args]'',
      [],
      ''Commands:'',
      ''  register-user    <uid>          Register a user UID'',
      ''  deregister-user  <uid>          Deregister a user UID'',
      ''  register-program <name>         Register a program by name'',
      ''  deregister-program <name>       Deregister a program by name'',
      ''  register-syscall <syscall>      Register a syscall (e.g. __x64_sys_getpid)'',
      ''  deregister-syscall <syscall>    Deregister a syscall'',
      ''  on                              Turn throttling on'',
      ''  off                             Turn throttling off'']"

definition systhrot_main :: "platform \<Rightarrow> (nat \<Rightarrow> string option) \<Rightarrow> nat \<Rightarrow> string list \<Rightarrow> world \<Rightarrow> (int \<times> world) option" where
  "systhrot_main pl symbols supported argv w =
     (if length argv < 2 then Some (EXIT_FAILURE, say_all (usage (hd argv)) w)
      else let cmd = argv ! 1 in
        if cmd = ''register-user'' then
          with_argument argv ''register-user requires <uid>'' (\<lambda>a. register_user pl (atoi a) w) w
        else if cmd = ''deregister-user'' then
          with_argument argv ''deregister-user requires <uid>'' (\<lambda>a. deregister_user pl (atoi a) w) w
        else if cmd = ''register-program'' then
          with_argument argv ''register-program requires <name>'' (\<lambda>a. register_program pl a w) w
        else if cmd = ''deregister-program'' then
          with_argument argv ''deregister-program requires <name>'' (\<lambda>a. deregister_program pl a w) w
        else if cmd = ''register-syscall'' then
          with_argument argv ''register-syscall requires <syscall>'' (\<lambda>a. register_syscall pl symbols supported a w) w
        else if cmd = ''deregister-syscall'' then
          with_argument argv ''deregister-syscall requires <syscall>'' (\<lambda>a. deregister_syscall pl symbols supported a w) w
        else if cmd = ''on'' then exit_code (turn_on_monitor pl w)
        else if cmd = ''off'' then exit_code (turn_off_monitor pl w)
        else Some (EXIT_FAILURE, say_all (usage (hd argv)) (say (''Unknown command: '' @ cmd) w)))"

section \<open>Numbers on the command line\<close>

lemma digits_append: "list_all is_digit xs \<Longrightarrow> digits acc (xs @ ys) = digits (digits acc xs) ys"
  by (induction xs arbitrary: acc) auto

lemma decimal_digits: "list_all is_digit (decimal n) \<and> digits 0 (decimal n) = int n"
proof (induction n rule: decimal.induct)
  case (1 n)
  have digit: "is_digit (char_of (48 + k))" "int (of_char (char_of (48 + k) :: char)) - 48 = int k" if "k < 10" for k :: nat
    using that by (simp_all add: is_digit_def)
  show ?case
  proof (cases "n < 10")
    case True
    then show ?thesis using digit [OF True] by (simp add: decimal_digit)
  next
    case False
    then have IH: "list_all is_digit (decimal (n div 10))" "digits 0 (decimal (n div 10)) = int (n div 10)" using 1 by auto
    have "decimal n = decimal (n div 10) @ [char_of (48 + n mod 10)]" using False by (subst decimal.simps) simp
    moreover have "int (n div 10) * 10 + int (n mod 10) = int n"
      by (metis div_mult_mod_eq of_nat_add of_nat_mult of_nat_numeral)
    ultimately show ?thesis using IH digit [of "n mod 10"] by (simp add: digits_append)
  qed
qed

lemma atoi_decimal:
  assumes "n < 2 ^ 63"
  shows "atoi (decimal n) = of_nat n"
proof -
  obtain c cs where c: "decimal n = c # cs" by (cases "decimal n") simp_all
  have "is_digit c" using decimal_digits [of n] c by simp
  then have "of_char c \<notin> {9 :: nat, 10, 11, 12, 13, 32}" "c \<noteq> CHR ''-''" "c \<noteq> CHR ''+''"
    by (auto simp: is_digit_def)
  then have "skip_space (decimal n) = c # cs" "atoi (decimal n) = of_int (max (- (2 ^ 63)) (min (2 ^ 63 - 1) (digits 0 (decimal n))))"
    by (simp_all add: c atoi_def)
  moreover have "max (- (2 ^ 63)) (min (2 ^ 63 - 1) (int n)) = int n" using assms by simp
  ultimately show ?thesis using decimal_digits [of n] by simp
qed

section \<open>Looking up a system call\<close>

lemma find_from_cases:
  "find_from symbols name js = - 1 \<and> (\<forall>i \<in> set js. symbols i \<noteq> Some name) \<or>
   (\<exists>i \<in> set js. find_from symbols name js = int i \<and> symbols i = Some name)"
  by (induction js) auto

lemma find_syscall_id_cases:
  obtains (found) i where "find_syscall_id symbols supported name = int i" "i < supported" "symbols i = Some name"
  | (missing) "find_syscall_id symbols supported name = - 1" "\<forall>i < supported. symbols i \<noteq> Some name"
  using find_from_cases [of symbols name "[0..<supported]"] unfolding find_syscall_id_def by fastforce

section \<open>The wrappers\<close>

text \<open>A wrapper called while the device is free, by a user who may open it.\<close>

definition ready :: "world \<Rightarrow> bool" where
  "ready w \<longleftrightarrow> available w = 1 \<and> may_open w"

lemma device_call_ready:
  assumes "ready w" and "sysThrot_ioctl pl (uid w) cmd arg (kernel w) = Some (r, d)" and "- 4095 \<le> r"
  shows "\<exists>w'. device_call pl cmd arg success w = Some (if r < 0 then - 1 else 0, w') \<and> ready w' \<and> uid w' = uid w \<and>
    kernel w' = d \<and> (r < 0 \<longrightarrow> errno w' = - r)"
  using assms
  by (auto simp: device_call_def open_device_def sysThrot_open_def atomic_dec_and_test_def libc_result_def ioctl_def
      close_device_def say_def ready_def Let_def)

lemma change_bound: "change adding x r A A' \<Longrightarrow> - 4095 \<le> r \<and> r \<le> 0"
  by (auto simp: change_def split: if_splits)

text \<open>The effect of the wrappers for users: the code tells whether the set has changed.\<close>

lemma user_calls:
  assumes "ready w" and "uid w = 0" and "store_inv (store (kernel w)) R (dheap (kernel w))"
  shows "\<exists>r w'. (if adding then register_user else deregister_user) pl v w = Some (r, w') \<and> ready w' \<and> uid w' = 0 \<and>
    (\<exists>h'. kernel w' = (kernel w)\<lparr>dheap := h'\<rparr> \<and> store_inv (store (kernel w)) R h' \<and>
       store_programs (store (kernel w)) h' = store_programs (store (kernel w)) (dheap (kernel w)) \<and>
       (\<exists>c. change adding v c (store_users (store (kernel w)) (dheap (kernel w))) (store_users (store (kernel w)) h') \<and>
          r = (if c = 0 then 0 else - 1) \<and> (c \<noteq> 0 \<longrightarrow> errno w' = - c)))"
proof -
  let ?cmd = "if adding then sysThrot_IOC_REGISTER_USER else sysThrot_IOC_DEREGISTER_USER"
  have int: "user_int (with_int v pl) address = Some v" by (simp add: with_int_def)
  have disp: "sysThrot_ioctl (with_int v pl) 0 ?cmd address (kernel w) =
      (if adding then sysThrot_register_user else sysThrot_deregister_user) (with_int v pl) address (kernel w)"
    by (cases adding) (simp_all add: sysThrot_ioctl_def check_root_user_def command_values)
  obtain c h' where h': "sysThrot_ioctl (with_int v pl) (uid w) ?cmd address (kernel w) = Some (c, (kernel w)\<lparr>dheap := h'\<rparr>)"
    "store_inv (store (kernel w)) R h'" "store_programs (store (kernel w)) h' = store_programs (store (kernel w)) (dheap (kernel w))"
    "change adding v c (store_users (store (kernel w)) (dheap (kernel w))) (store_users (store (kernel w)) h')"
    using user_handlers [OF assms(3), of adding "with_int v pl" address] unfolding assms(2) disp by (auto simp: int_input_def int)
  note b = change_bound [OF h'(4)]
  have "\<exists>success. (if adding then register_user else deregister_user) pl v w = device_call (with_int v pl) ?cmd address success w"
    by (cases adding) (auto simp: register_user_def deregister_user_def)
  then show ?thesis
    using device_call_ready [OF assms(1) h'(1)] b h' assms(2) by (cases "c = 0") fastforce+
qed

text \<open>The wrappers for programs. \<open>c_string\<close>: the argument is a C string, so no character is a terminator.\<close>

definition c_string :: "string \<Rightarrow> bool" where
  "c_string t \<longleftrightarrow> char_of (0 :: nat) \<notin> set t"

lemma bytes_not_null: "c_string t \<Longrightarrow> 0 \<notin> set (bytes t)"
proof
  assume t: "c_string t" and "0 \<in> set (bytes t)"
  then obtain c where c: "c \<in> set t" "of_nat (of_char c) = (0 :: u8)" by (auto simp: bytes_def)
  have "unat (of_nat (of_char c) :: u8) = of_char c" by (simp add: unsigned_of_nat take_bit_nat_eq_self)
  then have "of_char c = (0 :: nat)" using c(2) by simp
  then have "c = char_of (0 :: nat)" by (metis char_of_char)
  then show False using t c(1) by (simp add: c_string_def)
qed

lemma with_name_ok:
  assumes "c_string t"
  shows "user_memory_ok (with_name (bytes t) pl)"
    and "name_input (with_name (bytes t) pl) a = (if t = [] then Inl 0 else if length t < TASK_COMM_LEN then Inr (bytes t) else Inl (- EINVAL))"
proof -
  have "length (bytes t) = length t" by (simp add: bytes_def)
  then show "user_memory_ok (with_name (bytes t) pl)"
    using bytes_not_null [OF assms] by (auto simp: user_memory_ok_def with_name_def min_def dest: in_set_takeD)
  show "name_input (with_name (bytes t) pl) a = (if t = [] then Inl 0 else if length t < TASK_COMM_LEN then Inr (bytes t) else Inl (- EINVAL))"
    by (auto simp: name_input_def with_name_def bytes_def min_def)
qed

lemma program_calls:
  assumes "ready w" and "uid w = 0" and "store_inv (store (kernel w)) R (dheap (kernel w))" and "c_string t"
  shows "\<exists>r w'. (if adding then register_program else deregister_program) pl t w = Some (r, w') \<and> ready w' \<and> uid w' = 0 \<and>
    (\<exists>h'. kernel w' = (kernel w)\<lparr>dheap := h'\<rparr> \<and> store_inv (store (kernel w)) R h' \<and>
       store_users (store (kernel w)) h' = store_users (store (kernel w)) (dheap (kernel w)) \<and>
       (\<exists>c. r = (if c = 0 then 0 else - 1) \<and> (c \<noteq> 0 \<longrightarrow> errno w' = - c) \<and>
          (if t \<noteq> [] \<and> length t < TASK_COMM_LEN
           then change adding (bytes t) c (store_programs (store (kernel w)) (dheap (kernel w))) (store_programs (store (kernel w)) h')
           else c \<in> {if t = [] then 0 else - EINVAL, - ENOMEM} \<and>
             store_programs (store (kernel w)) h' = store_programs (store (kernel w)) (dheap (kernel w)))))"
proof -
  let ?cmd = "if adding then sysThrot_IOC_REGISTER_PROGRAM else sysThrot_IOC_DEREGISTER_PROGRAM"
  let ?pl = "with_name (bytes t) pl"
  have disp: "sysThrot_ioctl ?pl 0 ?cmd address (kernel w) =
      (if adding then sysThrot_register_program else sysThrot_deregister_program) ?pl address (kernel w)"
    by (cases adding) (simp_all add: sysThrot_ioctl_def check_root_user_def command_values)
  obtain c h' where h': "sysThrot_ioctl ?pl (uid w) ?cmd address (kernel w) = Some (c, (kernel w)\<lparr>dheap := h'\<rparr>)"
    "store_inv (store (kernel w)) R h'" "store_users (store (kernel w)) h' = store_users (store (kernel w)) (dheap (kernel w))"
    "if t \<noteq> [] \<and> length t < TASK_COMM_LEN
     then change adding (bytes t) c (store_programs (store (kernel w)) (dheap (kernel w))) (store_programs (store (kernel w)) h')
     else c \<in> {if t = [] then 0 else - EINVAL, - ENOMEM} \<and>
       store_programs (store (kernel w)) h' = store_programs (store (kernel w)) (dheap (kernel w))"
    using program_handlers [OF assms(3) with_name_ok(1) [OF assms(4)], of adding pl address]
    unfolding assms(2) disp with_name_ok(2) [OF assms(4)] by (auto split: if_splits)
  have b: "- 4095 \<le> c" "c \<le> 0" using h'(4) change_bound [of adding "bytes t" c] by (auto split: if_splits)
  have "\<exists>success. (if adding then register_program else deregister_program) pl t w = device_call ?pl ?cmd address success w"
    by (cases adding) (auto simp: register_program_def deregister_program_def)
  then obtain success where call: "(if adding then register_program else deregister_program) pl t w = device_call ?pl ?cmd address success w"
    by blast
  obtain w' where "device_call ?pl ?cmd address success w = Some (if c < 0 then - 1 else 0, w')" "ready w'" "uid w' = 0"
    "kernel w' = (kernel w)\<lparr>dheap := h'\<rparr>" "c < 0 \<longrightarrow> errno w' = - c"
    using device_call_ready [OF assms(1) h'(1) b(1), of success] assms(2) by auto
  then show ?thesis
    using h'(2-4) b(2) unfolding call
    by (intro exI [of _ "if c < 0 then - 1 else 0"] exI [of _ w'] conjI exI [of _ h'] exI [of _ c]) simp_all
qed

text \<open>The wrappers for system calls: what is relied on of \<open>register_kprobe\<close> is that its errors are error numbers, and
  that none of them is \<open>-EEXIST\<close>, which the module uses for itself.\<close>

definition probes_ok :: "platform \<Rightarrow> (nat \<Rightarrow> u64) \<Rightarrow> probes \<Rightarrow> bool" where
  "probes_ok pl site ps \<longleftrightarrow> probes_inv (supported_syscalls pl) (stub_trampoline pl) site ps \<and>
     kernel_ok (supported_syscalls pl) (syscall_symbols pl) site (env pl) \<and>
     sites_ok (supported_syscalls pl) (stub_trampoline pl) site \<and> supported_syscalls pl < 2 ^ 31 \<and>
     (\<forall>i < supported_syscalls pl. - 4095 \<le> fst (kprobe (env pl) (syscall_symbols pl i)) \<and>
        fst (kprobe (env pl) (syscall_symbols pl i)) \<noteq> - EEXIST)"

lemma probe_result_codes:
  assumes "probes_ok pl site ps" and "i < supported_syscalls pl"
  shows "probe_result (env pl) (supported_syscalls pl) (syscall_symbols pl) (\<not> adding) (if adding then (\<lambda>e. e) else (\<lambda>_. - 1)) (int i) ps \<le> 1"
    and "- 4095 \<le> probe_result (env pl) (supported_syscalls pl) (syscall_symbols pl) (\<not> adding) (if adding then (\<lambda>e. e) else (\<lambda>_. - 1)) (int i) ps"
    and "probe_result (env pl) (supported_syscalls pl) (syscall_symbols pl) (\<not> adding) (if adding then (\<lambda>e. e) else (\<lambda>_. - 1)) (int i) ps \<noteq> 0"
    and "probe_result (env pl) (supported_syscalls pl) (syscall_symbols pl) (\<not> adding) (if adding then (\<lambda>e. e) else (\<lambda>_. - 1)) (int i) ps = - EEXIST
      \<longleftrightarrow> (i \<in> monitored ps \<longleftrightarrow> adding)"
  using assms by (auto simp: probe_result_def probes_ok_def kernel_ok_def monitored_def Let_def)

lemma syscall_calls:
  assumes "ready w" and "uid w = 0" and "store_inv (store (kernel w)) R (dheap (kernel w))" and ok: "probes_ok pl site (dprobes (kernel w))"
    and find: "find_syscall_id symbols supported name = int i" and i: "i < supported_syscalls pl"
  shows "\<exists>r w'. (if adding then register_syscall else deregister_syscall) pl symbols supported name w = Some (r, w') \<and> ready w' \<and> uid w' = 0 \<and>
    (\<exists>h' ps. kernel w' = (kernel w)\<lparr>dheap := h', dprobes := ps\<rparr> \<and> keeps_store (store (kernel w)) R (dheap (kernel w)) h' \<and>
       probes_ok pl site ps \<and> (\<forall>j. j \<noteq> i \<longrightarrow> (j \<in> monitored ps \<longleftrightarrow> j \<in> monitored (dprobes (kernel w)))) \<and>
       (r = 0 \<or> errno w' = EEXIST \<longrightarrow> (i \<in> monitored ps \<longleftrightarrow> adding)) \<and>
       ((i \<in> monitored (dprobes (kernel w)) \<longleftrightarrow> adding) \<longrightarrow> (i \<in> monitored ps \<longleftrightarrow> adding)))"
proof -
  let ?cmd = "if adding then sysThrot_IOC_REGISTER_SYSCALL else sysThrot_IOC_DEREGISTER_SYSCALL"
  let ?pl = "with_int (of_nat i) pl"
  have pl: "user_int ?pl address = Some (of_nat i)" "env ?pl = env pl" "supported_syscalls ?pl = supported_syscalls pl"
    "syscall_symbols ?pl = syscall_symbols pl" "stub_trampoline ?pl = stub_trampoline pl"
    by (simp_all add: with_int_def)
  have sint: "sint (of_nat i :: u32) = int i"
    using i ok sint_of_int_32 [of "int i"] by (simp add: probes_ok_def)
  define g where "g = probe_result (env pl) (supported_syscalls pl) (syscall_symbols pl) (\<not> adding) (if adding then (\<lambda>e. e) else (\<lambda>_. - 1)) (int i) (dprobes (kernel w))"
  note codes = probe_result_codes [OF ok i, of adding, folded g_def]
  have disp: "sysThrot_ioctl ?pl 0 ?cmd address (kernel w) =
      (if adding then sysThrot_register_syscall else sysThrot_deregister_syscall) ?pl address (kernel w)"
    by (cases adding) (simp_all add: sysThrot_ioctl_def check_root_user_def command_values)
  obtain c h' ps where h': "sysThrot_ioctl ?pl (uid w) ?cmd address (kernel w) = Some (c, (kernel w)\<lparr>dheap := h', dprobes := ps\<rparr>)"
    "keeps_store (store (kernel w)) R (dheap (kernel w)) h'" "probes_inv (supported_syscalls pl) (stub_trampoline pl) site ps"
    "ps = dprobes (kernel w) \<and> c = - ENOMEM \<or> c = g \<and>
       (if c = 1 then monitored ps = (if adding then insert i (monitored (dprobes (kernel w))) else monitored (dprobes (kernel w)) - {i})
        else monitored ps = monitored (dprobes (kernel w)))"
    using syscall_handlers [of "kernel w" R ?pl site adding address, unfolded pl, OF assms(3)] ok
    unfolding assms(2) disp probes_ok_def g_def by (elim conjE) (fastforce simp: sint)
  have b: "- 4095 \<le> c" "c \<noteq> 0" "c \<le> 1" using h'(4) codes by auto
  obtain success where call: "(if adding then register_syscall else deregister_syscall) pl symbols supported name w =
      device_call ?pl ?cmd address success w"
    using find by (cases adding) (auto simp: register_syscall_def deregister_syscall_def Let_def)
  obtain w' where w': "device_call ?pl ?cmd address success w = Some (if c < 0 then - 1 else 0, w')" "ready w'" "uid w' = 0"
    "kernel w' = (kernel w)\<lparr>dheap := h', dprobes := ps\<rparr>" "c < 0 \<longrightarrow> errno w' = - c"
    using device_call_ready [OF assms(1) h'(1) b(1), of success] assms(2) by auto
  have frame: "\<forall>j. j \<noteq> i \<longrightarrow> (j \<in> monitored ps \<longleftrightarrow> j \<in> monitored (dprobes (kernel w)))"
    using h'(4) by (auto split: if_splits)
  have settled: "i \<in> monitored ps \<longleftrightarrow> adding" if "\<not> c < 0 \<or> c = - EEXIST"
    using that h'(4) b codes by (auto split: if_splits)
  have kept: "i \<in> monitored ps \<longleftrightarrow> adding" if "i \<in> monitored (dprobes (kernel w)) \<longleftrightarrow> adding"
    using that h'(4) by (auto split: if_splits)
  show ?thesis
    using w' h'(2,3) frame settled kept b ok unfolding call probes_ok_def
    by (intro exI [of _ "if c < 0 then - 1 else 0"] exI [of _ w'] conjI exI [of _ h'] exI [of _ ps]) auto
qed

text \<open>Turning the monitor on, when nothing else happens in between.\<close>

lemma turn_on_call:
  assumes "ready w" and "uid w = 0" and "schedule pl = [Admin, Admin]"
  shows "\<exists>r w'. turn_on_monitor pl w = Some (r, w') \<and> ready w' \<and> uid w' = 0 \<and>
    (\<exists>s. kernel w' = (kernel w)\<lparr>core := s\<rparr> \<and> working s) \<and> (r = 0 \<or> r = - 1 \<and> errno w' = EALREADY)"
proof -
  have "sysThrot_ioctl pl (uid w) sysThrot_IOC_TURN_ON 0 (kernel w) = switch_on pl (kernel w)"
    using assms(2) by (simp add: sysThrot_ioctl_def check_root_user_def command_values)
  moreover have "\<exists>c s. switch_on pl (kernel w) = Some (c, (kernel w)\<lparr>core := s\<rparr>) \<and> working s \<and> c \<in> {0, - EALREADY}"
  proof (cases "working (core (kernel w))")
    case True
    then show ?thesis by (intro exI [of _ "- EALREADY"] exI [of _ "core (kernel w)"]) (simp add: switch_on_def sysThrot_turn_on_def)
  next
    case False
    then show ?thesis using assms(3) by (auto simp: switch_on_def sysThrot_turn_on_def turn_on_def)
  qed
  ultimately have "\<exists>c s. sysThrot_ioctl pl (uid w) sysThrot_IOC_TURN_ON 0 (kernel w) = Some (c, (kernel w)\<lparr>core := s\<rparr>) \<and>
      working s \<and> c \<in> {0, - EALREADY}"
    by simp
  then obtain c s where c: "sysThrot_ioctl pl (uid w) sysThrot_IOC_TURN_ON 0 (kernel w) = Some (c, (kernel w)\<lparr>core := s\<rparr>)"
    "working s" "c \<in> {0, - EALREADY}" by blast
  then have "- 4095 \<le> c" by auto
  then show ?thesis
    using device_call_ready [OF assms(1) c(1)] c(2,3) assms(2) unfolding turn_on_monitor_def by fastforce
qed

section \<open>Property\<close>

text \<open>C36: From the command line to the store. Run as root while the device is free, \<open>systhrot register-user N\<close> and
  \<open>systhrot deregister-user N\<close> exit with 0 exactly when the user \<open>N\<close> has been added to, or removed from, the set of
  limited users, and with 1 when that set is unchanged; in both cases the device is free again,
  and nothing else in the module has changed.\<close>

theorem cli_user_commands:
  assumes "ready w" and "uid w = 0" and "store_inv (store (kernel w)) R (dheap (kernel w))" and "n < 2 ^ 31"
  shows "\<exists>code w' h'. systhrot_main pl symbols supported [prog, if adding then ''register-user'' else ''deregister-user'', decimal n] w = Some (code, w') \<and>
    ready w' \<and> kernel w' = (kernel w)\<lparr>dheap := h'\<rparr> \<and> store_inv (store (kernel w)) R h' \<and>
    store_programs (store (kernel w)) h' = store_programs (store (kernel w)) (dheap (kernel w)) \<and>
    (if code = 0 then (of_nat n \<in> store_users (store (kernel w)) (dheap (kernel w)) \<longleftrightarrow> \<not> adding) \<and>
       store_users (store (kernel w)) h' = (if adding then insert (of_nat n) (store_users (store (kernel w)) (dheap (kernel w)))
         else store_users (store (kernel w)) (dheap (kernel w)) - {of_nat n})
     else code = 1 \<and> store_users (store (kernel w)) h' = store_users (store (kernel w)) (dheap (kernel w)))"
proof -
  have v: "atoi (decimal n) = of_nat n" using atoi_decimal [of n] assms(4) by simp
  have main: "systhrot_main pl symbols supported [prog, if adding then ''register-user'' else ''deregister-user'', decimal n] w =
      exit_code ((if adding then register_user else deregister_user) pl (of_nat n) w)"
    by (simp add: systhrot_main_def with_argument_def v)
  obtain r w' h' c where u: "(if adding then register_user else deregister_user) pl (of_nat n) w = Some (r, w')" "ready w'"
    "kernel w' = (kernel w)\<lparr>dheap := h'\<rparr>" "store_inv (store (kernel w)) R h'"
    "store_programs (store (kernel w)) h' = store_programs (store (kernel w)) (dheap (kernel w))"
    "change adding (of_nat n) c (store_users (store (kernel w)) (dheap (kernel w))) (store_users (store (kernel w)) h')"
    "r = (if c = 0 then 0 else - 1)"
    using user_calls [OF assms(1-3), of adding pl "of_nat n"] by blast
  show ?thesis
    unfolding main exit_code_def u(1) using u(2-7)
    by (intro exI [of _ "if r < 0 then 1 else 0"] exI [of _ w'] exI [of _ h']) (auto simp: change_def)
qed

definition sample_world :: world where
  "sample_world = \<lparr>kernel = sample_driver, available = 1, may_open = True, uid = 0, errno = 0, console = []\<rparr>"

theorem cli_user_commands_witness:
  "\<exists>code w'. systhrot_main sample_platform two_symbols 2 [''systhrot'', ''deregister-user'', ''1000''] sample_world = Some (code, w') \<and>
     ready w' \<and> code = 1"
proof -
  have w: "ready sample_world" "uid sample_world = 0" "kernel sample_world = sample_driver"
    by (simp_all add: sample_world_def ready_def)
  have n: "decimal 1000 = ''1000''" by (simp add: decimal.simps char_of_def bit_0)
  show ?thesis
    using cli_user_commands [OF w(1,2), of "{}" 1000 sample_platform two_symbols 2 "''systhrot''" False] sample_driver_inv
    by (auto simp: w n sample_driver_def booted_heap_contents split: if_splits)
qed

end
