(* ===== verification/Client.thy ===== *)
theory Client
  imports Userspace Trampoline
begin

text \<open>
  The load generator (\<open>user/client.c\<close>): the comma-separated lists and options of its command line, the registration
  and deregistration of what it hammers, the assignment of work to threads, the loop that spawns and
  signals them, and the counting of results. The clock, the allocator, the creation of threads and what the system
  calls return are parameters. The program as a whole, with what it prints, is in the theory \<open>Client_Main\<close>.
\<close>

section \<open>Lists\<close>

definition default_syscalls :: "string list" where
  "default_syscalls = [''__x64_sys_getpid'', ''__x64_sys_getuid'', ''__x64_sys_getppid'',
     ''__x64_sys_getgid'', ''__x64_sys_geteuid'', ''__x64_sys_gettid'']"

definition default_programs :: "string list" where
  "default_programs = [''st_load_gen1'', ''st_load_gen2'', ''st_load_gen3'']"

abbreviation (input) MAX_SYSCALLS :: nat where "MAX_SYSCALLS \<equiv> 16"
abbreviation (input) MAX_PROGRAMS :: nat where "MAX_PROGRAMS \<equiv> 8"

text \<open>\<open>dup_ok n\<close> says whether the copy of the \<open>n\<close>-th field can be allocated. A failing \<open>strndup\<close> ends the function with
  -1 (\<open>None\<close>); the result of the last \<open>strdup\<close> is stored unchecked.\<close>

function split_loop :: "(nat \<Rightarrow> bool) \<Rightarrow> nat \<Rightarrow> nat \<Rightarrow> string \<Rightarrow> string option list option" where
  "split_loop dup_ok most n p =
     (if p = [] \<or> most \<le> n then Some []
      else let comma = dropWhile (\<lambda>c. c \<noteq> CHR '','') p
           in if comma \<noteq> []
              then if \<not> dup_ok n then None
                   else map_option ((#) (Some (takeWhile (\<lambda>c. c \<noteq> CHR '','') p))) (split_loop dup_ok most (n + 1) (tl comma))
              else Some [if dup_ok n then Some p else None])"
  by pat_completeness auto
termination
proof (relation "measure (\<lambda>(_, _, _, p). length p)")
  fix dup_ok :: "nat \<Rightarrow> bool" and most n :: nat and p comma :: string
  assume "\<not> (p = [] \<or> most \<le> n)" and "comma = dropWhile (\<lambda>c. c \<noteq> CHR '','') p" and "comma \<noteq> []"
  then show "((dup_ok, most, n + 1, tl comma), dup_ok, most, n, p) \<in> measure (\<lambda>(_, _, _, p). length p)"
    using length_dropWhile_le [of "\<lambda>c. c \<noteq> CHR '',''" p] by (auto simp: neq_Nil_conv)
qed simp

declare split_loop.simps [simp del]

definition split_list :: "(nat \<Rightarrow> bool) \<Rightarrow> string option \<Rightarrow> nat \<Rightarrow> string option list option" where
  "split_list dup_ok names most =
     (case names of None \<Rightarrow> Some [] | Some t \<Rightarrow> if t = [] then Some [] else split_loop dup_ok most 0 t)"

text \<open>The reference: one pass from the right collects the fields, and an empty last field does not count.\<close>

definition comma_fields :: "string \<Rightarrow> string list" where
  "comma_fields p = foldr (\<lambda>c fs. if c = CHR '','' then [] # fs else (c # hd fs) # tl fs) p [[]]"

definition listed :: "string \<Rightarrow> string list" where
  "listed p = (if last (comma_fields p) = [] then butlast (comma_fields p) else comma_fields p)"

lemma comma_fields_not_empty [simp]: "comma_fields p \<noteq> []"
  by (induction p) (auto simp: comma_fields_def)

lemma comma_fields_Cons: "comma_fields (c # p) = (if c = CHR '','' then [] # comma_fields p else (c # hd (comma_fields p)) # tl (comma_fields p))"
  by (simp add: comma_fields_def)

lemma comma_fields_prefix: "CHR '','' \<notin> set xs \<Longrightarrow> comma_fields (xs @ p) = (xs @ hd (comma_fields p)) # tl (comma_fields p)"
  by (induction xs) (auto simp: comma_fields_Cons)

lemma listed_simps:
  "CHR '','' \<notin> set p \<Longrightarrow> p \<noteq> [] \<Longrightarrow> listed p = [p]"
  "CHR '','' \<notin> set xs \<Longrightarrow> listed (xs @ CHR '','' # p) = xs # listed p"
  "listed [] = []"
proof -
  have nil: "comma_fields [] = [[]]" by (simp add: comma_fields_def)
  then show "listed [] = []" by (simp add: listed_def)
  show "listed p = [p]" if "CHR '','' \<notin> set p" "p \<noteq> []"
    using comma_fields_prefix [OF that(1), of "[]"] that(2) nil by (simp add: listed_def)
  show "listed (xs @ CHR '','' # p) = xs # listed p" if "CHR '','' \<notin> set xs"
    using comma_fields_prefix [OF that, of "CHR '','' # p"] by (simp add: listed_def comma_fields_Cons)
qed

lemma split_loop_listed:
  "split_loop (\<lambda>_. True) most n p = Some (map Some (take (most - n) (listed p)))"
proof (induction "\<lambda>_ :: nat. True" most n p rule: split_loop.induct)
  case (1 most n p)
  let ?pre = "takeWhile (\<lambda>c. c \<noteq> CHR '','') p" and ?comma = "dropWhile (\<lambda>c. c \<noteq> CHR '','') p"
  show ?case
  proof (cases "p = [] \<or> most \<le> n")
    case True
    then show ?thesis by (auto simp: split_loop.simps [of _ most n p] listed_simps)
  next
    case False
    then obtain k where k: "most - n = Suc k" "most - (n + 1) = k" by (cases "most - n") auto
    have pre: "CHR '','' \<notin> set ?pre" using set_takeWhileD by fastforce
    show ?thesis
    proof (cases "?comma = []")
      case True
      then have "CHR '','' \<notin> set p" by (auto simp: dropWhile_eq_Nil_conv)
      then show ?thesis
        using False True k by (subst split_loop.simps) (simp add: listed_simps(1))
    next
      case comma: False
      then obtain rest where rest: "?comma = CHR '','' # rest"
        using hd_dropWhile [of "\<lambda>c. c \<noteq> CHR '',''" p] by (cases ?comma) auto
      then have "p = ?pre @ CHR '','' # rest" by (metis takeWhile_dropWhile_id)
      then have "listed p = ?pre # listed rest" using listed_simps(2) [OF pre, of rest] by simp
      moreover have "split_loop (\<lambda>_. True) most (n + 1) (tl ?comma) = Some (map Some (take k (listed rest)))"
        using 1(1) [OF False refl] comma k rest by simp
      ultimately show ?thesis
        using False comma k by (subst split_loop.simps) (simp add: rest)
    qed
  qed
qed

section \<open>Options\<close>

record options =
  threads_opt :: int
  duration :: int
  kill_after :: int
  do_setup :: bool
  do_teardown :: bool
  syscall_list :: "string option"
  program_list :: "string option"

definition default_options :: options where
  "default_options = \<lparr>threads_opt = 16, duration = 5, kill_after = 0, do_setup = False, do_teardown = False,
     syscall_list = None, program_list = None\<rparr>"

text \<open>The loop over the arguments behind the program's name; \<open>None\<close> is the exit with a usage message.\<close>

fun parse_options :: "string list \<Rightarrow> options \<Rightarrow> options option" where
  "parse_options [] opts = Some opts"
| "parse_options [a] opts =
     (if a = ''--setup'' then Some (opts\<lparr>do_setup := True\<rparr>)
      else if a = ''--teardown'' then Some (opts\<lparr>do_teardown := True\<rparr>)
      else None)"
| "parse_options (a # b # rest) opts =
     (if a = ''-t'' then parse_options rest (opts\<lparr>threads_opt := sint (atoi b)\<rparr>)
      else if a = ''-d'' then parse_options rest (opts\<lparr>duration := sint (atoi b)\<rparr>)
      else if a = ''-k'' then parse_options rest (opts\<lparr>kill_after := sint (atoi b)\<rparr>)
      else if a = ''-s'' then parse_options rest (opts\<lparr>syscall_list := Some b\<rparr>)
      else if a = ''-p'' then parse_options rest (opts\<lparr>program_list := Some b\<rparr>)
      else if a = ''--setup'' then parse_options (b # rest) (opts\<lparr>do_setup := True\<rparr>)
      else if a = ''--teardown'' then parse_options (b # rest) (opts\<lparr>do_teardown := True\<rparr>)
      else None)"

definition accepted_options :: "string list \<Rightarrow> options option" where
  "accepted_options argv =
     (if length argv = 1 then None
      else do {
        opts \<leftarrow> parse_options (tl argv) default_options;
        if threads_opt opts \<le> 0 \<or> duration opts \<le> 0 \<or> kill_after opts < 0 then None else Some opts })"

text \<open>The reasons for which \<open>main\<close> stops before it does anything: a wrong command line, a list that could not be copied,
  an unknown system call; and \<open>Crash\<close>, the call of \<open>strcmp\<close> on a last list entry whose unchecked copy failed.\<close>

datatype stop = Usage | ParseFailed | NotFound string | Crash

fun resolve_all :: "(nat \<Rightarrow> string option) \<Rightarrow> nat \<Rightarrow> string option list \<Rightarrow> stop + int list" where
  "resolve_all symbols supported [] = Inr []"
| "resolve_all symbols supported (None # names) = Inl Crash"
| "resolve_all symbols supported (Some name # names) =
     (let nr = find_syscall_id symbols supported name
      in if nr < 0 then Inl (NotFound name) else map_sum id ((#) nr) (resolve_all symbols supported names))"

record config =
  opts :: options
  syscalls :: "string option list"
  programs :: "string option list"
  nrs :: "int list"

definition client_config :: "(nat \<Rightarrow> bool) \<Rightarrow> (nat \<Rightarrow> bool) \<Rightarrow> (nat \<Rightarrow> string option) \<Rightarrow> nat \<Rightarrow> string list \<Rightarrow> stop + config" where
  "client_config dup1 dup2 symbols supported argv =
     (case accepted_options argv of
        None \<Rightarrow> Inl Usage
      | Some op \<Rightarrow>
          (case (split_list dup1 (syscall_list op) MAX_SYSCALLS, split_list dup2 (program_list op) MAX_PROGRAMS) of
             (Some ss, Some ps) \<Rightarrow>
               (let ss = (if ss = [] then map Some default_syscalls else ss);
                    ps = (if ps = [] then map Some default_programs else ps)
                in map_sum id (\<lambda>ns. \<lparr>opts = op, syscalls = ss, programs = ps, nrs = ns\<rparr>) (resolve_all symbols supported ss))
           | _ \<Rightarrow> Inl ParseFailed))"

lemma split_loop_length: "split_loop dup_ok most n p = Some xs \<Longrightarrow> length xs \<le> most - n"
proof (induction dup_ok most n p arbitrary: xs rule: split_loop.induct)
  case (1 dup_ok most n p)
  show ?case
    using 1(2) [unfolded split_loop.simps [of dup_ok most n p]] 1(1) by (fastforce simp: Let_def split: if_splits)
qed

lemma split_list_length: "split_list dup_ok names most = Some xs \<Longrightarrow> length xs \<le> most"
  using split_loop_length [of dup_ok most 0] by (auto simp: split_list_def split: option.splits if_splits)

lemma map_sum_Inr: "map_sum id f x = Inr z \<longleftrightarrow> (\<exists>y. x = Inr y \<and> z = f y)"
  by (cases x) auto

lemma resolve_all_ok:
  "resolve_all symbols supported names = Inr ns \<Longrightarrow> length ns = length names \<and>
     (\<forall>i < length ns. 0 \<le> ns ! i \<and> ns ! i < int supported \<and> symbols (nat (ns ! i)) = names ! i \<and> names ! i \<noteq> None)"
proof (induction symbols supported names arbitrary: ns rule: resolve_all.induct)
  case (3 symbols supported name names)
  obtain ms where ms: "ns = find_syscall_id symbols supported name # ms" "resolve_all symbols supported names = Inr ms"
    "0 \<le> find_syscall_id symbols supported name"
    using 3(2) by (cases "resolve_all symbols supported names") (auto simp: Let_def split: if_splits)
  obtain k where "find_syscall_id symbols supported name = int k" "k < supported" "symbols k = Some name"
    using ms(3) by (cases rule: find_syscall_id_cases [of symbols supported name]) auto
  then show ?case using 3(1) [OF refl _ ms(2)] ms by (auto simp: nth_Cons split: nat.splits)
qed auto

section \<open>Setting up and tearing down\<close>

text \<open>The loops over programs and system calls: a failure ends them unless \<open>errno\<close> says that there was nothing to do.\<close>

fun each :: "('a \<Rightarrow> world \<Rightarrow> (int \<times> world) option) \<Rightarrow> (world \<Rightarrow> bool) \<Rightarrow> 'a list \<Rightarrow> world \<Rightarrow> (int \<times> world) option" where
  "each f tolerated [] w = Some (0, w)"
| "each f tolerated (x # xs) w = do {
     (r, w) \<leftarrow> f x w;
     if r \<noteq> 0 \<and> \<not> tolerated w then Some (- 1, w) else each f tolerated xs w }"

definition is_already_done :: "world \<Rightarrow> bool" where
  "is_already_done w \<longleftrightarrow> errno w = EEXIST \<or> errno w = EALREADY \<or> errno w = EINVAL"

definition setup_throttle ::
  "platform \<Rightarrow> (nat \<Rightarrow> string option) \<Rightarrow> nat \<Rightarrow> string list \<Rightarrow> string list \<Rightarrow> world \<Rightarrow> (int \<times> world) option" where
  "setup_throttle pl symbols supported progs calls w = do {
     (r, w) \<leftarrow> register_user pl (uid w) w;
     if r \<noteq> 0 \<and> errno w \<noteq> EEXIST then Some (- 1, w)
     else do {
       (r, w) \<leftarrow> each (register_program pl) (\<lambda>w. errno w = EEXIST) progs w;
       if r \<noteq> 0 then Some (- 1, w)
       else do {
         (r, w) \<leftarrow> each (register_syscall pl symbols supported) (\<lambda>w. errno w = EEXIST) calls w;
         if r \<noteq> 0 then Some (- 1, w)
         else do {
           (r, w) \<leftarrow> turn_on_monitor pl w;
           if r \<noteq> 0 \<and> errno w \<noteq> EALREADY then Some (- 1, w) else Some (0, w) } } } }"

definition teardown_throttle ::
  "platform \<Rightarrow> (nat \<Rightarrow> string option) \<Rightarrow> nat \<Rightarrow> string list \<Rightarrow> string list \<Rightarrow> world \<Rightarrow> (int \<times> world) option" where
  "teardown_throttle pl symbols supported progs calls w = do {
     (r, w) \<leftarrow> turn_off_monitor pl w;
     if r \<noteq> 0 \<and> errno w \<noteq> EALREADY then Some (- 1, w)
     else do {
       (r, w) \<leftarrow> each (deregister_syscall pl symbols supported) (\<lambda>w. errno w = EEXIST) calls w;
       if r \<noteq> 0 then Some (- 1, w)
       else do {
         (r, w) \<leftarrow> each (deregister_program pl) is_already_done progs w;
         if r \<noteq> 0 then Some (- 1, w)
         else do {
           (r, w) \<leftarrow> deregister_user pl (uid w) w;
           if r \<noteq> 0 \<and> \<not> is_already_done w then Some (- 1, w) else Some (0, w) } } } }"

text \<open>What stays true through the calls, and how they add to what is registered.\<close>

abbreviation users_of :: "world \<Rightarrow> u32 set" where
  "users_of w \<equiv> store_users (store (kernel w)) (dheap (kernel w))"

abbreviation programs_of :: "world \<Rightarrow> cstring set" where
  "programs_of w \<equiv> store_programs (store (kernel w)) (dheap (kernel w))"

definition consistent :: "platform \<Rightarrow> (nat \<Rightarrow> u64) \<Rightarrow> addr set \<Rightarrow> world \<Rightarrow> bool" where
  "consistent pl site R w \<longleftrightarrow> ready w \<and> uid w = 0 \<and> store_inv (store (kernel w)) R (dheap (kernel w)) \<and>
     probes_ok pl site (dprobes (kernel w))"

definition grows :: "world \<Rightarrow> world \<Rightarrow> bool" where
  "grows w w' \<longleftrightarrow> users_of w \<subseteq> users_of w' \<and> programs_of w \<subseteq> programs_of w' \<and>
     monitored (dprobes (kernel w)) \<subseteq> monitored (dprobes (kernel w'))"

lemma grows_refl: "grows w w" and grows_trans: "grows w w' \<Longrightarrow> grows w' w'' \<Longrightarrow> grows w w''"
  by (auto simp: grows_def)

lemma each_related:
  assumes refl: "\<And>w. rel w w" and trans: "\<And>w w' w''. rel w w' \<Longrightarrow> rel w' w'' \<Longrightarrow> rel w w''"
    and step: "\<And>x w. x \<in> set xs \<Longrightarrow> G w \<Longrightarrow> \<exists>r w'. f x w = Some (r, w') \<and> G w' \<and> rel w w' \<and> (r = 0 \<or> tolerated w' \<longrightarrow> P x w')"
    and mono: "\<And>x w w'. P x w \<Longrightarrow> rel w w' \<Longrightarrow> P x w'"
    and G: "G w"
  shows "\<exists>r w'. each f tolerated xs w = Some (r, w') \<and> G w' \<and> rel w w' \<and> r \<in> {0, - 1} \<and> (r = 0 \<longrightarrow> (\<forall>x \<in> set xs. P x w'))"
  using step G
proof (induction xs arbitrary: w)
  case Nil
  then show ?case by (simp add: refl)
next
  case (Cons x xs)
  obtain r w1 where w1: "f x w = Some (r, w1)" "G w1" "rel w w1" "r = 0 \<or> tolerated w1 \<longrightarrow> P x w1"
    using Cons.prems(1) [of x w] Cons.prems(2) by auto
  show ?case
  proof (cases "r \<noteq> 0 \<and> \<not> tolerated w1")
    case True
    then show ?thesis using w1 by (intro exI [of _ "- 1"] exI [of _ w1]) simp
  next
    case False
    obtain r' w2 where w2: "each f tolerated xs w1 = Some (r', w2)" "G w2" "rel w1 w2" "r' \<in> {0, - 1}" "r' = 0 \<longrightarrow> (\<forall>x \<in> set xs. P x w2)"
      using Cons.IH [of w1] Cons.prems(1) w1(2) by auto
    show ?thesis
      using False w1 w2 mono [of x w1 w2] trans [OF w1(3) w2(3)] by (intro exI [of _ r'] exI [of _ w2]) auto
  qed
qed

lemma register_user_grows:
  assumes "consistent pl site R w"
  shows "\<exists>r w'. register_user pl v w = Some (r, w') \<and> consistent pl site R w' \<and> grows w w' \<and> (r = 0 \<or> errno w' = EEXIST \<longrightarrow> v \<in> users_of w')"
proof -
  obtain r w' h' c where u: "register_user pl v w = Some (r, w')" "ready w'" "uid w' = 0" "kernel w' = (kernel w)\<lparr>dheap := h'\<rparr>"
    "store_inv (store (kernel w)) R h'" "store_programs (store (kernel w)) h' = programs_of w"
    "change True v c (users_of w) (store_users (store (kernel w)) h')" "r = (if c = 0 then 0 else - 1)" "c \<noteq> 0 \<longrightarrow> errno w' = - c"
    using user_calls [of w R True pl v] assms by (auto simp: consistent_def)
  have "users_of w \<subseteq> store_users (store (kernel w)) h'" "r = 0 \<or> errno w' = EEXIST \<longrightarrow> v \<in> store_users (store (kernel w)) h'"
    using u(7-9) by (auto simp: change_def split: if_splits)
  then show ?thesis
    using u assms by (intro exI [of _ r] exI [of _ w']) (simp add: consistent_def grows_def)
qed

definition program_known :: "string \<Rightarrow> world \<Rightarrow> bool" where
  "program_known t w \<longleftrightarrow> t = [] \<or> length t < TASK_COMM_LEN \<and> bytes t \<in> programs_of w"

lemma register_program_grows:
  assumes "consistent pl site R w" and "c_string t"
  shows "\<exists>r w'. register_program pl t w = Some (r, w') \<and> consistent pl site R w' \<and> grows w w' \<and>
    (r = 0 \<or> errno w' = EEXIST \<longrightarrow> program_known t w')"
proof -
  obtain r w' h' c where u: "register_program pl t w = Some (r, w')" "ready w'" "uid w' = 0" "kernel w' = (kernel w)\<lparr>dheap := h'\<rparr>"
    "store_inv (store (kernel w)) R h'" "store_users (store (kernel w)) h' = users_of w"
    "if t \<noteq> [] \<and> length t < TASK_COMM_LEN then change True (bytes t) c (programs_of w) (store_programs (store (kernel w)) h')
     else c \<in> {if t = [] then 0 else - EINVAL, - ENOMEM} \<and> store_programs (store (kernel w)) h' = programs_of w"
    "r = (if c = 0 then 0 else - 1)" "c \<noteq> 0 \<longrightarrow> errno w' = - c"
    using program_calls [of w R t True pl] assms unfolding consistent_def if_True by (elim exE conjE) blast
  have "programs_of w \<subseteq> store_programs (store (kernel w)) h'"
    "r = 0 \<or> errno w' = EEXIST \<longrightarrow> t = [] \<or> length t < TASK_COMM_LEN \<and> bytes t \<in> store_programs (store (kernel w)) h'"
    using u(7-9) by (auto simp: change_def split: if_splits)
  then show ?thesis
    using u(1-6) assms(1) by (intro exI [of _ r] exI [of _ w']) (simp add: consistent_def grows_def program_known_def)
qed

definition syscall_known :: "(nat \<Rightarrow> string option) \<Rightarrow> nat \<Rightarrow> string \<Rightarrow> world \<Rightarrow> bool" where
  "syscall_known symbols supported t w \<longleftrightarrow> (\<exists>i \<in> monitored (dprobes (kernel w)). find_syscall_id symbols supported t = int i)"

lemma register_syscall_grows:
  assumes "consistent pl site R w" and "find_syscall_id symbols supported t = int i" and "i < supported_syscalls pl"
  shows "\<exists>r w'. register_syscall pl symbols supported t w = Some (r, w') \<and> consistent pl site R w' \<and> grows w w' \<and>
    (r = 0 \<or> errno w' = EEXIST \<longrightarrow> syscall_known symbols supported t w')"
proof -
  obtain r w' h' ps where u: "register_syscall pl symbols supported t w = Some (r, w')" "ready w'" "uid w' = 0"
    "kernel w' = (kernel w)\<lparr>dheap := h', dprobes := ps\<rparr>" "keeps_store (store (kernel w)) R (dheap (kernel w)) h'" "probes_ok pl site ps"
    "\<forall>j. j \<noteq> i \<longrightarrow> (j \<in> monitored ps \<longleftrightarrow> j \<in> monitored (dprobes (kernel w)))" "r = 0 \<or> errno w' = EEXIST \<longrightarrow> i \<in> monitored ps"
    "i \<in> monitored (dprobes (kernel w)) \<longrightarrow> i \<in> monitored ps"
    using syscall_calls [of w R pl site symbols supported t i True] assms unfolding consistent_def if_True by (elim exE conjE) blast
  have "monitored (dprobes (kernel w)) \<subseteq> monitored ps"
  proof
    fix j assume "j \<in> monitored (dprobes (kernel w))"
    then show "j \<in> monitored ps" using u(7,9) by (cases "j = i") auto
  qed
  then show ?thesis
    using u assms(1,2) by (intro exI [of _ r] exI [of _ w']) (auto simp: consistent_def grows_def keeps_store_def syscall_known_def)
qed

lemma program_known_grows: "program_known t w \<Longrightarrow> grows w w' \<Longrightarrow> program_known t w'"
  by (auto simp: program_known_def grows_def)

lemma syscall_known_grows: "syscall_known symbols supported t w \<Longrightarrow> grows w w' \<Longrightarrow> syscall_known symbols supported t w'"
  by (auto simp: syscall_known_def grows_def)

lemma register_programs_grow:
  assumes "consistent pl site R w" and "\<forall>t \<in> set progs. c_string t"
  shows "\<exists>r w'. each (register_program pl) (\<lambda>w. errno w = EEXIST) progs w = Some (r, w') \<and> consistent pl site R w' \<and> grows w w' \<and>
    r \<in> {0, - 1} \<and> (r = 0 \<longrightarrow> (\<forall>t \<in> set progs. program_known t w'))"
  using assms register_program_grows program_known_grows grows_refl grows_trans by (intro each_related) blast+

lemma register_syscalls_grow:
  assumes "consistent pl site R w" and "\<forall>t \<in> set calls. \<exists>i < supported_syscalls pl. find_syscall_id symbols supported t = int i"
  shows "\<exists>r w'. each (register_syscall pl symbols supported) (\<lambda>w. errno w = EEXIST) calls w = Some (r, w') \<and> consistent pl site R w' \<and>
    grows w w' \<and> r \<in> {0, - 1} \<and> (r = 0 \<longrightarrow> (\<forall>t \<in> set calls. syscall_known symbols supported t w'))"
  using assms register_syscall_grows syscall_known_grows grows_refl grows_trans by (intro each_related) blast+

subsection \<open>Tearing down\<close>

definition shrinks :: "world \<Rightarrow> world \<Rightarrow> bool" where
  "shrinks w w' \<longleftrightarrow> grows w' w"

lemma shrinks_refl: "shrinks w w" and shrinks_trans: "shrinks w w' \<Longrightarrow> shrinks w' w'' \<Longrightarrow> shrinks w w''"
  by (auto simp: shrinks_def grows_def)

lemma deregister_user_shrinks:
  assumes "consistent pl site R w"
  shows "\<exists>r w'. deregister_user pl v w = Some (r, w') \<and> consistent pl site R w' \<and> shrinks w w' \<and> core (kernel w') = core (kernel w) \<and>
    (r = 0 \<or> is_already_done w' \<longrightarrow> v \<notin> users_of w')"
proof -
  obtain r w' h' c where u: "deregister_user pl v w = Some (r, w')" "ready w'" "uid w' = 0" "kernel w' = (kernel w)\<lparr>dheap := h'\<rparr>"
    "store_inv (store (kernel w)) R h'" "store_programs (store (kernel w)) h' = programs_of w"
    "change False v c (users_of w) (store_users (store (kernel w)) h')" "r = (if c = 0 then 0 else - 1)" "c \<noteq> 0 \<longrightarrow> errno w' = - c"
    using user_calls [of w R False pl v] assms by (auto simp: consistent_def)
  have "store_users (store (kernel w)) h' \<subseteq> users_of w" "r = 0 \<or> is_already_done w' \<longrightarrow> v \<notin> store_users (store (kernel w)) h'"
    using u(7-9) by (auto simp: change_def is_already_done_def split: if_splits)
  then show ?thesis
    using u assms by (intro exI [of _ r] exI [of _ w']) (simp add: consistent_def shrinks_def grows_def)
qed

definition program_unknown :: "string \<Rightarrow> world \<Rightarrow> bool" where
  "program_unknown t w \<longleftrightarrow> t \<noteq> [] \<and> length t < TASK_COMM_LEN \<longrightarrow> bytes t \<notin> programs_of w"

lemma deregister_program_shrinks:
  assumes "consistent pl site R w" and "c_string t"
  shows "\<exists>r w'. deregister_program pl t w = Some (r, w') \<and> consistent pl site R w' \<and> shrinks w w' \<and> core (kernel w') = core (kernel w) \<and>
    (r = 0 \<or> is_already_done w' \<longrightarrow> program_unknown t w')"
proof -
  obtain r w' h' c where u: "deregister_program pl t w = Some (r, w')" "ready w'" "uid w' = 0" "kernel w' = (kernel w)\<lparr>dheap := h'\<rparr>"
    "store_inv (store (kernel w)) R h'" "store_users (store (kernel w)) h' = users_of w"
    "if t \<noteq> [] \<and> length t < TASK_COMM_LEN then change False (bytes t) c (programs_of w) (store_programs (store (kernel w)) h')
     else c \<in> {if t = [] then 0 else - EINVAL, - ENOMEM} \<and> store_programs (store (kernel w)) h' = programs_of w"
    "r = (if c = 0 then 0 else - 1)" "c \<noteq> 0 \<longrightarrow> errno w' = - c"
    using program_calls [of w R t False pl] assms unfolding consistent_def if_False by (elim exE conjE) blast
  have "store_programs (store (kernel w)) h' \<subseteq> programs_of w"
    "r = 0 \<or> is_already_done w' \<longrightarrow> t \<noteq> [] \<and> length t < TASK_COMM_LEN \<longrightarrow> bytes t \<notin> store_programs (store (kernel w)) h'"
    using u(7-9) by (auto simp: change_def is_already_done_def split: if_splits)
  then show ?thesis
    using u(1-6) assms(1) by (intro exI [of _ r] exI [of _ w']) (simp add: consistent_def shrinks_def grows_def program_unknown_def)
qed

lemma deregister_syscall_shrinks:
  assumes "consistent pl site R w" and "find_syscall_id symbols supported t = int i" and "i < supported_syscalls pl"
  shows "\<exists>r w'. deregister_syscall pl symbols supported t w = Some (r, w') \<and> consistent pl site R w' \<and> shrinks w w' \<and> core (kernel w') = core (kernel w) \<and>
    (r = 0 \<or> errno w' = EEXIST \<longrightarrow> \<not> syscall_known symbols supported t w')"
proof -
  obtain r w' h' ps where u: "deregister_syscall pl symbols supported t w = Some (r, w')" "ready w'" "uid w' = 0"
    "kernel w' = (kernel w)\<lparr>dheap := h', dprobes := ps\<rparr>" "keeps_store (store (kernel w)) R (dheap (kernel w)) h'" "probes_ok pl site ps"
    "\<forall>j. j \<noteq> i \<longrightarrow> (j \<in> monitored ps \<longleftrightarrow> j \<in> monitored (dprobes (kernel w)))" "r = 0 \<or> errno w' = EEXIST \<longrightarrow> i \<notin> monitored ps"
    "i \<notin> monitored (dprobes (kernel w)) \<longrightarrow> i \<notin> monitored ps"
    using syscall_calls [of w R pl site symbols supported t i False] assms unfolding consistent_def if_False by (elim exE conjE) blast
  have "monitored ps \<subseteq> monitored (dprobes (kernel w))"
  proof
    fix j assume "j \<in> monitored ps"
    then show "j \<in> monitored (dprobes (kernel w))" using u(7,9) by (cases "j = i") auto
  qed
  then show ?thesis
    using u assms(1,2) by (intro exI [of _ r] exI [of _ w']) (auto simp: consistent_def shrinks_def grows_def keeps_store_def syscall_known_def)
qed

lemma turn_off_call:
  assumes "consistent pl site R w" and off: "sysThrot_turn_off (supported_syscalls pl) (schedule pl) (core (kernel w)) = Some (c, s)"
  shows "\<exists>r w'. turn_off_monitor pl w = Some (r, w') \<and> consistent pl site R w' \<and> kernel w' = (kernel w)\<lparr>core := s\<rparr> \<and>
    (r = 0 \<or> r = - 1 \<and> errno w' = EALREADY)"
proof -
  have w: "ready w" "uid w = 0" using assms(1) by (simp_all add: consistent_def)
  have c: "c \<in> {0, - EALREADY}" using off by (auto simp: sysThrot_turn_off_def bind_eq_Some_conv split: if_splits)
  have "sysThrot_ioctl pl (uid w) sysThrot_IOC_TURN_OFF 0 (kernel w) = Some (c, (kernel w)\<lparr>core := s\<rparr>)"
    using w(2) off by (simp add: sysThrot_ioctl_def check_root_user_def command_values switch_off_def)
  moreover have "- 4095 \<le> c" using c by auto
  ultimately obtain w' where "turn_off_monitor pl w = Some (if c < 0 then - 1 else 0, w')" "ready w'" "uid w' = uid w" "kernel w' = (kernel w)\<lparr>core := s\<rparr>"
    "c < 0 \<longrightarrow> errno w' = - c"
    using device_call_ready [OF w(1)] unfolding turn_off_monitor_def commands_agree by blast
  then show ?thesis using assms(1) c by (intro exI [of _ "if c < 0 then - 1 else 0"] exI [of _ w']) (auto simp: consistent_def)
qed

lemma deregister_syscalls_shrink:
  assumes "consistent pl site R w \<and> core (kernel w) = s" and "\<forall>t \<in> set calls. \<exists>i < supported_syscalls pl. find_syscall_id symbols supported t = int i"
  shows "\<exists>r w'. each (deregister_syscall pl symbols supported) (\<lambda>w. errno w = EEXIST) calls w = Some (r, w') \<and>
    (consistent pl site R w' \<and> core (kernel w') = s) \<and> shrinks w w' \<and> r \<in> {0, - 1} \<and> (r = 0 \<longrightarrow> (\<forall>t \<in> set calls. \<not> syscall_known symbols supported t w'))"
proof (rule each_related [OF shrinks_refl shrinks_trans])
  show "\<exists>r w'. deregister_syscall pl symbols supported t w = Some (r, w') \<and> (consistent pl site R w' \<and> core (kernel w') = s) \<and> shrinks w w' \<and>
      (r = 0 \<or> errno w' = EEXIST \<longrightarrow> \<not> syscall_known symbols supported t w')" if "t \<in> set calls" "consistent pl site R w \<and> core (kernel w) = s" for t w
    using deregister_syscall_shrinks that assms(2) by fastforce
  show "\<not> syscall_known symbols supported t w'" if "\<not> syscall_known symbols supported t w" "shrinks w w'" for t w w'
    using that syscall_known_grows by (auto simp: shrinks_def)
qed (use assms in auto)

lemma deregister_programs_shrink:
  assumes "consistent pl site R w \<and> core (kernel w) = s" and "\<forall>t \<in> set progs. c_string t"
  shows "\<exists>r w'. each (deregister_program pl) is_already_done progs w = Some (r, w') \<and>
    (consistent pl site R w' \<and> core (kernel w') = s) \<and> shrinks w w' \<and> r \<in> {0, - 1} \<and> (r = 0 \<longrightarrow> (\<forall>t \<in> set progs. program_unknown t w'))"
proof (rule each_related [OF shrinks_refl shrinks_trans])
  show "\<exists>r w'. deregister_program pl t w = Some (r, w') \<and> (consistent pl site R w' \<and> core (kernel w') = s) \<and> shrinks w w' \<and>
      (r = 0 \<or> is_already_done w' \<longrightarrow> program_unknown t w')" if "t \<in> set progs" "consistent pl site R w \<and> core (kernel w) = s" for t w
    using deregister_program_shrinks [of pl site R w t] that assms(2) by fastforce
  show "program_unknown t w'" if "program_unknown t w" "shrinks w w'" for t w w'
    using that by (auto simp: shrinks_def grows_def program_unknown_def)
qed (use assms in auto)

section \<open>Work and threads\<close>

record worker_arg =
  syscall_nr :: int
  comm :: "string option"
  ok_calls :: int
  eagain :: int

definition worker_args :: "config \<Rightarrow> nat \<Rightarrow> worker_arg list" where
  "worker_args cfg nslots = map (\<lambda>i. \<lparr>syscall_nr = nrs cfg ! (i mod length (nrs cfg)),
     comm = programs cfg ! (i mod length (programs cfg)), ok_calls = 0, eagain = 0\<rparr>) [0..<nslots]"

text \<open>What a thread does with the value that the kernel leaves in RAX: \<open>syscall\<close> of the C library turns the
  values from -4095 to -1 into -1, and the result is stored into an \<open>int\<close>.\<close>

definition libc_syscall :: "u64 \<Rightarrow> u64" where
  "libc_syscall rax = (if - 4095 \<le> sint rax \<and> sint rax < 0 then of_int (- 1) else rax)"

definition worker_job :: "u64 \<Rightarrow> worker_arg \<Rightarrow> worker_arg" where
  "worker_job rax a =
     (let r = sint (ucast (libc_syscall rax) :: u32)
      in if r = - EAGAIN then a\<lparr>eagain := eagain a + 1\<rparr> else a\<lparr>ok_calls := ok_calls a + 1\<rparr>)"

definition now_ms :: "int \<Rightarrow> int \<Rightarrow> int" where
  "now_ms tv_sec tv_nsec = tv_sec * 1000 + tv_nsec div 1000000"

text \<open>The main loop, one turn per reading of the clock. \<open>Spawned k\<close> says that thread \<open>k\<close> was created, \<open>Signalled k\<close>
  that the first \<open>k\<close> threads were signalled. \<open>create_ok\<close> is whether \<open>pthread_create\<close> succeeds.\<close>

datatype event = Spawned nat | Signalled nat

record loop_state =
  next_spawn :: int
  spawned :: nat
  killed :: bool
  events :: "event list"

datatype loop_result = Finished loop_state | CreateFailed loop_state | StillRunning loop_state

fun spawn :: "(nat \<Rightarrow> bool) \<Rightarrow> nat \<Rightarrow> nat \<Rightarrow> loop_state \<Rightarrow> bool \<times> loop_state" where
  "spawn create_ok nslots 0 s = (True, s)"
| "spawn create_ok nslots (Suc j) s =
     (if spawned s < nslots
      then if create_ok (spawned s)
           then spawn create_ok nslots j (s\<lparr>spawned := spawned s + 1, events := events s @ [Spawned (spawned s)]\<rparr>)
           else (False, s)
      else (True, s))"

fun main_loop :: "(nat \<Rightarrow> bool) \<Rightarrow> nat \<Rightarrow> nat \<Rightarrow> int \<Rightarrow> int \<Rightarrow> int \<Rightarrow> int list \<Rightarrow> loop_state \<Rightarrow> loop_result" where
  "main_loop create_ok nthreads nslots kill end_at kill_at [] s = StillRunning s"
| "main_loop create_ok nthreads nslots kill end_at kill_at (now # clock) s =
     (if now \<ge> end_at \<and> (kill \<le> 0 \<or> killed s) then Finished s
      else let (ok, s) = (if now < end_at \<and> now \<ge> next_spawn s then spawn create_ok nslots nthreads s else (True, s));
               s = (if ok \<and> now < end_at \<and> now \<ge> next_spawn s then s\<lparr>next_spawn := next_spawn s + 1000\<rparr> else s)
           in if \<not> ok then CreateFailed s
              else let s = (if \<not> killed s \<and> kill_at > 0 \<and> now \<ge> kill_at
                            then s\<lparr>killed := True, events := events s @ [Signalled (spawned s)]\<rparr> else s)
                   in main_loop create_ok nthreads nslots kill end_at kill_at clock s)"

text \<open>The number of slots is an \<open>int\<close>; the product must not overflow.\<close>

definition client_slots :: "options \<Rightarrow> nat option" where
  "client_slots op = (let n = threads_opt op * duration op in if n < 2 ^ 31 then Some (nat n) else None)"

text \<open>The loop as \<open>main\<close> starts it, from the first reading of the clock.\<close>

definition start_loop :: "(nat \<Rightarrow> bool) \<Rightarrow> options \<Rightarrow> nat \<Rightarrow> int \<Rightarrow> int list \<Rightarrow> loop_result" where
  "start_loop create_ok op nslots start clock =
     main_loop create_ok (nat (threads_opt op)) nslots (kill_after op) (start + duration op * 1000)
       (if kill_after op > 0 then start + kill_after op * 1000 else - 1) clock
       \<lparr>next_spawn = start, spawned = 0, killed = False, events = []\<rparr>"

text \<open>The totals that are printed.\<close>

definition totals :: "worker_arg list \<Rightarrow> int \<times> int" where
  "totals args = (sum_list (map ok_calls args), sum_list (map eagain args))"

definition per_syscall :: "int \<Rightarrow> worker_arg list \<Rightarrow> int \<times> int" where
  "per_syscall nr args = totals (filter (\<lambda>a. syscall_nr a = nr) args)"

section \<open>The loop\<close>

fun final :: "loop_result \<Rightarrow> loop_state" where
  "final (Finished s) = s"
| "final (CreateFailed s) = s"
| "final (StillRunning s) = s"

fun spawned_ids :: "event list \<Rightarrow> nat list" where
  "spawned_ids [] = []"
| "spawned_ids (Spawned k # es) = k # spawned_ids es"
| "spawned_ids (Signalled _ # es) = spawned_ids es"

definition signals :: "event list \<Rightarrow> nat" where
  "signals es = length es - length (spawned_ids es)"

lemma spawned_ids_append: "spawned_ids (xs @ ys) = spawned_ids xs @ spawned_ids ys"
  by (induction xs rule: spawned_ids.induct) simp_all

lemma spawned_ids_length: "length (spawned_ids es) \<le> length es"
  by (induction es rule: spawned_ids.induct) simp_all

lemma signals_append [simp]:
  "signals (es @ [Spawned k]) = signals es" "signals (es @ [Signalled k]) = signals es + 1"
  using spawned_ids_length [of es] by (simp_all add: signals_def spawned_ids_append)

text \<open>Threads are created in order, within the slots, and at most \<open>nthreads\<close> for every second that has begun.\<close>

definition loop_inv :: "nat \<Rightarrow> nat \<Rightarrow> int \<Rightarrow> int \<Rightarrow> nat \<Rightarrow> loop_state \<Rightarrow> bool" where
  "loop_inv nthreads nslots start end_at k s \<longleftrightarrow>
     spawned s \<le> nslots \<and> spawned_ids (events s) = [0..<spawned s] \<and> signals (events s) = (if killed s then 1 else 0) \<and>
     next_spawn s = start + 1000 * int k \<and> spawned s \<le> nthreads * k \<and> (0 < k \<longrightarrow> start + 1000 * (int k - 1) < end_at)"

lemma spawn_next: "next_spawn (snd (spawn create_ok nslots j s)) = next_spawn s"
  by (induction j arbitrary: s) simp_all

lemma spawn_effect:
  assumes "spawn create_ok nslots j s = (ok, s')" and "spawned s \<le> nslots" and "spawned_ids (events s) = [0..<spawned s]"
  shows "spawned s' \<le> nslots \<and> spawned_ids (events s') = [0..<spawned s'] \<and> signals (events s') = signals (events s) \<and>
    next_spawn s' = next_spawn s \<and> killed s' = killed s \<and> spawned s \<le> spawned s' \<and> spawned s' \<le> spawned s + j"
  using assms
proof (induction j arbitrary: s)
  case (Suc j)
  then show ?case by (fastforce simp: spawned_ids_append split: if_splits)
qed simp

text \<open>One turn of the loop, when it goes on.\<close>

definition maybe_kill :: "int \<Rightarrow> int \<Rightarrow> loop_state \<Rightarrow> loop_state" where
  "maybe_kill kill_at now s = (if \<not> killed s \<and> kill_at > 0 \<and> now \<ge> kill_at
     then s\<lparr>killed := True, events := events s @ [Signalled (spawned s)]\<rparr> else s)"

lemma main_loop_cases:
  obtains (stop) "end_at \<le> now" "kill \<le> 0 \<or> killed s" "main_loop create_ok nthreads nslots kill end_at kill_at (now # clock) s = Finished s"
  | (idle) "end_at \<le> now \<or> now < next_spawn s" "\<not> (end_at \<le> now \<and> (kill \<le> 0 \<or> killed s))"
      "main_loop create_ok nthreads nslots kill end_at kill_at (now # clock) s =
       main_loop create_ok nthreads nslots kill end_at kill_at clock (maybe_kill kill_at now s)"
  | (spawned) s' where "now < end_at" "next_spawn s \<le> now" "spawn create_ok nslots nthreads s = (True, s')"
      "main_loop create_ok nthreads nslots kill end_at kill_at (now # clock) s =
       main_loop create_ok nthreads nslots kill end_at kill_at clock (maybe_kill kill_at now (s'\<lparr>next_spawn := next_spawn s' + 1000\<rparr>))"
  | (failed) s' where "now < end_at" "next_spawn s \<le> now" "spawn create_ok nslots nthreads s = (False, s')"
      "main_loop create_ok nthreads nslots kill end_at kill_at (now # clock) s = CreateFailed s'"
proof -
  obtain ok s' where s': "spawn create_ok nslots nthreads s = (ok, s')" by fastforce
  have n: "next_spawn s' = next_spawn s" using spawn_next [of create_ok nslots nthreads s] s' by simp
  show thesis
  proof (cases "end_at \<le> now \<and> (kill \<le> 0 \<or> killed s)")
    case True
    then show thesis by (intro stop) simp_all
  next
    case goes_on: False
    show thesis
    proof (cases "now < end_at \<and> next_spawn s \<le> now")
      case False
      then show thesis using goes_on by (intro idle) (auto simp: maybe_kill_def)
    next
      case True
      show thesis
      proof (cases ok)
        case ok: True
        show thesis using True goes_on s' n ok by (intro spawned [of s']) (simp_all add: maybe_kill_def Let_def)
      next
        case False
        show thesis using True goes_on s' n False by (intro failed [of s']) (simp_all add: Let_def)
      qed
    qed
  qed
qed

lemma maybe_kill_inv: "loop_inv nthreads nslots start end_at k s \<Longrightarrow> loop_inv nthreads nslots start end_at k (maybe_kill kill_at now s)"
  by (auto simp: loop_inv_def maybe_kill_def spawned_ids_append)

lemma spawn_inv:
  assumes "loop_inv nthreads nslots start end_at k s" and "spawn create_ok nslots nthreads s = (ok, s')"
    and "now < end_at" and "next_spawn s \<le> now"
  shows "loop_inv nthreads nslots start end_at (Suc k) (s'\<lparr>next_spawn := next_spawn s' + 1000\<rparr>)"
proof -
  note inv = assms(1) [unfolded loop_inv_def]
  have e: "spawned s' \<le> nslots" "spawned_ids (events s') = [0..<spawned s']" "signals (events s') = signals (events s)"
    "next_spawn s' = next_spawn s" "killed s' = killed s" "spawned s' \<le> spawned s + nthreads"
    using spawn_effect [OF assms(2)] inv by simp_all
  show ?thesis using inv e assms(3,4) by (simp add: loop_inv_def)
qed

lemma main_loop_inv:
  assumes "loop_inv nthreads nslots start end_at k s"
  shows "\<exists>k' n. loop_inv nthreads nslots start end_at k'
    ((final (main_loop create_ok nthreads nslots kill end_at kill_at clock s))\<lparr>next_spawn := n\<rparr>)"
  using assms
proof (induction clock arbitrary: k s)
  case Nil
  then show ?case by (intro exI [of _ k] exI [of _ "next_spawn s"]) simp
next
  case (Cons now clock)
  show ?case
  proof (cases rule: main_loop_cases [of end_at now kill s create_ok nthreads nslots kill_at clock])
    case stop
    then show ?thesis using Cons.prems by (intro exI [of _ k] exI [of _ "next_spawn s"]) simp
  next
    case idle
    then show ?thesis using Cons.IH [OF maybe_kill_inv [OF Cons.prems]] by simp
  next
    case (spawned s')
    show ?thesis
      unfolding spawned(4) using Cons.IH [OF maybe_kill_inv [OF spawn_inv [OF Cons.prems spawned(3,1,2)]]] .
  next
    case (failed s')
    show ?thesis
      unfolding failed(4) final.simps using spawn_inv [OF Cons.prems failed(3,1,2)] by blast
  qed
qed


text \<open>Two readings of the clock behind the end of the run and the time of the signal are enough for the loop to end.\<close>

lemma main_loop_ends:
  assumes "end_at \<le> t1" "end_at \<le> t2" and "0 < kill \<longrightarrow> 0 < kill_at \<and> kill_at \<le> t1"
  shows "\<exists>s'. main_loop create_ok nthreads nslots kill end_at kill_at (pre @ [t1, t2]) s \<in> {Finished s', CreateFailed s'} \<and>
    (main_loop create_ok nthreads nslots kill end_at kill_at (pre @ [t1, t2]) s = Finished s' \<and> 0 < kill \<longrightarrow> killed s')"
proof (induction pre arbitrary: s)
  case Nil
  then show ?case using assms by (auto simp: Let_def)
next
  case (Cons now pre)
  show ?case
    using Cons.IH by (cases rule: main_loop_cases [of end_at now kill s create_ok nthreads nslots kill_at "pre @ [t1, t2]"]) auto
qed

lemma main_loop_quiet:
  assumes "\<not> kill_at > 0" and "\<not> killed s"
  shows "\<not> killed (final (main_loop create_ok nthreads nslots kill end_at kill_at clock s))"
  using assms(2)
proof (induction clock arbitrary: s)
  case (Cons now clock)
  have keeps: "killed (snd (spawn create_ok nslots j s)) = killed s" for j s by (induction j arbitrary: s) simp_all
  have none: "maybe_kill kill_at now s = s" for s using assms(1) by (simp add: maybe_kill_def)
  show ?case
    using Cons keeps [of nthreads s]
    by (cases rule: main_loop_cases [of end_at now kill s create_ok nthreads nslots kill_at clock]) (auto simp: none)
qed simp

text \<open>A clock that is read in every second of the run.\<close>

definition polled :: "int \<Rightarrow> nat \<Rightarrow> nat \<Rightarrow> int list \<Rightarrow> bool" where
  "polled start k seconds clock \<longleftrightarrow>
     (\<forall>j \<in> {k..<seconds}. \<exists>t \<in> set clock. start + 1000 * int j \<le> t \<and> t < start + 1000 * (int j + 1))"

lemma spawn_all: "spawned s + j \<le> nslots \<Longrightarrow> \<exists>s'. spawn (\<lambda>_. True) nslots j s = (True, s') \<and> spawned s' = spawned s + j \<and>
    next_spawn s' = next_spawn s"
proof (induction j arbitrary: s)
  case (Suc j)
  then show ?case using Suc.IH [of "s\<lparr>spawned := spawned s + 1, events := events s @ [Spawned (spawned s)]\<rparr>"] by simp
qed simp

lemma maybe_kill_keeps [simp]: "spawned (maybe_kill kill_at now s) = spawned s" "next_spawn (maybe_kill kill_at now s) = next_spawn s"
  by (simp_all add: maybe_kill_def)

lemma main_loop_spawns_all:
  assumes "sorted clock" and "polled start k seconds clock" and "k \<le> seconds"
    and "next_spawn s = start + 1000 * int k" and "spawned s = nthreads * k"
  shows "spawned (final (main_loop (\<lambda>_. True) nthreads (nthreads * seconds) kill (start + 1000 * int seconds) kill_at clock s)) = nthreads * seconds \<and>
    (\<forall>s'. main_loop (\<lambda>_. True) nthreads (nthreads * seconds) kill (start + 1000 * int seconds) kill_at clock s \<noteq> CreateFailed s')"
  using assms
proof (induction clock arbitrary: k s)
  case Nil
  then have "k = seconds" by (force simp: polled_def)
  then show ?case using Nil by simp
next
  case (Cons now clock)
  have first: "now < start + 1000 * (int k + 1)" if "k < seconds"
    using Cons.prems(1,2) that unfolding polled_def by force
  show ?case
  proof (cases rule: main_loop_cases [of "start + 1000 * int seconds" now kill s "\<lambda>_. True" nthreads "nthreads * seconds" kill_at clock])
    case stop
    have "k = seconds" using first stop(1) Cons.prems(3) by (cases "k < seconds") auto
    then show ?thesis using stop Cons.prems by simp
  next
    case idle
    have "polled start k seconds clock"
    proof (cases "k < seconds")
      case True
      then have "now < start + 1000 * int k" using idle(1) first Cons.prems(4) by auto
      then show ?thesis using Cons.prems(2) by (fastforce simp: polled_def)
    qed (simp add: polled_def)
    then show ?thesis unfolding idle(3) using Cons.prems by (intro Cons.IH [of k]) simp_all
  next
    case (spawned s')
    have k: "k < seconds" using spawned(1,2) Cons.prems(4) by simp
    then have "nthreads * k + nthreads \<le> nthreads * seconds"
      by (metis Suc_leI add.commute mult_Suc_right mult_le_mono2)
    then have s': "spawned s' = nthreads * Suc k" "next_spawn s' = next_spawn s"
      using spawn_all [of s nthreads "nthreads * seconds"] spawned(3) Cons.prems(5) by auto
    have "polled start (Suc k) seconds clock"
      using Cons.prems(2) first [OF k] by (fastforce simp: polled_def)
    then show ?thesis unfolding spawned(4) using Cons.prems s' k by (intro Cons.IH [of "Suc k"]) simp_all
  next
    case (failed s')
    have k: "k < seconds" using failed(1,2) Cons.prems(4) by simp
    then have "nthreads * k + nthreads \<le> nthreads * seconds"
      by (metis Suc_leI add.commute mult_Suc_right mult_le_mono2)
    then show ?thesis using spawn_all [of s nthreads "nthreads * seconds"] failed(3) Cons.prems(5) by auto
  qed
qed


section \<open>Counting results\<close>

text \<open>The results that a thread counts as throttled.\<close>

definition throttled :: "u64 \<Rightarrow> bool" where
  "throttled rax \<longleftrightarrow> \<not> (- 4095 \<le> sint rax \<and> sint rax < 0) \<and> sint (ucast rax :: u32) = - EAGAIN"

lemma worker_job_counts:
  "ok_calls (worker_job rax a) = ok_calls a + (if throttled rax then 0 else 1)"
  "eagain (worker_job rax a) = eagain a + (if throttled rax then 1 else 0)"
  "syscall_nr (worker_job rax a) = syscall_nr a"
proof -
  have "ucast (- 1 :: u64) = (- 1 :: u32)" by (rule bit_word_eqI) (simp add: bit_ucast_iff)
  then show "ok_calls (worker_job rax a) = ok_calls a + (if throttled rax then 0 else 1)"
    "eagain (worker_job rax a) = eagain a + (if throttled rax then 1 else 0)" "syscall_nr (worker_job rax a) = syscall_nr a"
    by (simp_all add: worker_job_def throttled_def libc_syscall_def)
qed

lemma totals_worker_jobs:
  assumes "length raxs = length args" and "\<forall>a \<in> set args. ok_calls a = 0 \<and> eagain a = 0"
  shows "totals (map2 worker_job raxs args) =
    (int (length (filter (\<lambda>v. \<not> throttled v) raxs)), int (length (filter throttled raxs)))"
  using assms by (induction raxs args rule: list_induct2) (auto simp: totals_def worker_job_counts)

lemma sum_by_key:
  "(\<forall>a \<in> set args. f a \<in> set ks) \<Longrightarrow> distinct ks \<Longrightarrow>
     sum_list (map (\<lambda>k. sum_list (map v (filter (\<lambda>a. f a = k) args))) ks) = (sum_list (map v args) :: int)"
proof (induction args)
  case (Cons a args)
  have "sum_list (map (\<lambda>k. if f a = k then v a else 0) ks) = v a"
    using Cons.prems by (simp add: sum_list_distinct_conv_sum_set)
  moreover have "sum_list (map v (filter (\<lambda>a. f a = k) (a # args))) =
      (if f a = k then v a else 0) + sum_list (map v (filter (\<lambda>a. f a = k) args))" for k
    by simp
  ultimately show ?case using Cons by (simp only: sum_list_addf) simp
qed simp

lemma per_syscall_sums:
  assumes "\<forall>a \<in> set args. syscall_nr a \<in> set ns"
  shows "sum_list (map (\<lambda>nr. fst (per_syscall nr args)) (remdups ns)) = fst (totals args)"
    and "sum_list (map (\<lambda>nr. snd (per_syscall nr args)) (remdups ns)) = snd (totals args)"
  using assms sum_by_key [of args syscall_nr "remdups ns"] by (simp_all add: per_syscall_def totals_def)

section \<open>Configurations\<close>

definition config_ok :: "(nat \<Rightarrow> string option) \<Rightarrow> nat \<Rightarrow> config \<Rightarrow> bool" where
  "config_ok symbols supported cfg \<longleftrightarrow>
     threads_opt (opts cfg) > 0 \<and> duration (opts cfg) > 0 \<and> kill_after (opts cfg) \<ge> 0 \<and>
     syscalls cfg \<noteq> [] \<and> length (syscalls cfg) \<le> MAX_SYSCALLS \<and> programs cfg \<noteq> [] \<and> length (programs cfg) \<le> MAX_PROGRAMS \<and>
     length (nrs cfg) = length (syscalls cfg) \<and>
     (\<forall>i < length (nrs cfg). 0 \<le> nrs cfg ! i \<and> nrs cfg ! i < int supported \<and>
        symbols (nat (nrs cfg ! i)) = syscalls cfg ! i \<and> syscalls cfg ! i \<noteq> None)"

lemma client_config_ok:
  assumes "client_config dup1 dup2 symbols supported argv = Inr cfg"
  shows "config_ok symbols supported cfg"
proof -
  obtain op ss ps ns where c: "accepted_options argv = Some op" "split_list dup1 (syscall_list op) MAX_SYSCALLS = Some ss"
    "split_list dup2 (program_list op) MAX_PROGRAMS = Some ps"
    "resolve_all symbols supported (if ss = [] then map Some default_syscalls else ss) = Inr ns"
    "cfg = \<lparr>opts = op, syscalls = (if ss = [] then map Some default_syscalls else ss),
       programs = (if ps = [] then map Some default_programs else ps), nrs = ns\<rparr>"
    using assms by (auto simp: client_config_def Let_def map_sum_Inr split: option.splits)
  have "threads_opt op > 0 \<and> duration op > 0 \<and> kill_after op \<ge> 0"
    using c(1) by (auto simp: accepted_options_def bind_eq_Some_conv split: if_splits)
  moreover note resolve_all_ok [OF c(4)] split_list_length [OF c(2)] split_list_length [OF c(3)]
  ultimately show ?thesis
    by (simp add: c(5) config_ok_def) (auto simp: default_syscalls_def default_programs_def)
qed

lemma worker_args_nr:
  assumes "config_ok symbols supported cfg" and "a \<in> set (worker_args cfg nslots)"
  shows "syscall_nr a \<in> set (nrs cfg) \<and> comm a \<in> set (programs cfg) \<and> ok_calls a = 0 \<and> eagain a = 0"
proof -
  have "length (nrs cfg) > 0" "length (programs cfg) > 0" using assms(1) by (auto simp: config_ok_def)
  then show ?thesis using assms(2) by (auto simp: worker_args_def intro!: nth_mem)
qed

section \<open>Properties\<close>

text \<open>The run of the load generator. With accepted options whose product does not overflow, and a clock that gets past the
  end of the run and the time of the signal, the loop ends, after creating the threads \<open>0, 1, 2, \<dots>\<close> in order,
  never more than there are slots, and signalling them exactly once if that was asked for, and otherwise never. If every thread can be created and
  the clock is read in every second of the run, all slots are used.\<close>

lemma client_run:
  assumes "threads_opt op > 0" "duration op > 0" "kill_after op \<ge> 0" and "client_slots op = Some nslots" and "0 \<le> start"
    and clock: "clock = pre @ [t1, t2]" "start + 1000 * max (duration op) (kill_after op) \<le> min t1 t2"
  shows "\<exists>s. start_loop create_ok op nslots start clock \<in> {Finished s, CreateFailed s} \<and>
    spawned s \<le> nslots \<and> spawned_ids (events s) = [0..<spawned s] \<and> signals (events s) \<le> (if kill_after op > 0 then 1 else 0) \<and>
    (start_loop create_ok op nslots start clock = Finished s \<and> kill_after op > 0 \<longrightarrow> signals (events s) = 1) \<and>
    ((\<forall>k. create_ok k) \<and> sorted clock \<and> polled start 0 (nat (duration op)) clock \<longrightarrow>
       start_loop create_ok op nslots start clock = Finished s \<and> spawned s = nslots)"
proof -
  define end_at where "end_at = start + duration op * 1000"
  define kill_at where "kill_at = (if kill_after op > 0 then start + kill_after op * 1000 else - 1)"
  define s0 where "s0 = \<lparr>next_spawn = start, spawned = 0, killed = False, events = []\<rparr>"
  let ?run = "main_loop create_ok (nat (threads_opt op)) nslots (kill_after op) end_at kill_at clock s0"
  have run: "start_loop create_ok op nslots start clock = ?run"
    by (simp add: start_loop_def end_at_def kill_at_def s0_def)
  have "nat (threads_opt op * duration op) = nat (threads_opt op) * nat (duration op)"
    using assms(1) by (intro nat_mult_distrib) simp
  then have slots: "nslots = nat (threads_opt op) * nat (duration op)"
    using assms(4) by (auto simp: client_slots_def Let_def split: if_splits)
  have bounds: "end_at \<le> t1" "end_at \<le> t2" "0 < kill_after op \<longrightarrow> 0 < kill_at \<and> kill_at \<le> t1"
    using clock(2) assms(5) by (auto simp: end_at_def kill_at_def max_def split: if_splits)
  obtain s where s: "?run \<in> {Finished s, CreateFailed s}" "?run = Finished s \<and> 0 < kill_after op \<longrightarrow> killed s"
    using main_loop_ends [OF bounds] unfolding clock(1) by blast
  then have fin: "final ?run = s" by auto
  have "loop_inv (nat (threads_opt op)) nslots start end_at 0 s0"
    by (simp add: loop_inv_def s0_def signals_def)
  from main_loop_inv [OF this, of create_ok "kill_after op" kill_at clock]
  have inv: "spawned s \<le> nslots \<and> spawned_ids (events s) = [0..<spawned s] \<and> signals (events s) = (if killed s then 1 else 0)"
    unfolding fin by (auto simp: loop_inv_def)
  have quiet: "\<not> killed s" if "\<not> kill_after op > 0"
    using main_loop_quiet [of kill_at s0 create_ok "nat (threads_opt op)" nslots "kill_after op" end_at clock] that fin
    by (simp add: kill_at_def s0_def)
  have all: "?run = Finished s \<and> spawned s = nslots"
    if "\<forall>k. create_ok k" "sorted clock" "polled start 0 (nat (duration op)) clock"
  proof -
    have "create_ok = (\<lambda>_. True)" using that(1) by auto
    moreover have "start + 1000 * int (nat (duration op)) = end_at" using assms(2) by (simp add: end_at_def)
    ultimately show ?thesis
      using main_loop_spawns_all [OF that(2,3), of s0 "nat (threads_opt op)" "kill_after op" kill_at] s(1) fin
      by (auto simp: s0_def slots)
  qed
  show ?thesis
    using s inv quiet all unfolding run by (intro exI [of _ s]) auto
qed

text \<open>The comma-separated lists. As long as its copies can be allocated, \<open>split_list\<close> computes the fields of the list from the
  left, leaves out an empty field behind the last comma, and keeps at most as many as the array has room for.\<close>

lemma split_list_equiv:
  "split_list (\<lambda>_. True) (Some t) most = Some (map Some (take most (listed t)))"
  by (simp add: split_list_def split_loop_listed listed_simps)

text \<open>C38: Every configuration that the load generator accepts is well formed: the numbers of threads and seconds are positive, the lists
  are not empty and fit their arrays, and every entry of \<open>nr\<close> is the index, in the table, of the system call of that position; the
  argument of every thread is one of those calls and one of the programs, with both counters 0.\<close>

theorem client_config_type:
  assumes "client_config dup1 dup2 symbols supported argv = Inr cfg"
  shows "config_ok symbols supported cfg \<and> length (worker_args cfg nslots) = nslots \<and>
    (\<forall>a \<in> set (worker_args cfg nslots). 0 \<le> syscall_nr a \<and> syscall_nr a < int supported \<and>
       symbols (nat (syscall_nr a)) \<in> set (syscalls cfg) \<and> comm a \<in> set (programs cfg) \<and> ok_calls a = 0 \<and> eagain a = 0)"
proof -
  note ok = client_config_ok [OF assms]
  have "0 \<le> n \<and> n < int supported \<and> symbols (nat n) \<in> set (syscalls cfg)" if "n \<in> set (nrs cfg)" for n
    using that ok by (auto simp: in_set_conv_nth config_ok_def)
  then show ?thesis using ok worker_args_nr [OF ok] by (auto simp: worker_args_def)
qed

definition three_symbols :: "nat \<Rightarrow> string option" where
  "three_symbols = (\<lambda>i. if i = 1 then Some ''sys_a'' else if i = 2 then Some ''sys_b'' else None)"

definition sample_argv :: "string list" where
  "sample_argv = [''client'', ''-t'', ''2'', ''-d'', ''1'', ''-s'', ''sys_b,sys_a'']"

definition sample_config :: config where
  "sample_config = \<lparr>opts = default_options\<lparr>threads_opt := 2, duration := 1, syscall_list := Some ''sys_b,sys_a''\<rparr>,
     syscalls = [Some ''sys_b'', Some ''sys_a''], programs = map Some default_programs, nrs = [2, 1]\<rparr>"

lemma sample_config_accepted: "client_config (\<lambda>_. True) (\<lambda>_. True) three_symbols 3 sample_argv = Inr sample_config"
proof -
  have nums: "atoi ''2'' = 2" "atoi ''1'' = 1" by (simp_all add: atoi_def is_digit_def)
  have calls: "split_list (\<lambda>_. True) (Some ''sys_b,sys_a'') 16 = Some [Some ''sys_b'', Some ''sys_a'']"
    by (simp add: split_list_def split_loop_listed listed_def comma_fields_def)
  have opts: "accepted_options sample_argv = Some (opts sample_config)"
    by (simp add: accepted_options_def sample_argv_def sample_config_def default_options_def nums)
  have upt: "[0..<3] = [0, 1, 2]" by (simp add: upt_rec)
  have none: "split_list (\<lambda>_. True) None 8 = Some []" by (simp add: split_list_def)
  have nums: "resolve_all three_symbols 3 [Some ''sys_b'', Some ''sys_a''] = Inr [2, 1]"
    by (simp add: find_syscall_id_def upt three_symbols_def)
  have lists: "syscall_list (opts sample_config) = Some ''sys_b,sys_a''" "program_list (opts sample_config) = None"
    by (simp_all add: sample_config_def default_options_def)
  show ?thesis
    by (simp add: client_config_def opts lists calls none nums Let_def del: resolve_all.simps) (simp add: sample_config_def)
qed

theorem client_config_type_witness:
  "config_ok three_symbols 3 sample_config \<and> length (worker_args sample_config 10) = 10"
  using client_config_type [OF sample_config_accepted, of 10] by simp

text \<open>The results that are printed. If \<open>n\<close> threads have run, each with one result of its system call, then the two totals add up to \<open>n\<close>,
  the second one is the number of throttled results, and the two columns of the list per system call (every call
  taken once) add up to the totals. The value that the trampoline leaves for an aborted call counts as
  throttled; the usual encoding of the error \<open>-EAGAIN\<close> would not.\<close>

lemma client_results:
  assumes "client_config dup1 dup2 symbols supported argv = Inr cfg" and "length raxs \<le> nslots"
    and "args = map2 worker_job raxs (take (length raxs) (worker_args cfg nslots))"
  shows "fst (totals args) + snd (totals args) = int (length raxs) \<and> snd (totals args) = int (length (filter throttled raxs)) \<and>
    sum_list (map (\<lambda>nr. fst (per_syscall nr args)) (remdups (nrs cfg))) = fst (totals args) \<and>
    sum_list (map (\<lambda>nr. snd (per_syscall nr args)) (remdups (nrs cfg))) = snd (totals args) \<and>
    throttled 0xFFFFFFF5 \<and> \<not> throttled (of_int (- EAGAIN))"
proof -
  let ?todo = "take (length raxs) (worker_args cfg nslots)"
  note nr = worker_args_nr [OF client_config_ok [OF assms(1)]]
  have "length raxs = length ?todo" using assms(2) by (simp add: worker_args_def)
  moreover have todo: "syscall_nr a \<in> set (nrs cfg) \<and> ok_calls a = 0 \<and> eagain a = 0" if "a \<in> set ?todo" for a
    using nr [OF in_set_takeD [OF that]] by simp
  ultimately have tot: "totals args = (int (length (filter (\<lambda>v. \<not> throttled v) raxs)), int (length (filter throttled raxs)))"
    unfolding assms(3) by (intro totals_worker_jobs) auto
  have "\<forall>a \<in> set args. syscall_nr a \<in> set (nrs cfg)"
    unfolding assms(3) using todo by (auto simp: worker_job_counts dest: set_zip_rightD)
  note sums = per_syscall_sums [OF this]
  have "int (length (filter (\<lambda>v. \<not> throttled v) raxs)) + int (length (filter throttled raxs)) = int (length raxs)"
    using sum_length_filter_compl [of throttled raxs] by simp
  moreover have "throttled 0xFFFFFFF5" "\<not> throttled (of_int (- EAGAIN))" by (simp_all add: throttled_def)
  ultimately show ?thesis using tot sums by simp
qed

lemma setup_runs:
  assumes "consistent pl site R w" and "\<forall>t \<in> set progs. c_string t" and "schedule pl = [Admin, Admin]"
    and "\<forall>t \<in> set calls. \<exists>i < supported_syscalls pl. find_syscall_id symbols supported t = int i"
  shows "\<exists>r w'. setup_throttle pl symbols supported progs calls w = Some (r, w') \<and> consistent pl site R w' \<and> grows w w' \<and>
    r \<in> {0, - 1} \<and> (r = 0 \<longrightarrow> 0 \<in> users_of w' \<and> (\<forall>t \<in> set progs. program_known t w') \<and>
      (\<forall>t \<in> set calls. syscall_known symbols supported t w') \<and> working (core (kernel w')))"
proof -
  obtain r1 w1 where s1: "register_user pl (uid w) w = Some (r1, w1)" "consistent pl site R w1" "grows w w1"
    "r1 = 0 \<or> errno w1 = EEXIST \<longrightarrow> 0 \<in> users_of w1"
    using register_user_grows [OF assms(1), of "uid w"] assms(1) by (auto simp: consistent_def)
  obtain r2 w2 where s2: "each (register_program pl) (\<lambda>w. errno w = EEXIST) progs w1 = Some (r2, w2)" "consistent pl site R w2" "grows w1 w2"
    "r2 = 0 \<longrightarrow> (\<forall>t \<in> set progs. program_known t w2)"
    using register_programs_grow [OF s1(2) assms(2)] by blast
  obtain r3 w3 where s3: "each (register_syscall pl symbols supported) (\<lambda>w. errno w = EEXIST) calls w2 = Some (r3, w3)" "consistent pl site R w3" "grows w2 w3"
    "r3 = 0 \<longrightarrow> (\<forall>t \<in> set calls. syscall_known symbols supported t w3)"
    using register_syscalls_grow [OF s2(2) assms(4)] by blast
  obtain r4 w4 s where s4: "turn_on_monitor pl w3 = Some (r4, w4)" "ready w4" "uid w4 = 0" "kernel w4 = (kernel w3)\<lparr>core := s\<rparr>" "working s"
    "r4 = 0 \<or> r4 = - 1 \<and> errno w4 = EALREADY"
    using turn_on_call [of w3 pl] s3(2) assms(3) unfolding consistent_def by blast
  have c4: "consistent pl site R w4" "grows w3 w4" using s3(2) s4(2-4) by (simp_all add: consistent_def grows_def)
  note known = program_known_grows syscall_known_grows
  have g: "grows w w2" "grows w w3" "grows w w4" "grows w1 w4" "grows w2 w4"
    using s1(3) s2(3) s3(3) c4(2) grows_trans by blast+
  show ?thesis
  proof (cases "r1 \<noteq> 0 \<and> errno w1 \<noteq> EEXIST")
    case True
    then show ?thesis using s1 by (intro exI [of _ "- 1"] exI [of _ w1]) (simp add: setup_throttle_def)
  next
    case ok1: False
    show ?thesis
    proof (cases "r2 = 0")
      case False
      then show ?thesis using ok1 s1 s2 g by (intro exI [of _ "- 1"] exI [of _ w2]) (auto simp: setup_throttle_def)
    next
      case ok2: True
      show ?thesis
      proof (cases "r3 = 0")
        case False
        then show ?thesis using ok1 ok2 s1 s2 s3 g by (intro exI [of _ "- 1"] exI [of _ w3]) (auto simp: setup_throttle_def)
      next
        case True
        have "setup_throttle pl symbols supported progs calls w = Some (0, w4)"
          using ok1 ok2 True s1(1) s2(1) s3(1) s4(1,6) by (auto simp: setup_throttle_def)
        moreover have "0 \<in> users_of w4" using ok1 s1(4) g(4) by (auto simp: grows_def)
        moreover have "\<forall>t \<in> set progs. program_known t w4" using ok2 s2(4) g(5) known(1) by blast
        moreover have "\<forall>t \<in> set calls. syscall_known symbols supported t w4" using True s3(4) c4(2) known(2) by blast
        moreover have "working (core (kernel w4))" using s4(4,5) by simp
        ultimately show ?thesis using c4(1) g(3) by (intro exI [of _ 0] exI [of _ w4]) simp
      qed
    qed
  qed
qed




text \<open>C39: Tearing down. Run as root on a consistent module, with known system calls, and when the call that turns the monitor off returns,
  \<open>teardown_throttle\<close> runs without a fault, registers nothing and leaves the module consistent. When it returns 0,
  the calling user and every program and system call of the lists are no longer registered, whether or not they were before; in any case the
  monitor is off.\<close>

theorem teardown_unregisters_everything:
  assumes "consistent pl site R w" and "\<forall>t \<in> set progs. c_string t"
    and "\<forall>t \<in> set calls. \<exists>i < supported_syscalls pl. find_syscall_id symbols supported t = int i"
    and "sysThrot_turn_off (supported_syscalls pl) (schedule pl) (core (kernel w)) = Some (c, s)"
  shows "\<exists>r w'. teardown_throttle pl symbols supported progs calls w = Some (r, w') \<and> consistent pl site R w' \<and> grows w' w \<and>
    core (kernel w') = s \<and> \<not> working s \<and> r \<in> {0, - 1} \<and> (r = 0 \<longrightarrow> 0 \<notin> users_of w' \<and> (\<forall>t \<in> set progs. program_unknown t w') \<and>
      (\<forall>t \<in> set calls. \<not> syscall_known symbols supported t w'))"
proof -
  obtain r1 w1 where s1: "turn_off_monitor pl w = Some (r1, w1)" "consistent pl site R w1" "kernel w1 = (kernel w)\<lparr>core := s\<rparr>"
    "r1 = 0 \<or> r1 = - 1 \<and> errno w1 = EALREADY"
    using turn_off_call [OF assms(1,4)] by blast
  have c1: "consistent pl site R w1 \<and> core (kernel w1) = s" "shrinks w w1" using s1(2,3) by (simp_all add: shrinks_def grows_def)
  obtain r2 w2 where s2: "each (deregister_syscall pl symbols supported) (\<lambda>w. errno w = EEXIST) calls w1 = Some (r2, w2)"
    "consistent pl site R w2 \<and> core (kernel w2) = s" "shrinks w1 w2" "r2 = 0 \<longrightarrow> (\<forall>t \<in> set calls. \<not> syscall_known symbols supported t w2)"
    using deregister_syscalls_shrink [OF c1(1) assms(3)] by blast
  obtain r3 w3 where s3: "each (deregister_program pl) is_already_done progs w2 = Some (r3, w3)"
    "consistent pl site R w3 \<and> core (kernel w3) = s" "shrinks w2 w3" "r3 = 0 \<longrightarrow> (\<forall>t \<in> set progs. program_unknown t w3)"
    using deregister_programs_shrink [OF s2(2) assms(2)] by blast
  obtain r4 w4 where s4: "deregister_user pl (uid w3) w3 = Some (r4, w4)" "consistent pl site R w4" "shrinks w3 w4" "core (kernel w4) = s"
    "r4 = 0 \<or> is_already_done w4 \<longrightarrow> 0 \<notin> users_of w4"
    using deregister_user_shrinks [of pl site R w3 "uid w3"] s3(2) by (auto simp: consistent_def)
  have g: "shrinks w w2" "shrinks w w3" "shrinks w w4" "shrinks w2 w4" using c1(2) s2(3) s3(3) s4(3) shrinks_trans by blast+
  have start: "teardown_throttle pl symbols supported progs calls w = do {
      (r, w) \<leftarrow> Some (r2, w2);
      if r \<noteq> 0 then Some (- 1, w)
      else do {
        (r, w) \<leftarrow> each (deregister_program pl) is_already_done progs w;
        if r \<noteq> 0 then Some (- 1, w)
        else do {
          (r, w) \<leftarrow> deregister_user pl (uid w) w;
          if r \<noteq> 0 \<and> \<not> is_already_done w then Some (- 1, w) else Some (0, w) } } }"
    using s1(1,4) s2(1) by (auto simp: teardown_throttle_def)
  have off: "\<not> working s" by (rule turn_off_result [OF assms(4)])
  show ?thesis
  proof (cases "r2 = 0")
    case False
    then show ?thesis using start off s2(2) g(1) by (intro exI [of _ "- 1"] exI [of _ w2]) (simp add: shrinks_def)
  next
    case ok2: True
    show ?thesis
    proof (cases "r3 = 0")
      case False
      then show ?thesis using start off ok2 s3(1,2) g(2) by (intro exI [of _ "- 1"] exI [of _ w3]) (simp add: shrinks_def)
    next
      case ok3: True
      have "\<forall>t \<in> set calls. \<not> syscall_known symbols supported t w4" using s2(4) ok2 g(4) syscall_known_grows by (auto simp: shrinks_def)
      moreover have "\<forall>t \<in> set progs. program_unknown t w4" using s3(4) ok3 s4(3) by (auto simp: shrinks_def grows_def program_unknown_def)
      ultimately show ?thesis
        using start off ok2 ok3 s3(1) s4 g(3)
        by (intro exI [of _ "if r4 \<noteq> 0 \<and> \<not> is_already_done w4 then - 1 else 0"] exI [of _ w4]) (auto simp: shrinks_def)
    qed
  qed
qed


theorem teardown_unregisters_everything_witness:
  "\<exists>r w'. teardown_throttle (sample_platform\<lparr>schedule := [Admin, Admin, Admin, Admin]\<rparr>) two_symbols 2 [''bash''] [''__x64_sys_write''] sample_world = Some (r, w') \<and>
     \<not> working (core (kernel w'))"
proof -
  let ?pl = "sample_platform\<lparr>schedule := [Admin, Admin, Admin, Admin]\<rparr>"
  have "probes_ok ?pl two_sites no_probes"
    using no_probes_inv sample_kernel_ok two_sites_ok by (simp add: probes_ok_def sample_platform_def sample_kernel_def)
  then have "consistent ?pl two_sites {} sample_world"
    using sample_driver_inv by (simp add: consistent_def sample_world_def ready_def sample_driver_def)
  moreover have "find_syscall_id two_symbols 2 ''__x64_sys_write'' = int 1"
    by (simp add: find_syscall_id_def two_symbols_def numeral_2_eq_2)
  moreover have "c_string ''bash''" by (simp add: c_string_def char_of_def bit_0)
  moreover have pl: "supported_syscalls ?pl = 2" "schedule ?pl = [Admin, Admin, Admin, Admin]" by (simp_all add: sample_platform_def)
  moreover have "\<exists>s. sysThrot_turn_off 2 [Admin, Admin, Admin, Admin] (core (kernel sample_world)) = Some (0, s)"
    by (simp add: sample_world_def sample_driver_def started_def loaded_def one_thread_def run_defs wake_up_everyone_def wake_up_queue_def
        destroy_def destroy_queue_def free_junk_def sysThrot_turn_off_def)
  ultimately obtain s where "consistent ?pl two_sites {} sample_world" "sysThrot_turn_off (supported_syscalls ?pl) (schedule ?pl) (core (kernel sample_world)) = Some (0, s)"
    "find_syscall_id two_symbols 2 ''__x64_sys_write'' = int 1" "c_string ''bash''" by auto
  then show ?thesis
    using teardown_unregisters_everything [of ?pl two_sites "{}" sample_world "[''bash'']" "[''__x64_sys_write'']" two_symbols 2 0 s] pl by fastforce
qed

end
