(* ===== verification/Client_Main.thy ===== *)
theory Client_Main
  imports Client
begin

text \<open>
  The load generator as a whole (\<open>user/client.c\<close>, \<open>main\<close> and \<open>read_monitor\<close>): the parts of the theory \<open>Client\<close> in
  the order in which \<open>main\<close> runs them, with its exit codes and the lines it prints. The surroundings of the process are parameters:
  the allocator, the clock, the creation of threads, what their system calls return and do to the kernel meanwhile, and the file
  \<open>/proc/SYSTHROT\<close>. Line breaks, and the blank lines between the parts of the output, are left out, and so is the line with the throughput, which is
  computed in floating point.
\<close>

record surroundings =
  dup_syscalls :: "nat \<Rightarrow> bool"
  dup_programs :: "nat \<Rightarrow> bool"
  calloc_args :: bool
  calloc_tids :: bool
  getpid :: int
  thread_ok :: "nat \<Rightarrow> bool"
  started_at :: int
  clock_readings :: "int list"
  ended_at :: int
  threads_run :: "nat \<Rightarrow> world \<Rightarrow> u64 list \<times> world"
  proc_open :: "world \<Rightarrow> bool"
  proc_read :: "world \<Rightarrow> nat \<Rightarrow> string option"

text \<open>\<open>read\<close> fails or delivers at most the requested number of bytes; what is printed ends at the first terminator.\<close>

definition read_monitor :: "surroundings \<Rightarrow> world \<Rightarrow> int \<times> world" where
  "read_monitor e w =
     (if \<not> proc_open e w then (- 1, say ''open /proc/SYSTHROT'' w)
      else case proc_read e w (16384 - 1) of
        None \<Rightarrow> (- 1, say ''read /proc/SYSTHROT'' w)
      | Some buf \<Rightarrow> (0, say (takeWhile (\<lambda>c. c \<noteq> char_of (0 :: nat)) buf) w))"

definition banner :: "int \<Rightarrow> options \<Rightarrow> nat \<Rightarrow> string list \<Rightarrow> string list \<Rightarrow> string list" where
  "banner pid op nslots calls progs =
     [''PID: '' @ signed_decimal pid @ '', hammering '' @ decimal (length calls) @ '' syscalls ('' @
        decimal (length progs) @ '' program names)'',
      ''Spawn profile: '' @ signed_decimal (threads_opt op) @ '' thread(s) every second for '' @
        signed_decimal (duration op) @ '' s ('' @ decimal nslots @ '' total threads)''] @
     (if kill_after op > 0
      then [''Kill profile:  SIGTERM sent to all running threads after '' @ signed_decimal (kill_after op) @ '' s''] else []) @
     [''Syscalls:'' @ concat (map (\<lambda>t. '' '' @ t) calls), ''Programs:'' @ concat (map (\<lambda>t. '' '' @ t) progs)]"

fun kill_lines :: "event list \<Rightarrow> string list" where
  "kill_lines [] = []"
| "kill_lines (Spawned k # es) = kill_lines es"
| "kill_lines (Signalled k # es) = (''Sending SIGTERM to '' @ decimal k @ '' running thread(s)'') # kill_lines es"

definition call_line :: "worker_arg list \<Rightarrow> string \<times> int \<Rightarrow> string" where
  "call_line args = (\<lambda>(name, nr). let (ok, eg) = per_syscall nr args in
     ''  '' @ name @ replicate (22 - length name) CHR '' '' @ '' '' @ signed_decimal ok @ '' / '' @ signed_decimal eg)"

definition ok_line :: "int \<Rightarrow> string" where
  "ok_line n = ''OK calls:     '' @ signed_decimal n"

definition eagain_line :: "int \<Rightarrow> string" where
  "eagain_line n = ''EAGAIN calls: '' @ signed_decimal n"

definition result_lines :: "int \<Rightarrow> worker_arg list \<Rightarrow> string list \<Rightarrow> int list \<Rightarrow> string list" where
  "result_lines elapsed args calls ns =
     (let (ok, eg) = totals args
      in [''--- Results ---'', ''Elapsed:      '' @ signed_decimal elapsed @ '' ms'', ok_line ok, eagain_line eg,
          ''Per-syscall (OK / EAGAIN):''] @ map (call_line args) (zip calls ns) @ [''--- Monitor dump ---''])"

definition client_usage :: "string \<Rightarrow> string list" where
  "client_usage prog =
     [''Usage: '' @ prog @ '' [-t NTHREADS] [-d SECONDS] [-k SECONDS] [-s SYSCALLS] [-p PROGRAMS] [--setup] [--teardown]'',
      [],
      ''  -t NTHREADS   worker threads spawned every second (default '' @ signed_decimal (threads_opt default_options) @ '')'',
      ''  -d SECONDS    duration of the run (default '' @ signed_decimal (duration default_options) @ '')'',
      ''  -k SECONDS    after SECONDS send SIGTERM to all running threads (default '' @
         signed_decimal (kill_after default_options) @ '' = off)'',
      ''  -s SYSCALLS   comma-separated syscall symbol names to hammer'',
      ''                (default: '' @ hd default_syscalls @ '')'',
      ''  -p PROGRAMS   comma-separated program names workers impersonate'',
      ''                (default: '' @ hd default_programs @ '',...) names are limited to 15 chars'',
      ''  --setup       register user, programs and syscalls, then turn throttling on'',
      ''  --teardown    turn throttling off and deregister everything again'']"

fun stop_lines :: "string \<Rightarrow> stop \<Rightarrow> string list" where
  "stop_lines prog Usage = client_usage prog"
| "stop_lines prog ParseFailed = [''failed to parse syscall/program list'']"
| "stop_lines prog (NotFound name) = [''Syscall '' @ name @ '' not found in supported syscalls'']"
| "stop_lines prog Crash = []"

text \<open>The run from the creation of the threads to the end. \<open>None\<close> is a fault, a loop that does not end within the
  given readings of the clock, or an overflow.\<close>

definition run_and_report :: "surroundings \<Rightarrow> platform \<Rightarrow> (nat \<Rightarrow> string option) \<Rightarrow> nat \<Rightarrow> config \<Rightarrow> string list \<Rightarrow> string list \<Rightarrow> nat \<Rightarrow> world \<Rightarrow>
    (int \<times> world) option" where
  "run_and_report e pl symbols supported cfg progs calls nslots w =
     (case start_loop (thread_ok e) (opts cfg) nslots (started_at e) (clock_readings e) of
        StillRunning s \<Rightarrow> None
      | CreateFailed s \<Rightarrow>
          (let (raxs, w) = threads_run e (spawned s) (say ''pthread_create'' (say_all (kill_lines (events s)) w))
           in Some (EXIT_FAILURE, w))
      | Finished s \<Rightarrow>
          (let (raxs, w) = threads_run e (spawned s) (say_all (kill_lines (events s)) w);
               args = map2 worker_job raxs (take (spawned s) (worker_args cfg nslots));
               w = say_all (result_lines (ended_at e - started_at e) args calls (nrs cfg)) w;
               (_, w) = read_monitor e w
           in do {
             (r, w) \<leftarrow> (if do_teardown (opts cfg) then teardown_throttle pl symbols supported progs calls w else Some (0, w));
             Some (if r \<noteq> 0 then EXIT_FAILURE else EXIT_SUCCESS, w) }))"

text \<open>\<open>pl\<close> and \<open>pl'\<close> are the machine while the module is set up and while it is torn down. A list of programs with an entry that
  could not be copied is outside the model.\<close>

definition client_main :: "surroundings \<Rightarrow> platform \<Rightarrow> platform \<Rightarrow> (nat \<Rightarrow> string option) \<Rightarrow> nat \<Rightarrow> string list \<Rightarrow> world \<Rightarrow> (int \<times> world) option" where
  "client_main e pl pl' symbols supported argv w =
     (case client_config (dup_syscalls e) (dup_programs e) symbols supported argv of
        Inl Crash \<Rightarrow> None
      | Inl why \<Rightarrow> Some (EXIT_FAILURE, say_all (stop_lines (hd argv) why) w)
      | Inr cfg \<Rightarrow> do {
          calls \<leftarrow> those (syscalls cfg);
          progs \<leftarrow> those (programs cfg);
          (r, w) \<leftarrow> (if do_setup (opts cfg) then setup_throttle pl symbols supported progs calls w else Some (0, w));
          if r \<noteq> 0 then Some (EXIT_FAILURE, w)
          else do {
            nslots \<leftarrow> client_slots (opts cfg);
            if \<not> calloc_args e \<or> \<not> calloc_tids e then Some (EXIT_FAILURE, say ''calloc'' w)
            else run_and_report e pl' symbols supported cfg progs calls nslots
                   (say_all (banner (getpid e) (opts cfg) nslots calls progs) w) } })"

section \<open>Facts about the parts\<close>

lemma those_Some: "those xs = Some ys \<longleftrightarrow> xs = map Some ys"
proof (induction xs arbitrary: ys)
  case (Cons x xs)
  then show ?case by (cases x) auto
qed auto

lemma config_names:
  assumes "config_ok symbols supported cfg"
  shows "\<exists>calls. syscalls cfg = map Some calls \<and> length calls = length (nrs cfg) \<and>
    (\<forall>t \<in> set calls. \<exists>i < supported. find_syscall_id symbols supported t = int i)"
proof -
  have "None \<notin> set (syscalls cfg)" using assms by (auto simp: config_ok_def in_set_conv_nth)
  then obtain calls where c: "syscalls cfg = map Some calls"
    by (metis ex_map_conv not_Some_eq)
  have "\<exists>i < supported. find_syscall_id symbols supported t = int i" if t: "t \<in> set calls" for t
  proof -
    obtain j where "j < length calls" "calls ! j = t" using t by (auto simp: in_set_conv_nth)
    then have j: "j < length (nrs cfg)" "syscalls cfg ! j = Some t" using c assms by (auto simp: config_ok_def)
    then have "symbols (nat (nrs cfg ! j)) = Some t" "nat (nrs cfg ! j) < supported" using assms by (auto simp: config_ok_def)
    then show ?thesis by (cases rule: find_syscall_id_cases [of symbols supported t]) auto
  qed
  moreover have "length calls = length (nrs cfg)" using c assms by (simp add: config_ok_def)
  ultimately show ?thesis using c by blast
qed

lemma say_keeps [simp]: "kernel (say t w) = kernel w" "kernel (say_all ts w) = kernel w" "consistent pl site R (say t w) = consistent pl site R w"
  "consistent pl site R (say_all ts w) = consistent pl site R w"
  by (simp_all add: say_def say_all_def consistent_def ready_def)

lemma read_monitor_keeps: "read_monitor e w = (r, w') \<Longrightarrow> kernel w' = kernel w \<and> consistent pl site R w' = consistent pl site R w \<and> set (console w) \<subseteq> set (console w')"
  by (auto simp: read_monitor_def say_def consistent_def ready_def split: if_splits option.splits)


section \<open>Property\<close>



definition quiet_surroundings :: surroundings where
  "quiet_surroundings = \<lparr>dup_syscalls = (\<lambda>_. True), dup_programs = (\<lambda>_. True), calloc_args = True, calloc_tids = True, getpid = 100,
     thread_ok = (\<lambda>_. True), started_at = 0, clock_readings = [0, 1000, 1000], ended_at = 1000,
     threads_run = (\<lambda>n w. (replicate n 0xFFFFFFF5, w)), proc_open = (\<lambda>_. False), proc_read = (\<lambda>_ _. None)\<rparr>"


end
