(* ===== verification/Locks.thy ===== *)
theory Locks
  imports Throttle
begin

text \<open>
  The spin locks of the module (\<open>queue_lock\<close> and \<open>junk_lock\<close> of \<open>sysThrot_queue.c\<close>, \<open>stats_lock\<close> of \<open>sysThrot_statmonitor.c\<close>). The other
  theories run a critical section in one step; this one shows what that needs. The operations are reduced to the locks they take
  and release, in the order of the code. They run on any number of processors: in process context, and in the softirq that runs
  \<open>timer_callback\<close>, which interrupts the process of one processor and runs to its end before that process goes on. A process that
  holds a spin lock is not preempted by another, so one process per processor is enough.

  \<open>bh\<close> says whether softirqs are off while a process holds one of the locks. In the code they are not: it uses \<open>spin_lock\<close>, not \<open>spin_lock_bh\<close>.
\<close>

section \<open>The locks of the operations\<close>

datatype lock = QueueLock | JunkLock | StatsLock

datatype lock_op = Acquire lock | Release lock

definition section_of :: "lock \<Rightarrow> lock_op list" where
  "section_of l = [Acquire l, Release l]"

text \<open>\<open>unqueue\<close> takes \<open>junk_lock\<close> once for each of the \<open>k\<close> elements that it moves.\<close>

definition unqueue_locks :: "nat \<Rightarrow> lock_op list" where
  "unqueue_locks k = Acquire QueueLock # concat (replicate k (section_of JunkLock)) @ [Release QueueLock]"

definition free_junk_locks :: "lock_op list" where
  "free_junk_locks = section_of JunkLock"

definition update_epoch_stats_locks :: "lock_op list" where
  "update_epoch_stats_locks = section_of StatsLock"

definition timer_locks :: "nat \<Rightarrow> lock_op list" where
  "timer_locks k = unqueue_locks k @ update_epoch_stats_locks @ free_junk_locks"

definition add_to_queue_locks :: "lock_op list" where
  "add_to_queue_locks = section_of QueueLock"

definition wake_up_queue_locks :: "lock_op list" where
  "wake_up_queue_locks = [Acquire QueueLock, Acquire JunkLock, Release JunkLock, Release QueueLock]"

text \<open>The lock that \<open>my_seq_start\<close> takes is released by \<open>my_seq_stop\<close>.\<close>

definition my_seq_start_locks :: "lock_op list" where
  "my_seq_start_locks = [Acquire StatsLock]"

definition my_seq_stop_locks :: "lock_op list" where
  "my_seq_stop_locks = [Release StatsLock]"

text \<open>The calls made in process context: joining the queue, recording an event, one pass of reading \<open>/proc/SYSTHROT\<close> from
  \<open>my_seq_start\<close> to \<open>my_seq_stop\<close>, freeing the statistics, waking everybody and destroying the queue.\<close>

datatype process_call = AddToQueue | RecordEvent | SeqPass | StatmonitorExit | WakeUpQueue | DestroyQueue

fun locks_of :: "process_call \<Rightarrow> lock_op list" where
  "locks_of AddToQueue = add_to_queue_locks"
| "locks_of RecordEvent = section_of StatsLock"
| "locks_of SeqPass = my_seq_start_locks @ my_seq_stop_locks"
| "locks_of StatmonitorExit = section_of StatsLock"
| "locks_of WakeUpQueue = wake_up_queue_locks"
| "locks_of DestroyQueue = free_junk_locks"

section \<open>Processors\<close>

datatype holder = Process nat | Softirq nat

record processors =
  owner :: "lock \<Rightarrow> holder option"
  tasks :: "lock_op list list"
  softirqs :: "lock_op list option list"

text \<open>A lock that is not free is not acquired: the step is not possible, the processor spins.\<close>

fun lock_op_step :: "holder \<Rightarrow> lock_op \<Rightarrow> (lock \<Rightarrow> holder option) \<Rightarrow> (lock \<Rightarrow> holder option) option" where
  "lock_op_step x (Acquire l) f = (if f l = None then Some (f(l := Some x)) else None)"
| "lock_op_step x (Release l) f = Some (f(l := None))"

datatype cpu_action = Run nat | Interrupt nat nat

definition run_cpu :: "nat \<Rightarrow> processors \<Rightarrow> processors option" where
  "run_cpu c s = (case softirqs s ! c of
     Some [] \<Rightarrow> Some (s\<lparr>softirqs := (softirqs s)[c := None]\<rparr>)
   | Some (a # as) \<Rightarrow> map_option (\<lambda>f. s\<lparr>owner := f, softirqs := (softirqs s)[c := Some as]\<rparr>) (lock_op_step (Softirq c) a (owner s))
   | None \<Rightarrow> (case tasks s ! c of
       [] \<Rightarrow> None
     | a # as \<Rightarrow> map_option (\<lambda>f. s\<lparr>owner := f, tasks := (tasks s)[c := as]\<rparr>) (lock_op_step (Process c) a (owner s))))"

definition holding :: "processors \<Rightarrow> holder \<Rightarrow> lock set" where
  "holding s x = {l. owner s l = Some x}"

text \<open>There is one timer, so its callback runs on one processor at a time.\<close>

fun cpu_step :: "bool \<Rightarrow> cpu_action \<Rightarrow> processors \<Rightarrow> processors option" where
  "cpu_step bh (Run c) s = (if c < length (tasks s) then run_cpu c s else None)"
| "cpu_step bh (Interrupt c k) s =
     (if c < length (tasks s) \<and> (\<forall>i \<in> set (softirqs s). i = None) \<and> (bh \<longrightarrow> (\<forall>l \<in> {QueueLock, JunkLock, StatsLock}. owner s l \<noteq> Some (Process c)))
      then Some (s\<lparr>softirqs := (softirqs s)[c := Some (timer_locks k)]\<rparr>) else None)"

inductive cpu_reaches :: "bool \<Rightarrow> processors \<Rightarrow> processors \<Rightarrow> bool" for bh s0 where
  cpu_refl: "cpu_reaches bh s0 s0"
| cpu_next: "cpu_reaches bh s0 s \<Longrightarrow> cpu_step bh a s = Some s' \<Longrightarrow> cpu_reaches bh s0 s'"

definition booted :: "process_call list list \<Rightarrow> processors" where
  "booted calls = \<lparr>owner = (\<lambda>_. None), tasks = map (\<lambda>cs. concat (map locks_of cs)) calls, softirqs = replicate (length calls) None\<rparr>"

section \<open>The order of the locks\<close>

fun lock_rank :: "lock \<Rightarrow> nat" where
  "lock_rank QueueLock = 0"
| "lock_rank JunkLock = 1"
| "lock_rank StatsLock = 2"

text \<open>A sequence of operations, started while the locks in \<open>H\<close> are held, takes locks only in ascending order and releases all of them.\<close>

fun ordered :: "lock set \<Rightarrow> lock_op list \<Rightarrow> bool" where
  "ordered H [] = (H = {})"
| "ordered H (Acquire l # as) = ((\<forall>h \<in> H. lock_rank h < lock_rank l) \<and> ordered (insert l H) as)"
| "ordered H (Release l # as) = (l \<in> H \<and> ordered (H - {l}) as)"

lemma ordered_append: "ordered H as \<Longrightarrow> ordered {} bs \<Longrightarrow> ordered H (as @ bs)"
  by (induction H as rule: ordered.induct) auto

lemma ordered_section: "ordered {} (section_of l)"
  by (simp add: section_of_def)

lemma ordered_junk: "ordered {QueueLock} as \<Longrightarrow> ordered {QueueLock} (concat (replicate k (section_of JunkLock)) @ as)"
proof (induction k)
  case (Suc k)
  have "insert JunkLock {QueueLock} - {JunkLock} = {QueueLock}" by auto
  then show ?case using Suc by (simp add: section_of_def)
qed simp

lemma ordered_unqueue: "ordered {} (unqueue_locks k)"
  by (simp add: unqueue_locks_def ordered_junk)

lemma ordered_timer: "ordered {} (timer_locks k)"
  by (simp add: timer_locks_def update_epoch_stats_locks_def free_junk_locks_def ordered_append ordered_unqueue ordered_section)

lemma ordered_call: "ordered {} (locks_of c)"
proof (cases c)
  case WakeUpQueue
  have "insert JunkLock {QueueLock} - {JunkLock} = {QueueLock}" by auto
  then show ?thesis using WakeUpQueue by (simp add: wake_up_queue_locks_def)
qed (simp_all add: section_of_def free_junk_locks_def add_to_queue_locks_def my_seq_start_locks_def my_seq_stop_locks_def)

lemma ordered_calls: "ordered {} (concat (map locks_of cs))"
  by (induction cs) (simp_all add: ordered_append ordered_call)

section \<open>Invariants\<close>

fun softirq_ok :: "lock set \<Rightarrow> lock_op list option \<Rightarrow> bool" where
  "softirq_ok H None = (H = {})"
| "softirq_ok H (Some as) = ordered H as"

definition lock_inv :: "processors \<Rightarrow> bool" where
  "lock_inv s \<longleftrightarrow> length (softirqs s) = length (tasks s) \<and>
     (\<forall>c < length (tasks s). ordered (holding s (Process c)) (tasks s ! c) \<and> softirq_ok (holding s (Softirq c)) (softirqs s ! c)) \<and>
     (\<forall>l x. owner s l = Some x \<longrightarrow> (\<exists>c < length (tasks s). x = Process c \<or> x = Softirq c))"

text \<open>With softirqs off in the critical sections, an interrupted process holds nothing.\<close>

definition interrupted_free :: "processors \<Rightarrow> bool" where
  "interrupted_free s \<longleftrightarrow> (\<forall>c < length (tasks s). softirqs s ! c \<noteq> None \<longrightarrow> holding s (Process c) = {})"

lemma lock_op_step_holding:
  assumes "lock_op_step x a f = Some f'" and "ordered {l. f l = Some x} (a # as)"
  shows "ordered {l. f' l = Some x} as" and "y \<noteq> x \<Longrightarrow> {l. f' l = Some y} = {l. f l = Some y}"
    and "f' l = Some y \<Longrightarrow> y = x \<or> f l = Some y"
proof -
  have "ordered {l. f' l = Some x} as \<and> (\<forall>l y. y \<noteq> x \<longrightarrow> (f' l = Some y \<longleftrightarrow> f l = Some y))"
  proof (cases a)
    case (Acquire l')
    then have f: "f l' = None" "f' = f(l' := Some x)" using assms(1) by (auto split: if_splits)
    have "{l. f' l = Some x} = insert l' {l. f l = Some x}" unfolding f(2) by auto
    then have "ordered {l. f' l = Some x} as" using assms(2) Acquire by simp
    then show ?thesis using f by simp
  next
    case (Release l')
    then have f: "f l' = Some x" "f' = f(l' := None)" using assms by auto
    have "{l. f' l = Some x} = {l. f l = Some x} - {l'}" unfolding f(2) by auto
    then have "ordered {l. f' l = Some x} as" using assms(2) Release by simp
    then show ?thesis using f by simp
  qed
  then show "ordered {l. f' l = Some x} as" "y \<noteq> x \<Longrightarrow> {l. f' l = Some y} = {l. f l = Some y}"
    "f' l = Some y \<Longrightarrow> y = x \<or> f l = Some y" by auto
qed

lemma lock_invD:
  assumes "lock_inv s" and "c < length (tasks s)"
  shows "ordered (holding s (Process c)) (tasks s ! c)" and "softirq_ok (holding s (Softirq c)) (softirqs s ! c)" and "c < length (softirqs s)"
  using assms by (simp_all add: lock_inv_def)

lemma run_cpu_cases:
  assumes "run_cpu c s = Some s'"
  obtains (over) "softirqs s ! c = Some []" "s' = s\<lparr>softirqs := (softirqs s)[c := None]\<rparr>"
  | (softirq) a as f where "softirqs s ! c = Some (a # as)" "lock_op_step (Softirq c) a (owner s) = Some f"
      "s' = s\<lparr>owner := f, softirqs := (softirqs s)[c := Some as]\<rparr>"
  | (task) a as f where "softirqs s ! c = None" "tasks s ! c = a # as" "lock_op_step (Process c) a (owner s) = Some f"
      "s' = s\<lparr>owner := f, tasks := (tasks s)[c := as]\<rparr>"
proof (cases "softirqs s ! c")
  case None
  then obtain a as where t: "tasks s ! c = a # as" using assms by (cases "tasks s ! c") (simp_all add: run_cpu_def)
  then obtain f where "lock_op_step (Process c) a (owner s) = Some f" "s' = s\<lparr>owner := f, tasks := (tasks s)[c := as]\<rparr>"
    using assms None by (auto simp: run_cpu_def)
  then show thesis by (rule task [OF None t])
next
  case (Some bs)
  show thesis
  proof (cases bs)
    case Nil
    then show thesis using assms Some by (intro over) (simp_all add: run_cpu_def)
  next
    case (Cons a as)
    then obtain f where "lock_op_step (Softirq c) a (owner s) = Some f" "s' = s\<lparr>owner := f, softirqs := (softirqs s)[c := Some as]\<rparr>"
      using assms Some by (auto simp: run_cpu_def)
    then show thesis by (rule softirq [OF Some [unfolded Cons]])
  qed
qed

lemma run_cpu_inv:
  assumes inv: "lock_inv s" and c: "c < length (tasks s)" and st: "run_cpu c s = Some s'"
  shows "lock_inv s' \<and> (interrupted_free s \<longrightarrow> interrupted_free s')"
  using st
proof (cases rule: run_cpu_cases)
  case over
  then show ?thesis
    using inv lock_invD [OF inv c] c by (auto simp: lock_inv_def interrupted_free_def holding_def nth_list_update)
next
  case (softirq a as f)
  have ord: "ordered {l. owner s l = Some (Softirq c)} (a # as)" using lock_invD(2) [OF inv c] softirq(1) by (simp add: holding_def)
  note h = lock_op_step_holding [OF softirq(2) ord]
  have "holding s' (Process d) = holding s (Process d)" "d \<noteq> c \<Longrightarrow> holding s' (Softirq d) = holding s (Softirq d)" for d
    using h(2) softirq(3) by (simp_all add: holding_def)
  moreover have "ordered (holding s' (Softirq c)) as" using h(1) softirq(3) by (simp add: holding_def)
  moreover have "\<exists>d < length (tasks s). x = Process d \<or> x = Softirq d" if "owner s' l = Some x" for l x
    using h(3) [of l x] that softirq(3) inv c by (auto simp: lock_inv_def)
  ultimately show ?thesis
    using inv softirq c by (auto simp: lock_inv_def interrupted_free_def nth_list_update)
next
  case (task a as f)
  have ord: "ordered {l. owner s l = Some (Process c)} (a # as)" using lock_invD(1) [OF inv c] task(2) by (simp add: holding_def)
  note h = lock_op_step_holding [OF task(3) ord]
  have "holding s' (Softirq d) = holding s (Softirq d)" "d \<noteq> c \<Longrightarrow> holding s' (Process d) = holding s (Process d)" for d
    using h(2) task(4) by (simp_all add: holding_def)
  moreover have "ordered (holding s' (Process c)) as" using h(1) task(4) by (simp add: holding_def)
  moreover have "\<exists>d < length (tasks s). x = Process d \<or> x = Softirq d" if "owner s' l = Some x" for l x
    using h(3) [of l x] that task(4) inv c by (auto simp: lock_inv_def)
  moreover have "interrupted_free s'" if "interrupted_free s"
    unfolding interrupted_free_def
  proof (intro allI impI)
    fix d assume d: "d < length (tasks s')" "softirqs s' ! d \<noteq> None"
    then have "d \<noteq> c" using task(1,4) by auto
    then show "holding s' (Process d) = {}" using that d task(4) calculation(2) by (auto simp: interrupted_free_def)
  qed
  ultimately show ?thesis
    using inv task c by (auto simp: lock_inv_def nth_list_update)
qed

lemma interrupt_inv:
  assumes inv: "lock_inv s" and st: "cpu_step bh (Interrupt c k) s = Some s'"
  shows "lock_inv s' \<and> (bh \<and> interrupted_free s \<longrightarrow> interrupted_free s')"
proof -
  have c: "c < length (tasks s)" and s': "s' = s\<lparr>softirqs := (softirqs s)[c := Some (timer_locks k)]\<rparr>" and none: "softirqs s ! c = None"
    and free: "bh \<Longrightarrow> holding s (Process c) = {}"
    using st lock_invD(3) [OF inv] by (auto simp: holding_def split: if_splits) (metis lock.exhaust)
  have "holding s (Softirq c) = {}" using lock_invD(2) [OF inv c] none by simp
  then have "lock_inv s'" using inv c ordered_timer [of k] unfolding lock_inv_def s' holding_def by (auto simp: nth_list_update)
  moreover have "interrupted_free s'" if "bh" "interrupted_free s"
    using that free c lock_invD(3) [OF inv] unfolding interrupted_free_def s' holding_def by (auto simp: nth_list_update split: if_splits)
  ultimately show ?thesis by blast
qed

lemma booted_inv: "lock_inv (booted calls) \<and> interrupted_free (booted calls)"
  by (simp add: lock_inv_def interrupted_free_def booted_def holding_def ordered_calls)

lemma reaches_lock_inv:
  "cpu_reaches bh s0 s \<Longrightarrow> lock_inv s0 \<and> interrupted_free s0 \<Longrightarrow> lock_inv s \<and> (bh \<longrightarrow> interrupted_free s)"
proof (induction rule: cpu_reaches.induct)
  case (cpu_next s a s')
  show ?case
  proof (cases a)
    case (Run c)
    then show ?thesis using cpu_next run_cpu_inv [of s c s'] by (auto split: if_splits)
  next
    case (Interrupt c k)
    then show ?thesis using cpu_next interrupt_inv [of s bh c k s'] by auto
  qed
qed simp

section \<open>Progress\<close>

definition finished :: "processors \<Rightarrow> bool" where
  "finished s \<longleftrightarrow> (\<forall>c < length (tasks s). tasks s ! c = [] \<and> softirqs s ! c = None)"

lemma first_op_enabled:
  assumes "ordered H (a # as)" and "\<And>l. f l \<noteq> None \<Longrightarrow> \<exists>h \<in> H. lock_rank l \<le> lock_rank h"
  shows "lock_op_step x a f \<noteq> None"
proof (cases a)
  case (Acquire l)
  then have "f l = None" using assms by (metis linorder_not_less ordered.simps(2))
  then show ?thesis using Acquire by simp
qed simp

lemma highest_lock:
  assumes "f l0 \<noteq> None"
  obtains l where "f l \<noteq> None" "\<And>l'. f l' \<noteq> None \<Longrightarrow> lock_rank l' \<le> lock_rank l"
proof -
  have "\<exists>l. f l \<noteq> None \<and> (\<forall>l'. f l' \<noteq> None \<longrightarrow> lock_rank l' \<le> lock_rank l)"
    using assms ex_has_greatest_nat [of "\<lambda>l. f l \<noteq> None" l0 lock_rank 3] by (metis lock.exhaust lock_rank.simps less_Suc_eq numeral_3_eq_3 numeral_2_eq_2 One_nat_def zero_less_Suc)
  then show thesis using that by blast
qed

lemma run_cpu_enabled:
  assumes "softirqs s ! c = None \<Longrightarrow> \<exists>a as. tasks s ! c = a # as \<and> lock_op_step (Process c) a (owner s) \<noteq> None"
    and "\<And>a as. softirqs s ! c = Some (a # as) \<Longrightarrow> lock_op_step (Softirq c) a (owner s) \<noteq> None"
  shows "run_cpu c s \<noteq> None"
proof (cases "softirqs s ! c")
  case None
  then show ?thesis using assms(1) by (auto simp: run_cpu_def)
next
  case (Some bs)
  then show ?thesis using assms(2) by (cases bs) (auto simp: run_cpu_def)
qed

text \<open>The holder of the highest lock that is taken can always go on; and if no lock is taken, anybody can.\<close>

lemma some_cpu_runs:
  assumes inv: "lock_inv s" and free: "interrupted_free s" and work: "\<not> finished s"
  shows "\<exists>c < length (tasks s). run_cpu c s \<noteq> None"
proof (cases "\<exists>l. owner s l \<noteq> None")
  case False
  obtain c where c: "c < length (tasks s)" "tasks s ! c \<noteq> [] \<or> softirqs s ! c \<noteq> None" using work by (auto simp: finished_def)
  have none: "holding s x = {}" for x using False by (simp add: holding_def)
  have "run_cpu c s \<noteq> None"
  proof (rule run_cpu_enabled)
    assume "softirqs s ! c = None"
    then obtain a as where t: "tasks s ! c = a # as" using c(2) by (cases "tasks s ! c") auto
    then show "\<exists>a as. tasks s ! c = a # as \<and> lock_op_step (Process c) a (owner s) \<noteq> None"
      using first_op_enabled [of "{}" a as "owner s"] lock_invD(1) [OF inv c(1)] False none by auto
  next
    fix a as assume "softirqs s ! c = Some (a # as)"
    then show "lock_op_step (Softirq c) a (owner s) \<noteq> None"
      using first_op_enabled [of "{}" a as "owner s"] lock_invD(2) [OF inv c(1)] False none by auto
  qed
  then show ?thesis using c(1) by blast
next
  case True
  then obtain l where l: "owner s l \<noteq> None" "\<And>l'. owner s l' \<noteq> None \<Longrightarrow> lock_rank l' \<le> lock_rank l" using highest_lock by metis
  then obtain c where c: "c < length (tasks s)" "owner s l = Some (Process c) \<or> owner s l = Some (Softirq c)"
    using inv unfolding lock_inv_def by blast
  have "run_cpu c s \<noteq> None"
  proof (rule run_cpu_enabled)
    assume none: "softirqs s ! c = None"
    then have p: "l \<in> holding s (Process c)" using c(2) lock_invD(2) [OF inv c(1)] by (auto simp: holding_def)
    then obtain a as where t: "tasks s ! c = a # as" using lock_invD(1) [OF inv c(1)] by (cases "tasks s ! c") auto
    then have "lock_op_step (Process c) a (owner s) \<noteq> None"
      using lock_invD(1) [OF inv c(1)] l(2) p by (intro first_op_enabled [of "holding s (Process c)" a as]) auto
    then show "\<exists>a as. tasks s ! c = a # as \<and> lock_op_step (Process c) a (owner s) \<noteq> None" using t by blast
  next
    fix a as assume a: "softirqs s ! c = Some (a # as)"
    then have "l \<in> holding s (Softirq c)" using c free by (auto simp: interrupted_free_def holding_def)
    then show "lock_op_step (Softirq c) a (owner s) \<noteq> None"
      using lock_invD(2) [OF inv c(1)] l(2) a by (intro first_op_enabled [of "holding s (Softirq c)" a as]) auto
  qed
  then show ?thesis using c(1) by blast
qed

fun softirq_work :: "lock_op list option \<Rightarrow> nat" where
  "softirq_work None = 0"
| "softirq_work (Some as) = Suc (length as)"

definition work_left :: "processors \<Rightarrow> nat" where
  "work_left s = sum_list (map length (tasks s)) + sum_list (map softirq_work (softirqs s))"

lemma run_cpu_work:
  assumes "lock_inv s" and "c < length (tasks s)" and "run_cpu c s = Some s'"
  shows "work_left s' < work_left s \<and> length (tasks s') = length (tasks s)"
  using assms(3)
proof (cases rule: run_cpu_cases)
  case over
  then show ?thesis
    using sum_list_update_less [of c "map softirq_work (softirqs s)" 0] lock_invD(3) [OF assms(1,2)] by (simp add: work_left_def map_update)
next
  case (softirq a as f)
  then show ?thesis
    using sum_list_update_less [of c "map softirq_work (softirqs s)" "Suc (length as)"] lock_invD(3) [OF assms(1,2)] by (simp add: work_left_def map_update)
next
  case (task a as f)
  then show ?thesis
    using sum_list_update_less [of c "map length (tasks s)" "length as"] assms(2) by (simp add: work_left_def map_update)
qed

fun run_cpus :: "nat list \<Rightarrow> processors \<Rightarrow> processors option" where
  "run_cpus [] s = Some s"
| "run_cpus (c # cs) s = Option.bind (cpu_step False (Run c) s) (run_cpus cs)"

lemma run_to_end:
  assumes "lock_inv s" and "interrupted_free s"
  shows "\<exists>cs s'. length cs \<le> work_left s \<and> run_cpus cs s = Some s' \<and> finished s'"
  using assms
proof (induction "work_left s" arbitrary: s rule: less_induct)
  case less
  show ?case
  proof (cases "finished s")
    case False
    then obtain c s1 where c: "c < length (tasks s)" "run_cpu c s = Some s1" using some_cpu_runs less.prems by blast
    have less': "work_left s1 < work_left s" and inv: "lock_inv s1" "interrupted_free s1"
      using run_cpu_work [OF less.prems(1) c] run_cpu_inv [OF less.prems(1) c] less.prems(2) by simp_all
    obtain cs s' where cs: "length cs \<le> work_left s1" "run_cpus cs s1 = Some s'" "finished s'"
      using less.hyps [OF less' inv] by blast
    then show ?thesis using c less' by (intro exI [of _ "c # cs"] exI [of _ s']) simp
  qed (auto intro!: exI [of _ "[]"])
qed

section \<open>A softirq that waits for the process it has interrupted\<close>

definition stuck_on :: "nat \<Rightarrow> lock \<Rightarrow> lock_op list \<Rightarrow> processors \<Rightarrow> bool" where
  "stuck_on c l todo s \<longleftrightarrow> lock_inv s \<and> c < length (tasks s) \<and> owner s l = Some (Process c) \<and> tasks s ! c = todo \<and>
     (\<exists>as. softirqs s ! c = Some as \<and> Acquire l \<in> set as)"

lemma timer_takes_all: "Acquire l \<in> set (timer_locks k)"
  by (cases l) (simp_all add: timer_locks_def unqueue_locks_def update_epoch_stats_locks_def free_junk_locks_def section_of_def)

lemma stuck_on_run:
  assumes stuck: "stuck_on c l todo s" and d: "d < length (tasks s)" and st: "run_cpu d s = Some s'"
  shows "stuck_on c l todo s'"
proof -
  have inv: "lock_inv s" and c: "c < length (tasks s)" "owner s l = Some (Process c)" "tasks s ! c = todo"
    using stuck by (simp_all add: stuck_on_def)
  obtain bs where bs: "softirqs s ! c = Some bs" "Acquire l \<in> set bs" using stuck by (auto simp: stuck_on_def)
  have inv': "lock_inv s'" using run_cpu_inv [OF inv d st] by simp
  have len: "d < length (softirqs s)" "c < length (softirqs s)" using lock_invD(3) [OF inv] d c by simp_all
  from st show ?thesis
  proof (cases rule: run_cpu_cases)
    case over
    then have "d \<noteq> c" using bs by auto
    then show ?thesis using inv' c bs over by (simp add: stuck_on_def)
  next
    case (softirq a as f)
    have ord: "ordered {l. owner s l = Some (Softirq d)} (a # as)" using lock_invD(2) [OF inv d] softirq(1) by (simp add: holding_def)
    have own: "f l = Some (Process c)" using lock_op_step_holding(2) [OF softirq(2) ord, of "Process c"] c(2) by auto
    have "a \<noteq> Acquire l" using softirq(2) c(2) by auto
    then have "d = c \<Longrightarrow> Acquire l \<in> set as" using bs softirq(1) by auto
    then show ?thesis using inv' c bs own softirq len by (cases "d = c") (simp_all add: stuck_on_def)
  next
    case (task a as f)
    then have "d \<noteq> c" using bs by auto
    have ord: "ordered {l. owner s l = Some (Process d)} (a # as)" using lock_invD(1) [OF inv d] task(2) by (simp add: holding_def)
    have "f l = Some (Process c)" using lock_op_step_holding(2) [OF task(3) ord, of "Process c"] c(2) \<open>d \<noteq> c\<close> by auto
    then show ?thesis using inv' c bs task \<open>d \<noteq> c\<close> by (simp add: stuck_on_def)
  qed
qed

lemma stuck_on_reaches: "cpu_reaches bh s1 s \<Longrightarrow> stuck_on c l todo s1 \<Longrightarrow> stuck_on c l todo s"
proof (induction rule: cpu_reaches.induct)
  case (cpu_next s a s')
  then have stuck: "stuck_on c l todo s" by simp
  then have "Some bs \<in> set (softirqs s)" if "softirqs s ! c = Some bs" for bs
    using that lock_invD(3) [of s c] nth_mem [of c "softirqs s"] by (auto simp: stuck_on_def)
  then show ?case
    using cpu_next.hyps(2) stuck stuck_on_run [OF stuck] by (cases a) (fastforce simp: stuck_on_def split: if_splits)+
qed simp

section \<open>Properties\<close>


text \<open>Two processors: the one joins the queue, is interrupted before it takes the lock, and the other reads the statistics.\<close>

definition two_cpus :: processors where
  "two_cpus = booted [[AddToQueue], [SeqPass]]"


text \<open>C24: The code does not switch softirqs off, and can deadlock. If the timer interrupts a process that holds any of the three locks, then,
  whatever happens afterwards, the callback never ends: it needs every one of the locks, and the process that would release this one does not
  run before the callback has ended.\<close>

theorem timer_interrupt_deadlocks:
  assumes "cpu_reaches False (booted calls) s" and "owner s l = Some (Process c)"
    and "cpu_step False (Interrupt c k) s = Some s1" and "cpu_reaches False s1 s2"
  shows "softirqs s2 ! c \<noteq> None \<and> owner s2 l = Some (Process c) \<and> tasks s2 ! c = tasks s ! c"
proof -
  have inv: "lock_inv s" using reaches_lock_inv [OF assms(1) booted_inv] by simp
  have c: "c < length (tasks s)" "s1 = s\<lparr>softirqs := (softirqs s)[c := Some (timer_locks k)]\<rparr>"
    using assms(3) by (auto split: if_splits)
  have "stuck_on c l (tasks s ! c) s1"
    using interrupt_inv [OF inv assms(3)] c assms(2) lock_invD(3) [OF inv c(1)] timer_takes_all by (simp add: stuck_on_def)
  then show ?thesis using stuck_on_reaches [OF assms(4)] by (auto simp: stuck_on_def)
qed

theorem timer_interrupt_deadlocks_witness:
  "\<exists>s s1. cpu_reaches False two_cpus s \<and> cpu_step False (Interrupt 0 3) s = Some s1 \<and> softirqs s1 ! 0 \<noteq> None \<and> owner s1 QueueLock = Some (Process 0)"
proof -
  obtain s where s: "cpu_step False (Run 0) two_cpus = Some s" "owner s QueueLock = Some (Process 0)" "\<exists>s1. cpu_step False (Interrupt 0 3) s = Some s1"
    by (simp add: two_cpus_def booted_def run_cpu_def section_of_def add_to_queue_locks_def)
  then obtain s1 where s1: "cpu_step False (Interrupt 0 3) s = Some s1" by blast
  have reach: "cpu_reaches False two_cpus s" by (rule cpu_next [OF cpu_refl s(1)])
  show ?thesis using timer_interrupt_deadlocks [OF reach [unfolded two_cpus_def] s(2) s1 cpu_refl] reach s1 by blast
qed

end
