(* ===== verification/Rcu.thy ===== *)
theory Rcu
  imports Store "HOL-Library.Multiset"
begin

text \<open>
  The store under concurrency (\<open>sysThrot_store.c\<close>, lines 308-471): any number of lookups
  (\<open>find_user_in_store\<close>, \<open>find_program_in_store\<close>, called by the stub of every monitored system call) and any
  number of updates (\<open>add_*\<close>, \<open>remove_*\<close>, called by the ioctls) at the same time. A lookup runs inside an RCU read-side critical
  section and takes no lock; an update holds \<open>write_lock\<close> while it makes a changed copy of the map and swaps the pointer, and
  frees the old map after \<open>synchronize_rcu\<close>. The theory \<open>Store\<close> runs each operation in one step; here every shared access
  is a step of its own, and the steps interleave freely.

  Of RCU only its documented guarantee is used: \<open>synchronize_rcu\<close> returns when every reader that
  was inside a read-side critical section when it was called has left it. Making the copy is
  one step: it reads a map that nobody changes, and writes memory that nobody else can reach yet.
\<close>

section \<open>Items of the two maps\<close>

datatype kind = Users | Programs

datatype item = User u32 | Program cstring

fun kind_of :: "item \<Rightarrow> kind" where
  "kind_of (User _) = Users"
| "kind_of (Program _) = Programs"

fun object :: "item \<Rightarrow> kobj" where
  "object (User v) = KInt v"
| "object (Program s) = KStr s"

fun item_key :: "item \<Rightarrow> u32" where
  "item_key (User v) = getKeyFromUserId v"
| "item_key (Program s) = getKeyFromProgramName s"

fun kcmp :: "kind \<Rightarrow> compare_fn" where
  "kcmp Users = compareUser"
| "kcmp Programs = compareProgram"

fun kclone :: "kind \<Rightarrow> clone_fn" where
  "kclone Users = cloneUser"
| "kclone Programs = cloneProgram"

fun pick :: "kind \<Rightarrow> addr \<times> addr \<Rightarrow> addr" where
  "pick Users (u, p) = u"
| "pick Programs (u, p) = p"

fun replace :: "kind \<Rightarrow> addr \<Rightarrow> addr \<times> addr \<Rightarrow> kobj" where
  "replace Users new (u, p) = KStore new p"
| "replace Programs new (u, p) = KStore u new"

text \<open>The lookup as one step, as in the theory \<open>Store\<close>, on either map.\<close>

fun find_item :: "addr \<Rightarrow> item \<Rightarrow> heap \<Rightarrow> int option" where
  "find_item sp (User v) h = find_user_in_store sp v h"
| "find_item sp (Program s) h = find_program_in_store sp s h"

section \<open>The threads\<close>

text \<open>Where a lookup is. From the read of the pointer on, the last component is a ghost: the answer of the
  lookup in one step at that moment.\<close>

datatype reader =
    RIdle "(item \<times> int \<times> int option) option"
  | RLocked item
  | RMap item addr "int option"
  | RSecond item addr "int option"
  | RGot item int "int option"

text \<open>Where an update is; \<open>WSync\<close> carries the readers that \<open>synchronize_rcu\<close> still waits for.\<close>

datatype writer =
    WIdle "int option"
  | WLocked "item member_op"
  | WFailed int
  | WPrepared "item member_op" addr addr
  | WPublished kind addr
  | WUnlocked kind addr
  | WSync kind addr "nat set"

record shared =
  rheap :: heap
  write_lock :: bool
  readers :: "reader list"
  writers :: "writer list"

datatype rcu_action =
    ReadLock nat item
  | Dereference nat
  | ProbeFirst nat
  | ProbeSecond nat
  | ReadUnlock nat
  | MutexLock nat "item member_op"
  | Prepare nat
  | AssignPointer nat
  | MutexUnlock nat
  | StartSync nat
  | EndSync nat

datatype rcu_outcome = Stuck | Faulted | Stepped shared

definition stepped :: "shared option \<Rightarrow> rcu_outcome" where
  "stepped x = (case x of None \<Rightarrow> Faulted | Some s \<Rightarrow> Stepped s)"

definition rgoto :: "nat \<Rightarrow> reader \<Rightarrow> shared \<Rightarrow> shared" where
  "rgoto r c s = s\<lparr>readers := (readers s)[r := c]\<rparr>"

definition wgoto :: "nat \<Rightarrow> writer \<Rightarrow> shared \<Rightarrow> shared" where
  "wgoto w c s = s\<lparr>writers := (writers s)[w := c]\<rparr>"

fun in_section :: "reader \<Rightarrow> bool" where
  "in_section (RIdle _) = False"
| "in_section _ = True"

fun grace :: "nat \<Rightarrow> writer \<Rightarrow> writer" where
  "grace r (WSync k old W) = WSync k old (W - {r})"
| "grace r c = c"

section \<open>The steps of a lookup\<close>

definition dereference :: "addr \<Rightarrow> nat \<Rightarrow> item \<Rightarrow> shared \<Rightarrow> shared option" where
  "dereference sp r x s = do {
     (u, p) \<leftarrow> load_store sp (rheap s);
     Some (rgoto r (RMap x (pick (kind_of x) (u, p)) (find_item sp x (rheap s))) s) }"

definition probe_first :: "nat \<Rightarrow> item \<Rightarrow> addr \<Rightarrow> int option \<Rightarrow> shared \<Rightarrow> shared option" where
  "probe_first r x mp g s = do {
     m \<leftarrow> load_map mp (rheap s);
     b \<leftarrow> slot_matches (kcmp (kind_of x)) m 0 (unat (hash1 (item_key x))) (object x) (rheap s);
     Some (rgoto r (if b then RGot x 0 g else RSecond x mp g) s) }"

definition probe_second :: "nat \<Rightarrow> item \<Rightarrow> addr \<Rightarrow> int option \<Rightarrow> shared \<Rightarrow> shared option" where
  "probe_second r x mp g s = do {
     m \<leftarrow> load_map mp (rheap s);
     b \<leftarrow> slot_matches (kcmp (kind_of x)) m 1 (unat (hash2 (item_key x))) (object x) (rheap s);
     Some (rgoto r (RGot x (if b then 0 else - 1) g) s) }"

definition read_unlock :: "nat \<Rightarrow> item \<Rightarrow> int \<Rightarrow> int option \<Rightarrow> shared \<Rightarrow> shared" where
  "read_unlock r x ret g s = (rgoto r (RIdle (Some (x, ret, g))) s)\<lparr>writers := map (grace r) (writers s)\<rparr>"

section \<open>The steps of an update\<close>

fun prepare_op :: "item member_op \<Rightarrow> addr \<Rightarrow> heap \<Rightarrow> (int \<times> addr \<times> heap) option" where
  "prepare_op (Add x) old h = prepare_add (kcmp (kind_of x)) (kclone (kind_of x)) (item_key x) (object x) old h"
| "prepare_op (Remove x) old h = prepare_remove (kcmp (kind_of x)) (kclone (kind_of x)) (item_key x) (object x) old h"

definition prepare :: "addr \<Rightarrow> nat \<Rightarrow> item member_op \<Rightarrow> shared \<Rightarrow> shared option" where
  "prepare sp w oper s = do {
     (u, p) \<leftarrow> load_store sp (rheap s);
     let old = pick (kind_of (op_key oper)) (u, p);
     (r, new, h) \<leftarrow> prepare_op oper old (rheap s);
     Some (wgoto w (if r \<noteq> 0 then WFailed r else WPrepared oper old new) (s\<lparr>rheap := h\<rparr>)) }"

definition assign_pointer :: "addr \<Rightarrow> nat \<Rightarrow> item member_op \<Rightarrow> addr \<Rightarrow> addr \<Rightarrow> shared \<Rightarrow> shared option" where
  "assign_pointer sp w oper old new s = do {
     (u, p) \<leftarrow> load_store sp (rheap s);
     h \<leftarrow> store_obj sp (replace (kind_of (op_key oper)) new (u, p)) (rheap s);
     Some (wgoto w (WPublished (kind_of (op_key oper)) old) (s\<lparr>rheap := h\<rparr>)) }"

definition readers_inside :: "shared \<Rightarrow> nat set" where
  "readers_inside s = set (filter (\<lambda>r. in_section (readers s ! r)) [0..<length (readers s)])"

definition free_old :: "nat \<Rightarrow> addr \<Rightarrow> shared \<Rightarrow> shared option" where
  "free_old w old s = do {
     h \<leftarrow> destroy_map old (rheap s);
     Some (wgoto w (WIdle (Some 0)) (s\<lparr>rheap := h\<rparr>)) }"

section \<open>All steps\<close>

definition rpc :: "shared \<Rightarrow> nat \<Rightarrow> reader option" where
  "rpc s r = (if r < length (readers s) then Some (readers s ! r) else None)"

definition wpc :: "shared \<Rightarrow> nat \<Rightarrow> writer option" where
  "wpc s w = (if w < length (writers s) then Some (writers s ! w) else None)"

fun rcu_step :: "addr \<Rightarrow> rcu_action \<Rightarrow> shared \<Rightarrow> rcu_outcome" where
  "rcu_step sp (ReadLock r x) s =
     (case rpc s r of Some (RIdle _) \<Rightarrow> Stepped (rgoto r (RLocked x) s) | _ \<Rightarrow> Stuck)"
| "rcu_step sp (Dereference r) s =
     (case rpc s r of Some (RLocked x) \<Rightarrow> stepped (dereference sp r x s) | _ \<Rightarrow> Stuck)"
| "rcu_step sp (ProbeFirst r) s =
     (case rpc s r of Some (RMap x mp g) \<Rightarrow> stepped (probe_first r x mp g s) | _ \<Rightarrow> Stuck)"
| "rcu_step sp (ProbeSecond r) s =
     (case rpc s r of Some (RSecond x mp g) \<Rightarrow> stepped (probe_second r x mp g s) | _ \<Rightarrow> Stuck)"
| "rcu_step sp (ReadUnlock r) s =
     (case rpc s r of Some (RGot x ret g) \<Rightarrow> Stepped (read_unlock r x ret g s) | _ \<Rightarrow> Stuck)"
| "rcu_step sp (MutexLock w oper) s =
     (case wpc s w of
        Some (WIdle _) \<Rightarrow> if write_lock s then Stuck else Stepped (wgoto w (WLocked oper) (s\<lparr>write_lock := True\<rparr>))
      | _ \<Rightarrow> Stuck)"
| "rcu_step sp (Prepare w) s =
     (case wpc s w of Some (WLocked oper) \<Rightarrow> stepped (prepare sp w oper s) | _ \<Rightarrow> Stuck)"
| "rcu_step sp (AssignPointer w) s =
     (case wpc s w of Some (WPrepared oper old new) \<Rightarrow> stepped (assign_pointer sp w oper old new s) | _ \<Rightarrow> Stuck)"
| "rcu_step sp (MutexUnlock w) s =
     (case wpc s w of
        Some (WFailed r) \<Rightarrow> Stepped (wgoto w (WIdle (Some r)) (s\<lparr>write_lock := False\<rparr>))
      | Some (WPublished k old) \<Rightarrow> Stepped (wgoto w (WUnlocked k old) (s\<lparr>write_lock := False\<rparr>))
      | _ \<Rightarrow> Stuck)"
| "rcu_step sp (StartSync w) s =
     (case wpc s w of Some (WUnlocked k old) \<Rightarrow> Stepped (wgoto w (WSync k old (readers_inside s)) s) | _ \<Rightarrow> Stuck)"
| "rcu_step sp (EndSync w) s =
     (case wpc s w of
        Some (WSync k old W) \<Rightarrow> if W = {} then stepped (free_old w old s) else Stuck
      | _ \<Rightarrow> Stuck)"

fun rcu_run :: "addr \<Rightarrow> rcu_action list \<Rightarrow> shared \<Rightarrow> rcu_outcome" where
  "rcu_run sp [] s = Stepped s"
| "rcu_run sp (a # as) s = (case rcu_step sp a s of Stepped s \<Rightarrow> rcu_run sp as s | other \<Rightarrow> other)"


section \<open>Both kinds of items\<close>

fun kkey :: "kind \<Rightarrow> kobj \<Rightarrow> u32" where
  "kkey Users = user_key"
| "kkey Programs = program_key"

fun kok :: "kind \<Rightarrow> kobj \<Rightarrow> bool" where
  "kok Users = user_ok"
| "kok Programs = program_ok"

lemma kind_item_ops: "item_ops (kcmp k) (kclone k) (kok k)"
  using users.item_ops_axioms programs.item_ops_axioms by (cases k) simp_all

interpretation kind: item_ops "kcmp k" "kclone k" "kkey k" "kok k" for k
  by (rule kind_item_ops)

text \<open>A program name is a C string: the terminator is not part of it.\<close>

definition item_ok :: "item \<Rightarrow> bool" where
  "item_ok x \<longleftrightarrow> kok (kind_of x) (object x)"

lemma item_key_object: "kkey (kind_of x) (object x) = item_key x"
  by (cases x) simp_all

lemma find_item_contains:
  "find_item sp x h = do { (u, p) \<leftarrow> load_store sp h; contains (pick (kind_of x) (u, p)) (item_key x) (object x) (kcmp (kind_of x)) h }"
  by (cases x) (auto simp: find_user_in_store_def find_program_in_store_def split: bind_splits)

section \<open>The maps in memory\<close>

text \<open>\<open>mm\<close> gives the map at an address. All maps in \<open>ms\<close> are well formed, lie apart from each other, from the store object and from everyone
  else's memory \<open>R\<close>, and together they are all that is live.\<close>

definition maps_ok :: "addr \<Rightarrow> addr set \<Rightarrow> heap \<Rightarrow> (addr \<Rightarrow> CuckooHash) \<Rightarrow> (kind \<times> addr) list \<Rightarrow> bool" where
  "maps_ok sp R h mm ms \<longleftrightarrow> distinct (map snd ms) \<and>
     (\<forall>(k, a) \<in> set ms. map_at (kkey k) (kok k) h a (mm a)) \<and>
     (\<forall>a \<in> snd ` set ms. \<forall>b \<in> snd ` set ms. a \<noteq> b \<longrightarrow> footprint a (mm a) \<inter> footprint b (mm b) = {}) \<and>
     (\<forall>a \<in> snd ` set ms. sp \<notin> footprint a (mm a) \<and> R \<inter> footprint a (mm a) = {}) \<and> sp \<notin> R \<and>
     dom (mem h) = insert sp (R \<union> (\<Union>a \<in> snd ` set ms. footprint a (mm a)))"

lemma maps_ok_perm:
  assumes "mset ms = mset ms'" and "maps_ok sp R h mm ms"
  shows "maps_ok sp R h mm ms'"
proof -
  have "mset (map snd ms) = mset (map snd ms')" using assms(1) by simp
  then have "distinct (map snd ms) = distinct (map snd ms')" by (rule mset_eq_imp_distinct_iff)
  moreover have "set ms = set ms'" using assms(1) by (rule mset_eq_setD)
  ultimately show ?thesis using assms(2) unfolding maps_ok_def by simp
qed

lemma maps_okD: "maps_ok sp R h mm ms \<Longrightarrow> (k, a) \<in> set ms \<Longrightarrow> map_at (kkey k) (kok k) h a (mm a)"
  by (auto simp: maps_ok_def)

lemma maps_ok_distinct:
  assumes "maps_ok sp R h mm ((k, q) # ms)" and "(j, a) \<in> set ms"
  shows "a \<noteq> q"
proof -
  have "q \<notin> snd ` set ms" using assms(1) by (simp add: maps_ok_def)
  then show ?thesis using assms(2) by force
qed

lemma maps_ok_regions:
  assumes "maps_ok sp R h mm ms" and "(k, a) \<in> set ms"
  shows "footprint a (mm a) \<subseteq> dom (mem h)" "sp \<notin> footprint a (mm a)"
    "(j, b) \<in> set ms \<Longrightarrow> a \<noteq> b \<Longrightarrow> footprint a (mm a) \<inter> footprint b (mm b) = {}"
proof -
  have in_a: "a \<in> snd ` set ms" using assms(2) by force
  then show "footprint a (mm a) \<subseteq> dom (mem h)" "sp \<notin> footprint a (mm a)" using assms(1) unfolding maps_ok_def by blast+
  show "footprint a (mm a) \<inter> footprint b (mm b) = {}" if "(j, b) \<in> set ms" "a \<noteq> b"
  proof -
    have "b \<in> snd ` set ms" using that(1) by force
    then show ?thesis using assms(1) in_a that(2) unfolding maps_ok_def by blast
  qed
qed

lemma maps_ok_cong:
  assumes "maps_ok sp R h mm ms" and "\<And>c. c \<noteq> sp \<Longrightarrow> mem h' c = mem h c" and "sp \<in> dom (mem h')"
  shows "maps_ok sp R h' mm ms"
proof -
  have "map_at (kkey k) (kok k) h' a (mm a)" if "(k, a) \<in> set ms" for k a
  proof -
    have "sp \<notin> footprint a (mm a)" using assms(1) that unfolding maps_ok_def by force
    then show ?thesis using maps_okD [OF assms(1) that] map_at_cong [of a "mm a" h' h] assms(2) by metis
  qed
  moreover have "dom (mem h') = dom (mem h)"
  proof -
    have "sp \<in> dom (mem h)" using assms(1) by (simp add: maps_ok_def)
    then have "c \<in> dom (mem h') \<longleftrightarrow> c \<in> dom (mem h)" for c
      using assms(2) [of c] assms(3) by (cases "c = sp") (simp_all add: domIff)
    then show ?thesis by blast
  qed
  ultimately show ?thesis using assms(1) unfolding maps_ok_def by auto
qed

text \<open>A fresh map joins.\<close>

lemma maps_ok_add:
  assumes ok: "maps_ok sp R h mm ms" and wf: "heap_wf h" and fm: "fresh_map (kkey k) (kok k) h h' q m"
  shows "maps_ok sp R h' (mm(q := m)) ((k, q) # ms)"
proof -
  have dom: "dom (mem h) = insert sp (R \<union> (\<Union>a \<in> snd ` set ms. footprint a (mm a)))" using ok by (simp add: maps_ok_def)
  have new: "c \<notin> dom (mem h)" if "c \<in> footprint q m" for c
    using kind.fresh_old(1) [OF wf fm] that by blast
  have old: "c \<notin> footprint q m" "mem h' c = mem h c" if "c \<in> dom (mem h)" for c
    using kind.fresh_old [OF wf fm that] by auto
  have q: "q \<in> footprint q m" by (simp add: footprint_def)
  have sub: "footprint a (mm a) \<subseteq> dom (mem h)" if "a \<in> snd ` set ms" for a using that dom by auto
  have mine: "a \<in> footprint a (mm a)" for a by (simp add: footprint_def)
  have nq: "a \<noteq> q" if "a \<in> snd ` set ms" for a using sub [OF that] mine [of a] new [OF q] by blast
  have apart: "footprint a (mm a) \<inter> footprint q m = {}" if "a \<in> snd ` set ms" for a
    using sub [OF that] new by blast
  have apart': False if "(j, a) \<in> set ms" "x \<in> footprint q m" "x \<in> footprint a (mm a)" for j a x
    using apart [of a] that by force
  have at: "map_at (kkey j) (kok j) h' a (mm a)" if "(j, a) \<in> set ms" for j a
  proof -
    have "a \<in> snd ` set ms" using that by force
    then show ?thesis
      using maps_okD [OF ok that] map_at_cong [of a "mm a" h' h] old(2) sub by (metis subsetD)
  qed
  have "dom (mem h') = dom (mem h) \<union> footprint q m" by (rule kind.fresh_dom [OF fm])
  moreover have "q \<notin> snd ` set ms" using nq by blast
  moreover have "sp \<notin> footprint q m" "R \<inter> footprint q m = {}" using new dom by auto
  moreover have "map_at (kkey k) (kok k) h' q m" using fm by (simp add: fresh_map_def)
  ultimately show ?thesis
    using ok at nq apart' dom unfolding maps_ok_def by (auto simp: image_iff)
qed

text \<open>A map is destroyed.\<close>

lemma maps_ok_drop:
  assumes ok: "maps_ok sp R h mm ((k, q) # ms)" and wf: "heap_wf h"
  obtains h' where "destroy_map q h = Some h'" "maps_ok sp R h' mm ms" "heap_wf h'" "\<forall>c. c \<notin> footprint q (mm q) \<longrightarrow> mem h' c = mem h c"
proof -
  define h' where "h' = h\<lparr>mem := mem h |` (- footprint q (mm q))\<rparr>"
  have at: "map_at (kkey k) (kok k) h q (mm q)" using maps_okD [OF ok, of k q] by simp
  then have d: "destroy_map q h = Some h'" unfolding h'_def by (rule kind.destroy_map_eq [OF _ wf])
  have nq: "q \<notin> snd ` set ms" using ok by (auto simp: maps_ok_def)
  have apart: "footprint a (mm a) \<inter> footprint q (mm q) = {}" if "a \<in> snd ` set ms" for a
    using ok that nq unfolding maps_ok_def by force
  have same: "mem h' c = mem h c" if "c \<notin> footprint q (mm q)" for c using that by (simp add: h'_def)
  have "map_at (kkey j) (kok j) h' a (mm a)" if "(j, a) \<in> set ms" for j a
  proof -
    have "a \<in> snd ` set ms" using that by force
    then have "mem h' c = mem h c" if "c \<in> footprint a (mm a)" for c
      using apart [of a] same [of c] that by blast
    then show ?thesis
      using maps_okD [OF ok, of j a] that map_at_cong [of a "mm a" h' h] by simp
  qed
  moreover have "dom (mem h') = dom (mem h) - footprint q (mm q)" by (auto simp: h'_def)
  moreover have "heap_wf h'" unfolding h'_def by (rule heap_wf_mem_sub [OF wf]) auto
  ultimately show thesis
    using ok apart same d by (intro that [of h']) (auto simp: maps_ok_def)
qed


section \<open>The invariant\<close>

text \<open>The maps an update answers for: the new one before it is published, then the old one until it is freed.\<close>

fun owned :: "writer \<Rightarrow> (kind \<times> addr) list" where
  "owned (WPrepared oper old new) = [(kind_of (op_key oper), new)]"
| "owned (WPublished k old) = [(k, old)]"
| "owned (WUnlocked k old) = [(k, old)]"
| "owned (WSync k old W) = [(k, old)]"
| "owned _ = []"

definition all_maps :: "addr \<Rightarrow> addr \<Rightarrow> writer list \<Rightarrow> (kind \<times> addr) list" where
  "all_maps u p ws = (Users, u) # (Programs, p) # concat (map owned ws)"

text \<open>An update that will not free its old map before reader \<open>r\<close> has left.\<close>

fun guards :: "nat \<Rightarrow> kind \<times> addr \<Rightarrow> writer \<Rightarrow> bool" where
  "guards r ka (WPublished k old) = (ka = (k, old))"
| "guards r ka (WUnlocked k old) = (ka = (k, old))"
| "guards r ka (WSync k old W) = (ka = (k, old) \<and> r \<in> W)"
| "guards r ka _ = False"

definition protected_map :: "addr \<Rightarrow> addr \<Rightarrow> writer list \<Rightarrow> nat \<Rightarrow> kind \<times> addr \<Rightarrow> bool" where
  "protected_map u p ws r ka \<longleftrightarrow> snd ka = pick (fst ka) (u, p) \<or> (\<exists>c \<in> set ws. guards r ka c)"

text \<open>What a reader relies on: its map is protected, and the ghost is still what the map says.\<close>

definition answer :: "heap \<Rightarrow> item \<Rightarrow> addr \<Rightarrow> int option" where
  "answer h x a = contains a (item_key x) (object x) (kcmp (kind_of x)) h"

definition first_slot :: "heap \<Rightarrow> item \<Rightarrow> CuckooHash \<Rightarrow> bool option" where
  "first_slot h x m = slot_matches (kcmp (kind_of x)) m 0 (unat (hash1 (item_key x))) (object x) h"

fun reader_ok :: "heap \<Rightarrow> (addr \<Rightarrow> CuckooHash) \<Rightarrow> (kind \<times> addr \<Rightarrow> bool) \<Rightarrow> reader \<Rightarrow> bool" where
  "reader_ok h mm safe (RIdle None) = True"
| "reader_ok h mm safe (RIdle (Some (x, ret, g))) = (g = Some ret)"
| "reader_ok h mm safe (RLocked x) = item_ok x"
| "reader_ok h mm safe (RMap x a g) = (item_ok x \<and> safe (kind_of x, a) \<and> g = answer h x a)"
| "reader_ok h mm safe (RSecond x a g) = (item_ok x \<and> safe (kind_of x, a) \<and> g = answer h x a \<and> first_slot h x (mm a) = Some False)"
| "reader_ok h mm safe (RGot x ret g) = (g = Some ret)"

fun holds_lock :: "writer \<Rightarrow> bool" where
  "holds_lock (WLocked _) = True"
| "holds_lock (WFailed _) = True"
| "holds_lock (WPrepared _ _ _) = True"
| "holds_lock (WPublished _ _) = True"
| "holds_lock _ = False"

fun effect :: "item member_op \<Rightarrow> kobj set \<Rightarrow> kobj set" where
  "effect (Add x) I = insert (object x) I"
| "effect (Remove x) I = I - {object x}"

fun applicable :: "item member_op \<Rightarrow> kobj set \<Rightarrow> bool" where
  "applicable (Add x) I = (object x \<notin> I)"
| "applicable (Remove x) I = (object x \<in> I)"

text \<open>The codes with which an update is refused.\<close>

fun refusal :: "item member_op \<Rightarrow> kobj set \<Rightarrow> int \<Rightarrow> bool" where
  "refusal (Add x) I r = ((r = - EEXIST \<longleftrightarrow> object x \<in> I) \<and> r \<in> {- EEXIST, - ENOMEM, - ENOSPC})"
| "refusal (Remove x) I r = ((r = - EINVAL \<longleftrightarrow> object x \<notin> I) \<and> r \<in> {- EINVAL, - ENOMEM})"

fun writer_ok :: "heap \<Rightarrow> (addr \<Rightarrow> CuckooHash) \<Rightarrow> addr \<times> addr \<Rightarrow> writer \<Rightarrow> bool" where
  "writer_ok h mm up (WLocked oper) = item_ok (op_key oper)"
| "writer_ok h mm up (WPrepared oper old new) = (item_ok (op_key oper) \<and> old = pick (kind_of (op_key oper)) up \<and>
     items h (mm new) = effect oper (items h (mm old)) \<and> applicable oper (items h (mm old)))"
| "writer_ok h mm up _ = True"

definition lock_ok :: "shared \<Rightarrow> bool" where
  "lock_ok s \<longleftrightarrow> (write_lock s \<longleftrightarrow> (\<exists>c \<in> set (writers s). holds_lock c)) \<and>
     (\<forall>v < length (writers s). \<forall>w < length (writers s). holds_lock (writers s ! v) \<and> holds_lock (writers s ! w) \<longrightarrow> v = w)"

definition rcu_inv :: "addr \<Rightarrow> addr set \<Rightarrow> (addr \<Rightarrow> CuckooHash) \<Rightarrow> addr \<Rightarrow> addr \<Rightarrow> shared \<Rightarrow> bool" where
  "rcu_inv sp R mm u p s \<longleftrightarrow> heap_wf (rheap s) \<and> mem (rheap s) sp = Some (KStore u p) \<and>
     maps_ok sp R (rheap s) mm (all_maps u p (writers s)) \<and>
     (\<forall>r < length (readers s). reader_ok (rheap s) mm (protected_map u p (writers s) r) (readers s ! r)) \<and>
     (\<forall>c \<in> set (writers s). writer_ok (rheap s) mm (u, p) c) \<and> lock_ok s"

subsection \<open>Consequences\<close>

lemma guards_owned: "guards r ka c \<Longrightarrow> ka \<in> set (owned c)"
  by (cases c) auto

lemma pick_in_maps: "(k, pick k (u, p)) \<in> set (all_maps u p ws)"
  by (cases k) (simp_all add: all_maps_def)

lemma owned_in_maps: "c \<in> set ws \<Longrightarrow> ka \<in> set (owned c) \<Longrightarrow> ka \<in> set (all_maps u p ws)"
  by (auto simp: all_maps_def)

lemma protected_in_maps: "protected_map u p ws r ka \<Longrightarrow> ka \<in> set (all_maps u p ws)"
  by (cases ka) (auto simp: protected_map_def pick_in_maps intro: owned_in_maps guards_owned)

lemma answer_eq:
  assumes "map_at (kkey (kind_of x)) (kok (kind_of x)) h a m" and "item_ok x"
  shows "answer h x a = Some (if object x \<in> items h m then 0 else - 1)"
  using kind.contains_eq [OF assms(1), of "object x"] assms(2) by (simp add: answer_def item_key_object item_ok_def)

lemma slots_answer:
  assumes "map_at (kkey (kind_of x)) (kok (kind_of x)) h a m" and "item_ok x"
  shows "load_map a h = Some m"
    and "\<exists>b. first_slot h x m = Some b \<and> (b \<longrightarrow> answer h x a = Some 0)"
    and "first_slot h x m = Some False \<Longrightarrow>
      \<exists>b. slot_matches (kcmp (kind_of x)) m 1 (unat (hash2 (item_key x))) (object x) h = Some b \<and> answer h x a = Some (if b then 0 else - 1)"
proof -
  have inv: "map_inv (kkey (kind_of x)) (kok (kind_of x)) h m" using assms(1) by (simp add: map_at_def)
  note sm = kind.slot_matches_eq [OF inv assms(2) [unfolded item_ok_def]]
  show ld: "load_map a h = Some m" by (rule kind.load_map_at [OF assms(1)])
  show "\<exists>b. first_slot h x m = Some b \<and> (b \<longrightarrow> answer h x a = Some 0)"
    by (simp add: first_slot_def answer_def contains_def ld sm)
  show "\<exists>b. slot_matches (kcmp (kind_of x)) m 1 (unat (hash2 (item_key x))) (object x) h = Some b \<and> answer h x a = Some (if b then 0 else - 1)"
    if "first_slot h x m = Some False"
    using that by (simp add: first_slot_def answer_def contains_def ld sm)
qed

text \<open>What a reader relies on survives a change of the heap that leaves its map alone.\<close>

lemma reader_ok_mono:
  assumes "reader_ok h mm safe c"
    and "\<And>x a. c = RMap x a (answer h x a) \<or> c = RSecond x a (answer h x a) \<Longrightarrow> safe (kind_of x, a) \<Longrightarrow> item_ok x \<Longrightarrow>
      safe' (kind_of x, a) \<and> answer h' x a = answer h x a \<and> first_slot h' x (mm' a) = first_slot h x (mm a)"
  shows "reader_ok h' mm' safe' c"
  using assms by (cases "(h, mm, safe, c)" rule: reader_ok.cases) auto

lemma same_answer:
  assumes at: "map_at (kkey (kind_of x)) (kok (kind_of x)) h a m" and ok: "item_ok x"
    and same: "\<And>c. c \<in> footprint a m \<Longrightarrow> mem h' c = mem h c"
  shows "answer h' x a = answer h x a" and "first_slot h' x m = first_slot h x m"
proof -
  have at': "map_at (kkey (kind_of x)) (kok (kind_of x)) h' a m" using at map_at_cong [of a m h' h] same by simp
  have "items h' m = items h m" using same by (intro items_cong) (simp add: footprint_def)
  then show "answer h' x a = answer h x a" using answer_eq [OF at ok] answer_eq [OF at' ok] by simp
  have inv: "map_inv (kkey (kind_of x)) (kok (kind_of x)) h m" "map_inv (kkey (kind_of x)) (kok (kind_of x)) h' m"
    using at at' by (simp_all add: map_at_def)
  let ?i = "unat (hash1 (item_key x))"
  have "occupied m 0 ?i \<Longrightarrow> mem h' (table m 0 ?i) = mem h (table m 0 ?i)"
    by (rule same) (simp add: footprint_def ptrsI)
  then show "first_slot h' x m = first_slot h x m"
    using kind.slot_matches_eq [OF inv(1) ok [unfolded item_ok_def], of 0 ?i] kind.slot_matches_eq [OF inv(2) ok [unfolded item_ok_def], of 0 ?i]
    by (auto simp: first_slot_def)
qed


section \<open>Lookups keep the invariant\<close>

lemma rcu_invD:
  assumes "rcu_inv sp R mm u p s"
  shows "heap_wf (rheap s)" "mem (rheap s) sp = Some (KStore u p)" "load_store sp (rheap s) = Some (u, p)"
    "maps_ok sp R (rheap s) mm (all_maps u p (writers s))"
    "\<And>r. r < length (readers s) \<Longrightarrow> reader_ok (rheap s) mm (protected_map u p (writers s) r) (readers s ! r)"
    "\<And>c. c \<in> set (writers s) \<Longrightarrow> writer_ok (rheap s) mm (u, p) c" "lock_ok s"
  using assms by (simp_all add: rcu_inv_def load_store_def load_def)

lemma protected_map_at:
  assumes "rcu_inv sp R mm u p s" and "protected_map u p (writers s) r (k, a)"
  shows "map_at (kkey k) (kok k) (rheap s) a (mm a)"
  by (rule maps_okD [OF rcu_invD(4) [OF assms(1)] protected_in_maps [OF assms(2)]])

lemma rgoto_inv:
  assumes "rcu_inv sp R mm u p s" and "reader_ok (rheap s) mm (protected_map u p (writers s) r) c"
  shows "rcu_inv sp R mm u p (rgoto r c s)"
proof -
  have "reader_ok (rheap s) mm (protected_map u p (writers s) r') ((readers s)[r := c] ! r')" if "r' < length (readers s)" for r'
    using that assms(2) rcu_invD(5) [OF assms(1) that] by (cases "r' = r") simp_all
  then show ?thesis using assms(1) by (simp add: rcu_inv_def rgoto_def lock_ok_def)
qed

lemma rpc_Some: "rpc s r = Some c \<longleftrightarrow> r < length (readers s) \<and> readers s ! r = c"
  by (auto simp: rpc_def)

lemma wpc_Some: "wpc s w = Some c \<longleftrightarrow> w < length (writers s) \<and> writers s ! w = c"
  by (auto simp: wpc_def)

lemma dereference_inv:
  assumes "rcu_inv sp R mm u p s" and "rpc s r = Some (RLocked x)"
  shows "\<exists>s'. dereference sp r x s = Some s' \<and> rcu_inv sp R mm u p s'"
proof -
  have x: "item_ok x" using rcu_invD(5) [OF assms(1), of r] assms(2) by (simp add: rpc_Some)
  have g: "find_item sp x (rheap s) = answer (rheap s) x (pick (kind_of x) (u, p))"
    by (simp add: find_item_contains rcu_invD(3) [OF assms(1)] answer_def)
  show ?thesis
    using x g by (auto simp: dereference_def rcu_invD(3) [OF assms(1)] protected_map_def intro!: rgoto_inv [OF assms(1)])
qed

lemma probe_first_inv:
  assumes "rcu_inv sp R mm u p s" and "rpc s r = Some (RMap x a g)"
  shows "\<exists>s'. probe_first r x a g s = Some s' \<and> rcu_inv sp R mm u p s'"
proof -
  have ok: "item_ok x" "protected_map u p (writers s) r (kind_of x, a)" "g = answer (rheap s) x a"
    using rcu_invD(5) [OF assms(1), of r] assms(2) by (simp_all add: rpc_Some)
  note sl = slots_answer [OF protected_map_at [OF assms(1) ok(2)] ok(1)]
  obtain b where b: "first_slot (rheap s) x (mm a) = Some b" "b \<longrightarrow> answer (rheap s) x a = Some 0" using sl(2) by blast
  show ?thesis
    using ok b sl(1) by (cases b) (auto simp: probe_first_def first_slot_def intro!: rgoto_inv [OF assms(1)])
qed

lemma probe_second_inv:
  assumes "rcu_inv sp R mm u p s" and "rpc s r = Some (RSecond x a g)"
  shows "\<exists>s'. probe_second r x a g s = Some s' \<and> rcu_inv sp R mm u p s'"
proof -
  have ok: "item_ok x" "protected_map u p (writers s) r (kind_of x, a)" "g = answer (rheap s) x a" "first_slot (rheap s) x (mm a) = Some False"
    using rcu_invD(5) [OF assms(1), of r] assms(2) by (simp_all add: rpc_Some)
  note sl = slots_answer [OF protected_map_at [OF assms(1) ok(2)] ok(1)]
  obtain b where b: "slot_matches (kcmp (kind_of x)) (mm a) 1 (unat (hash2 (item_key x))) (object x) (rheap s) = Some b"
    "answer (rheap s) x a = Some (if b then 0 else - 1)"
    using sl(3) [OF ok(4)] by blast
  show ?thesis
    using ok b sl(1) by (auto simp: probe_second_def intro!: rgoto_inv [OF assms(1)])
qed

lemma grace_simps [simp]:
  "owned (grace r c) = owned c" "holds_lock (grace r c) = holds_lock c" "writer_ok h mm up (grace r c) = writer_ok h mm up c"
  "r' \<noteq> r \<Longrightarrow> guards r' ka (grace r c) = guards r' ka c"
  by (cases c; simp)+

lemma read_unlock_inv:
  assumes inv: "rcu_inv sp R mm u p s" and pc: "rpc s r = Some (RGot x ret g)"
  shows "rcu_inv sp R mm u p (read_unlock r x ret g s)"
proof -
  have g: "g = Some ret" using rcu_invD(5) [OF inv, of r] pc by (simp add: rpc_Some)
  have "concat (map (owned \<circ> grace r) (writers s)) = concat (map owned (writers s))" by (simp add: comp_def)
  then have maps: "all_maps u p (map (grace r) (writers s)) = all_maps u p (writers s)" by (simp add: all_maps_def)
  have prot: "protected_map u p (map (grace r) (writers s)) r' ka = protected_map u p (writers s) r' ka" if "r' \<noteq> r" for r' ka
    using that by (simp add: protected_map_def)
  have "reader_ok (rheap s) mm (protected_map u p (map (grace r) (writers s)) r') ((readers s)[r := RIdle (Some (x, ret, g))] ! r')"
    if "r' < length (readers s)" for r'
    using that rcu_invD(5) [OF inv that] g reader_ok_mono [where safe = "protected_map u p (writers s) r'" and h = "rheap s" and mm = mm]
    by (cases "r' = r") (auto simp: prot)
  then show ?thesis
    using inv by (auto simp: rcu_inv_def read_unlock_def rgoto_def maps lock_ok_def)
qed

section \<open>Updates keep the invariant\<close>

lemma owned_update:
  "w < length ws \<Longrightarrow> mset (concat (map owned (ws[w := c]))) + mset (owned (ws ! w)) = mset (concat (map owned ws)) + mset (owned c)"
  by (induction ws arbitrary: w) (auto simp: nth_Cons split: nat.splits)

lemma all_maps_update:
  "w < length ws \<Longrightarrow> mset (all_maps u p (ws[w := c])) + mset (owned (ws ! w)) = mset (all_maps u p ws) + mset (owned c)"
  using owned_update [of w ws c] by (simp add: all_maps_def)

lemma protected_update:
  assumes "protected_map u p ws r ka" and "w < length ws" and "guards r ka (ws ! w) \<Longrightarrow> guards r ka c"
  shows "protected_map u p (ws[w := c]) r ka"
proof (cases "snd ka = pick (fst ka) (u, p)")
  case False
  then obtain i where i: "i < length ws" "guards r ka (ws ! i)" using assms(1) by (auto simp: protected_map_def in_set_conv_nth)
  then have "guards r ka (ws[w := c] ! i)" using assms(2,3) by (cases "i = w") simp_all
  moreover have "ws[w := c] ! i \<in> set (ws[w := c])" using i(1) by (intro nth_mem) simp
  ultimately show ?thesis by (auto simp: protected_map_def)
qed (simp add: protected_map_def)

lemma lock_ok_move:
  assumes "lock_ok s" and "w < length (writers s)" and "holds_lock c = holds_lock (writers s ! w)"
  shows "lock_ok (wgoto w c (s\<lparr>rheap := h\<rparr>))"
proof -
  have same: "holds_lock ((writers s)[w := c] ! v) = holds_lock (writers s ! v)" if "v < length (writers s)" for v
    using that assms(2,3) by (cases "v = w") simp_all
  have ex: "(\<exists>d \<in> set ds. holds_lock d) = (\<exists>v < length ds. holds_lock (ds ! v))" for ds
    by (metis in_set_conv_nth)
  have "(\<exists>d \<in> set ((writers s)[w := c]). holds_lock d) = (\<exists>d \<in> set (writers s). holds_lock d)"
    unfolding ex using same by auto
  then show ?thesis using assms(1) same by (simp add: lock_ok_def wgoto_def)
qed

lemma lock_ok_acquire:
  assumes "lock_ok s" and "w < length (writers s)" and "\<not> write_lock s" and "holds_lock c"
  shows "lock_ok (wgoto w c (s\<lparr>write_lock := True\<rparr>))"
proof -
  have "\<not> holds_lock (writers s ! v)" if "v < length (writers s)" for v
    using assms(1,3) nth_mem [OF that] by (auto simp: lock_ok_def)
  then show ?thesis using assms(2,4) by (auto simp: lock_ok_def wgoto_def nth_list_update set_update_memI)
qed

lemma lock_ok_release:
  assumes "lock_ok s" and "w < length (writers s)" and "holds_lock (writers s ! w)" and "\<not> holds_lock c"
  shows "lock_ok (wgoto w c (s\<lparr>write_lock := False\<rparr>))"
proof -
  have "\<not> holds_lock ((writers s)[w := c] ! v)" if "v < length (writers s)" for v
    using assms that by (cases "v = w") (auto simp: lock_ok_def)
  then show ?thesis by (auto simp: lock_ok_def wgoto_def in_set_conv_nth)
qed


lemma writer_move:
  assumes inv: "rcu_inv sp R mm u p s" and w: "w < length (writers s)" and own: "owned c = owned (writers s ! w)"
    and keep: "\<And>r ka. r < length (readers s) \<Longrightarrow> in_section (readers s ! r) \<Longrightarrow> guards r ka (writers s ! w) \<Longrightarrow> guards r ka c"
    and ok: "writer_ok (rheap s) mm (u, p) c" and lock: "lock_ok (wgoto w c (s\<lparr>write_lock := b\<rparr>))"
  shows "rcu_inv sp R mm u p (wgoto w c (s\<lparr>write_lock := b\<rparr>))"
proof -
  have "mset (all_maps u p ((writers s)[w := c])) = mset (all_maps u p (writers s))"
    using all_maps_update [OF w, of u p c] own by simp
  then have "maps_ok sp R (rheap s) mm (all_maps u p ((writers s)[w := c]))"
    by (rule maps_ok_perm [OF sym rcu_invD(4) [OF inv]])
  moreover have "reader_ok (rheap s) mm (protected_map u p ((writers s)[w := c]) r) (readers s ! r)" if "r < length (readers s)" for r
    using rcu_invD(5) [OF inv that] protected_update [OF _ w] keep [OF that]
    by (elim reader_ok_mono) auto
  moreover have "writer_ok (rheap s) mm (u, p) d" if "d \<in> set ((writers s)[w := c])" for d
    using that set_update_subset_insert [of "writers s" w c] ok rcu_invD(6) [OF inv] by auto
  ultimately show ?thesis
    using rcu_invD(1,2) [OF inv] lock by (simp add: rcu_inv_def wgoto_def)
qed

lemma same_mem_inv:
  assumes "rcu_inv sp R mm u p s" and "same_mem (rheap s) h"
  shows "rcu_inv sp R mm u p (s\<lparr>rheap := h\<rparr>)"
proof -
  have m: "mem h = mem (rheap s)" "heap_wf h" using assms(2) by (auto simp: same_mem_def later_def)
  have sl: "slot_matches cmp m t i x h = slot_matches cmp m t i x (rheap s)" for cmp m t i x
    by (simp add: slot_matches_def load_def m(1))
  have eq: "answer h x a = answer (rheap s) x a" "first_slot h x m' = first_slot (rheap s) x m'" for x a m'
    unfolding answer_def first_slot_def contains_def load_map_def load_def m(1) sl by simp_all
  have "reader_ok h mm safe c" if "reader_ok (rheap s) mm safe c" for safe c
    using that by (rule reader_ok_mono) (simp add: eq)
  moreover have "writer_ok h mm (u, p) c" if "writer_ok (rheap s) mm (u, p) c" for c
    using that by (cases c) (simp_all add: items_def m(1))
  moreover have "maps_ok sp R h mm ms = maps_ok sp R (rheap s) mm ms" for ms
    using map_at_cong [of _ _ h "rheap s"] by (simp add: maps_ok_def m(1))
  ultimately show ?thesis using assms(1) m by (simp add: rcu_inv_def lock_ok_def)
qed

lemma prepare_op_cases:
  assumes "map_at (kkey (kind_of (op_key oper))) (kok (kind_of (op_key oper))) h old m" and "heap_wf h" and "item_ok (op_key oper)"
  obtains (refused) r h' where "prepare_op oper old h = Some (r, NULL, h')" "r \<noteq> 0" "same_mem h h'" "refusal oper (items h m) r"
  | (ready) q h' m' where "prepare_op oper old h = Some (0, q, h')"
      "fresh_map (kkey (kind_of (op_key oper))) (kok (kind_of (op_key oper))) h h' q m'" "items h' m' = effect oper (items h m)"
      "applicable oper (items h m)"
proof (cases oper)
  case (Add x)
  have x: "kok (kind_of x) (object x)" using assms(3) Add by (simp add: item_ok_def)
  have at: "map_at (kkey (kind_of x)) (kok (kind_of x)) h old m" using assms(1) Add by simp
  show thesis
    using at assms(2) x
  proof (cases rule: kind.prepare_add_cases)
    case (refused r h')
    then show thesis using Add by (intro that(1) [of r h']) (auto simp: item_key_object)
  next
    case (added q h' m')
    then show thesis using Add by (intro that(2) [of q h' m']) (auto simp: item_key_object)
  qed
next
  case (Remove x)
  have x: "kok (kind_of x) (object x)" using assms(3) Remove by (simp add: item_ok_def)
  have at: "map_at (kkey (kind_of x)) (kok (kind_of x)) h old m" using assms(1) Remove by simp
  show thesis
    using at assms(2) x
  proof (cases rule: kind.prepare_remove_cases)
    case (refused r h')
    then show thesis using Remove by (intro that(1) [of r h']) (auto simp: item_key_object)
  next
    case (removed q h' m')
    then show thesis using Remove by (intro that(2) [of q h' m']) (auto simp: item_key_object)
  qed
qed


text \<open>A change of the heap that leaves the maps in use alone is harmless to readers and to prepared updates.\<close>

lemma reader_ok_heap:
  assumes "rcu_inv sp R mm u p s" and "r < length (readers s)"
    and "\<And>ka. protected_map u p (writers s) r ka \<Longrightarrow> in_section (readers s ! r) \<Longrightarrow> protected_map u' p' ws' r ka"
    and "\<And>k a c. (k, a) \<in> set (all_maps u p (writers s)) \<Longrightarrow> protected_map u' p' ws' r (k, a) \<Longrightarrow> mm' a = mm a \<and> (c \<in> footprint a (mm a) \<longrightarrow> mem h' c = mem (rheap s) c)"
  shows "reader_ok h' mm' (protected_map u' p' ws' r) (readers s ! r)"
proof (rule reader_ok_mono [OF rcu_invD(5) [OF assms(1,2)]])
  fix x a
  assume pc: "readers s ! r = RMap x a (answer (rheap s) x a) \<or> readers s ! r = RSecond x a (answer (rheap s) x a)"
    and prot: "protected_map u p (writers s) r (kind_of x, a)" and x: "item_ok x"
  have "in_section (readers s ! r)" using pc by auto
  then have prot': "protected_map u' p' ws' r (kind_of x, a)" using assms(3) [OF prot] by simp
  have mm: "mm' a = mm a" and mem: "\<And>c. c \<in> footprint a (mm a) \<Longrightarrow> mem h' c = mem (rheap s) c"
    using assms(4) [OF protected_in_maps [OF prot] prot'] by blast+
  show "protected_map u' p' ws' r (kind_of x, a) \<and> answer h' x a = answer (rheap s) x a \<and>
      first_slot h' x (mm' a) = first_slot (rheap s) x (mm a)"
    unfolding mm using prot' same_answer [OF protected_map_at [OF assms(1) prot] x mem] by blast
qed

lemma prepared_in_maps:
  assumes "rcu_inv sp R mm u p s" and "WPrepared oper old new \<in> set (writers s)"
  shows "(kind_of (op_key oper), old) \<in> set (all_maps u p (writers s))" "(kind_of (op_key oper), new) \<in> set (all_maps u p (writers s))"
  using rcu_invD(6) [OF assms] pick_in_maps owned_in_maps [OF assms(2)] by auto

lemma writer_ok_heap:
  assumes "writer_ok h mm up d"
    and "\<And>oper old new. d = WPrepared oper old new \<Longrightarrow> items h' (mm' old) = items h (mm old) \<and> items h' (mm' new) = items h (mm new)"
  shows "writer_ok h' mm' up d"
  using assms by (cases d) simp_all

lemma prepare_inv:
  assumes inv: "rcu_inv sp R mm u p s" and pc: "wpc s w = Some (WLocked oper)"
  shows "\<exists>s' mm'. prepare sp w oper s = Some s' \<and> rcu_inv sp R mm' u p s' \<and> (\<forall>k. items (rheap s') (mm' (pick k (u, p))) = items (rheap s) (mm (pick k (u, p)))) \<and>
    (\<forall>r. wpc s' w = Some (WFailed r) \<longrightarrow> refusal oper (items (rheap s) (mm (pick (kind_of (op_key oper)) (u, p)))) r)"
proof -
  let ?k = "kind_of (op_key oper)" and ?old = "pick (kind_of (op_key oper)) (u, p)"
  have w: "w < length (writers s)" "writers s ! w = WLocked oper" using pc by (simp_all add: wpc_Some)
  have ok: "item_ok (op_key oper)" using rcu_invD(6) [OF inv, of "WLocked oper"] w nth_mem by fastforce
  have at: "map_at (kkey ?k) (kok ?k) (rheap s) ?old (mm ?old)" by (rule maps_okD [OF rcu_invD(4) [OF inv] pick_in_maps])
  note wf = rcu_invD(1) [OF inv]
  from at wf ok show ?thesis
  proof (cases rule: prepare_op_cases)
    case (refused r h')
    have "rcu_inv sp R mm u p (s\<lparr>rheap := h'\<rparr>)" by (rule same_mem_inv [OF inv refused(3)])
    then have "rcu_inv sp R mm u p (wgoto w (WFailed r) (s\<lparr>rheap := h'\<rparr>))"
      using writer_move [of sp R mm u p "s\<lparr>rheap := h'\<rparr>" w "WFailed r" "write_lock s"] w lock_ok_move [OF rcu_invD(7) [OF inv] w(1), of "WFailed r" h']
      by (simp add: wgoto_def)
    moreover have "items h' m = items (rheap s) m" for m using refused(3) by (simp add: items_def same_mem_def)
    moreover have "prepare sp w oper s = Some (wgoto w (WFailed r) (s\<lparr>rheap := h'\<rparr>))" using refused(1,2) by (simp add: prepare_def rcu_invD(3) [OF inv])
    ultimately show ?thesis
      using refused(4) w(1) by (intro exI [of _ "wgoto w (WFailed r) (s\<lparr>rheap := h'\<rparr>)"] exI [of _ mm]) (simp add: wgoto_def wpc_def)
  next
    case (ready q h' m')
    let ?mm = "mm(q := m')" and ?c = "WPrepared oper ?old q"
    have maps: "maps_ok sp R h' ?mm ((?k, q) # all_maps u p (writers s))"
      by (rule maps_ok_add [OF rcu_invD(4) [OF inv] wf ready(2)])
    have kept: "?mm a = mm a \<and> (c \<in> footprint a (mm a) \<longrightarrow> mem h' c = mem (rheap s) c)" if "(k, a) \<in> set (all_maps u p (writers s))" for k a c
    proof -
      have "a \<noteq> q" by (rule maps_ok_distinct [OF maps that])
      moreover have "footprint a (mm a) \<subseteq> dom (mem (rheap s))" by (rule maps_ok_regions(1) [OF rcu_invD(4) [OF inv] that])
      ultimately show ?thesis using kind.fresh_old(2) [OF wf ready(2)] by auto
    qed
    have perm: "mset ((?k, q) # all_maps u p (writers s)) = mset (all_maps u p ((writers s)[w := ?c]))"
      using all_maps_update [OF w(1), of u p ?c] w(2) by simp
    have prot: "protected_map u p ((writers s)[w := ?c]) r ka" if "protected_map u p (writers s) r ka" for r ka
      using protected_update [OF that w(1)] w(2) by simp
    have rd: "reader_ok h' ?mm (protected_map u p ((writers s)[w := ?c]) r) (readers s ! r)" if "r < length (readers s)" for r
      using prot kept by (intro reader_ok_heap [OF inv that]) auto
    have items_kept: "items h' (?mm a) = items (rheap s) (mm a)" if "(k, a) \<in> set (all_maps u p (writers s))" for k a
      using kept [OF that] by (auto simp: footprint_def intro!: items_cong)
    have wr: "writer_ok h' ?mm (u, p) d" if "d \<in> set ((writers s)[w := ?c])" for d
    proof (cases "d = ?c")
      case True
      have "?old \<noteq> q" by (rule maps_ok_distinct [OF maps pick_in_maps])
      then have "items h' m' = effect oper (items h' (?mm ?old))" "applicable oper (items h' (?mm ?old))"
        using ready(3,4) items_kept [OF pick_in_maps, of ?k] by (simp_all only:)
      then show ?thesis unfolding True using ok by simp
    next
      case False
      then have d: "d \<in> set (writers s)" using that set_update_subset_insert [of "writers s" w ?c] by blast
      show ?thesis
        using items_kept prepared_in_maps [OF inv] d by (intro writer_ok_heap [OF rcu_invD(6) [OF inv d]]) blast
    qed
    have sp: "mem h' sp = Some (KStore u p)" using kind.fresh_old(2) [OF wf ready(2), of sp] rcu_invD(2) [OF inv] by auto
    have lk: "lock_ok (wgoto w ?c (s\<lparr>rheap := h'\<rparr>))" using lock_ok_move [OF rcu_invD(7) [OF inv] w(1), of ?c h'] w(2) by simp
    have "rcu_inv sp R ?mm u p (wgoto w ?c (s\<lparr>rheap := h'\<rparr>))"
      using maps_ok_perm [OF perm maps] rd wr sp ready(2) lk by (simp add: rcu_inv_def wgoto_def fresh_map_def later_def)
    moreover have "prepare sp w oper s = Some (wgoto w ?c (s\<lparr>rheap := h'\<rparr>))"
      using ready(1) by (simp add: prepare_def rcu_invD(3) [OF inv])
    moreover have "\<forall>k. items h' (?mm (pick k (u, p))) = items (rheap s) (mm (pick k (u, p)))" using items_kept [OF pick_in_maps] by blast
    ultimately show ?thesis
      using w(1) by (intro exI [of _ "wgoto w ?c (s\<lparr>rheap := h'\<rparr>)"] exI [of _ ?mm]) (simp add: wgoto_def wpc_def)
  qed
qed


fun swing :: "kind \<Rightarrow> addr \<Rightarrow> addr \<times> addr \<Rightarrow> addr \<times> addr" where
  "swing Users new (u, p) = (new, p)"
| "swing Programs new (u, p) = (u, new)"

lemma swing_simps:
  "replace k new (u, p) = KStore (fst (swing k new (u, p))) (snd (swing k new (u, p)))"
  "pick k (swing k new (u, p)) = new" "j \<noteq> k \<Longrightarrow> pick j (swing k new (u, p)) = pick j (u, p)"
  by (cases k; cases j; simp)+

lemma swing_maps:
  assumes "swing k new (u, p) = (u', p')"
  shows "mset (all_maps u' p' ws) + {#(k, pick k (u, p))#} = mset (all_maps u p ws) + {#(k, new)#}"
  using assms by (cases k) (auto simp: all_maps_def)

lemma assign_pointer_inv:
  assumes inv: "rcu_inv sp R mm u p s" and pc: "wpc s w = Some (WPrepared oper old new)"
  shows "\<exists>s' u' p'. assign_pointer sp w oper old new s = Some s' \<and> rcu_inv sp R mm u' p' s' \<and>
    applicable oper (items (rheap s) (mm (pick (kind_of (op_key oper)) (u, p)))) \<and>
    (\<forall>k. items (rheap s') (mm (pick k (u', p'))) =
       (if k = kind_of (op_key oper) then effect oper (items (rheap s) (mm (pick k (u, p)))) else items (rheap s) (mm (pick k (u, p)))))"
proof -
  let ?k = "kind_of (op_key oper)" and ?c = "WPublished (kind_of (op_key oper)) old"
  obtain u' p' where up: "swing ?k new (u, p) = (u', p')" by fastforce
  define h' where "h' = (rheap s)\<lparr>mem := (mem (rheap s))(sp \<mapsto> KStore u' p')\<rparr>"
  have w: "w < length (writers s)" "writers s ! w = WPrepared oper old new" using pc by (simp_all add: wpc_Some)
  then have in_ws: "WPrepared oper old new \<in> set (writers s)" by (metis nth_mem)
  have wok: "item_ok (op_key oper)" "old = pick ?k (u, p)" "items (rheap s) (mm new) = effect oper (items (rheap s) (mm old))"
    "applicable oper (items (rheap s) (mm old))"
    using rcu_invD(6) [OF inv in_ws, unfolded writer_ok.simps] by blast+
  have st: "assign_pointer sp w oper old new s = Some (wgoto w ?c (s\<lparr>rheap := h'\<rparr>))"
    using rcu_invD(2) [OF inv] swing_simps(1) [of ?k new u p] up by (simp add: assign_pointer_def rcu_invD(3) [OF inv] store_obj_def h'_def)
  have "mset (all_maps u' p' ((writers s)[w := ?c])) = mset (all_maps u p (writers s))"
    using all_maps_update [OF w(1), of u' p' ?c] swing_maps [OF up, of "writers s"] w(2) wok(2) by simp
  from maps_ok_perm [OF sym [OF this] rcu_invD(4) [OF inv]]
  have "maps_ok sp R (rheap s) mm (all_maps u' p' ((writers s)[w := ?c]))" .
  then have maps: "maps_ok sp R h' mm (all_maps u' p' ((writers s)[w := ?c]))" by (rule maps_ok_cong) (auto simp: h'_def)
  have away: "mem h' c = mem (rheap s) c" if "(k, a) \<in> set (all_maps u p (writers s))" "c \<in> footprint a (mm a)" for k a c
    using maps_ok_regions(2) [OF rcu_invD(4) [OF inv] that(1)] that(2) by (auto simp: h'_def)
  have items_kept: "items h' (mm a) = items (rheap s) (mm a)" if "(k, a) \<in> set (all_maps u p (writers s))" for k a
    using away [OF that] by (intro items_cong) (simp add: footprint_def)
  have prot: "protected_map u' p' ((writers s)[w := ?c]) r ka" if ka: "protected_map u p (writers s) r ka" for r ka
  proof (cases "ka = (?k, old)")
    case True
    have "?c \<in> set ((writers s)[w := ?c])" using w(1) by (rule set_update_memI)
    then show ?thesis using True by (force simp: protected_map_def)
  next
    case False
    have "protected_map u' p' (writers s) r ka"
      using ka False wok(2) swing_simps(3) [of "fst ka" ?k new u p] up
      by (cases "fst ka = ?k") (auto simp: protected_map_def prod_eq_iff)
    then show ?thesis using protected_update [OF _ w(1)] w(2) by simp
  qed
  have rd: "reader_ok h' mm (protected_map u' p' ((writers s)[w := ?c]) r) (readers s ! r)" if "r < length (readers s)" for r
    using prot away by (intro reader_ok_heap [OF inv that]) auto
  have wr: "writer_ok h' mm (u', p') d" if "d \<in> set ((writers s)[w := ?c])" for d
  proof -
    obtain v where v: "v < length (writers s)" "(writers s)[w := ?c] ! v = d" using \<open>d \<in> set _\<close> by (auto simp: in_set_conv_nth)
    show ?thesis
    proof (cases "v = w")
      case False
      then have d: "writers s ! v = d" using v by simp
      then have "\<not> holds_lock d" using False v(1) w rcu_invD(7) [OF inv] by (auto simp: lock_ok_def)
      then show ?thesis by (cases d) simp_all
    qed (use v w(1) in auto)
  qed
  have lk: "lock_ok (wgoto w ?c (s\<lparr>rheap := h'\<rparr>))" using lock_ok_move [OF rcu_invD(7) [OF inv] w(1), of ?c h'] w(2) by simp
  have "rcu_inv sp R mm u' p' (wgoto w ?c (s\<lparr>rheap := h'\<rparr>))"
    using maps rd wr lk heap_wf_mem_upd [OF rcu_invD(1,2) [OF inv]] by (simp add: rcu_inv_def wgoto_def h'_def)
  moreover have "items h' (mm (pick k (u', p'))) =
      (if k = ?k then effect oper (items (rheap s) (mm (pick k (u, p)))) else items (rheap s) (mm (pick k (u, p))))" for k
  proof (cases "k = ?k")
    case True
    then show ?thesis using swing_simps(2) [of ?k new u p] up wok(2,3) items_kept [OF prepared_in_maps(2) [OF inv in_ws]] by simp
  next
    case False
    then show ?thesis using swing_simps(3) [of k ?k new u p] up items_kept [OF pick_in_maps, of k] by simp
  qed
  ultimately show ?thesis
    using st wok(2,4) by (intro exI [of _ "wgoto w ?c (s\<lparr>rheap := h'\<rparr>)"] exI [of _ u'] exI [of _ p']) (simp add: wgoto_def)
qed

lemma free_old_inv:
  assumes inv: "rcu_inv sp R mm u p s" and pc: "wpc s w = Some (WSync k old {})"
  shows "\<exists>s'. free_old w old s = Some s' \<and> rcu_inv sp R mm u p s' \<and> (\<forall>k. items (rheap s') (mm (pick k (u, p))) = items (rheap s) (mm (pick k (u, p))))"
proof -
  let ?c = "WIdle (Some 0)"
  have w: "w < length (writers s)" "writers s ! w = WSync k old {}" using pc by (simp_all add: wpc_Some)
  let ?ws = "(writers s)[w := ?c]"
  have "mset (all_maps u p (writers s)) = mset ((k, old) # all_maps u p ?ws)" using all_maps_update [OF w(1), of u p ?c] w(2) by simp
  from maps_ok_perm [OF this rcu_invD(4) [OF inv]] have maps: "maps_ok sp R (rheap s) mm ((k, old) # all_maps u p ?ws)" .
  obtain h' where h': "destroy_map old (rheap s) = Some h'" "maps_ok sp R h' mm (all_maps u p ?ws)" "heap_wf h'"
    "\<forall>c. c \<notin> footprint old (mm old) \<longrightarrow> mem h' c = mem (rheap s) c"
    using maps_ok_drop [OF maps rcu_invD(1) [OF inv]] by blast
  have away: "mem h' c = mem (rheap s) c" if "(j, a) \<in> set (all_maps u p ?ws)" "c \<in> footprint a (mm a)" for j a c
    using maps_ok_regions(3) [OF maps, of k old j a] maps_ok_distinct [OF maps that(1)] that h'(4) by auto
  have items_kept: "items h' (mm a) = items (rheap s) (mm a)" if "(j, a) \<in> set (all_maps u p ?ws)" for j a
    using away [OF that] by (intro items_cong) (simp add: footprint_def)
  have prot: "protected_map u p ?ws r ka" if "protected_map u p (writers s) r ka" for r ka
    using protected_update [OF that w(1)] w(2) by simp
  have rd: "reader_ok h' mm (protected_map u p ?ws r) (readers s ! r)" if "r < length (readers s)" for r
    using prot away protected_in_maps by (intro reader_ok_heap [OF inv that]) blast+
  have wr: "writer_ok h' mm (u, p) d" if "d \<in> set ?ws" for d
  proof (cases "d = ?c")
    case False
    then have d: "d \<in> set (writers s)" using that set_update_subset_insert [of "writers s" w ?c] by blast
    note ok = rcu_invD(6) [OF inv d]
    show ?thesis
    proof (rule writer_ok_heap [OF ok])
      fix oper o' n assume dd: "d = WPrepared oper o' n"
      have "(kind_of (op_key oper), o') \<in> set (all_maps u p ?ws)" using ok dd pick_in_maps by simp
      moreover have "(kind_of (op_key oper), n) \<in> set (all_maps u p ?ws)" using that dd by (intro owned_in_maps) auto
      ultimately show "items h' (mm o') = items (rheap s) (mm o') \<and> items h' (mm n) = items (rheap s) (mm n)"
        using items_kept by blast
    qed
  qed simp
  have sp: "mem h' sp = Some (KStore u p)"
    using maps_ok_regions(2) [OF maps, of k old] h'(4) rcu_invD(2) [OF inv] by simp
  have lk: "lock_ok (wgoto w ?c (s\<lparr>rheap := h'\<rparr>))" using lock_ok_move [OF rcu_invD(7) [OF inv] w(1), of ?c h'] w(2) by simp
  have "rcu_inv sp R mm u p (wgoto w ?c (s\<lparr>rheap := h'\<rparr>))"
    using h'(2,3) rd wr sp lk by (simp add: rcu_inv_def wgoto_def)
  then show ?thesis
    using h'(1) items_kept [OF pick_in_maps] by (intro exI [of _ "wgoto w ?c (s\<lparr>rheap := h'\<rparr>)"]) (simp add: free_old_def wgoto_def)
qed


section \<open>All interleavings\<close>

definition elements :: "addr \<Rightarrow> heap \<Rightarrow> item set" where
  "elements sp h = User ` store_users sp h \<union> Program ` store_programs sp h"

fun action_ok :: "rcu_action \<Rightarrow> bool" where
  "action_ok (ReadLock r x) = item_ok x"
| "action_ok (MutexLock w oper) = item_ok (op_key oper)"
| "action_ok _ = True"

inductive rcu_reaches :: "addr \<Rightarrow> shared \<Rightarrow> shared \<Rightarrow> bool" for sp s0 where
  rcu_start: "rcu_reaches sp s0 s0"
| rcu_next: "rcu_reaches sp s0 s \<Longrightarrow> action_ok a \<Longrightarrow> rcu_step sp a s = Stepped s' \<Longrightarrow> rcu_reaches sp s0 s'"

definition all_idle :: "heap \<Rightarrow> nat \<Rightarrow> nat \<Rightarrow> shared" where
  "all_idle h nr nw = \<lparr>rheap = h, write_lock = False, readers = replicate nr (RIdle None), writers = replicate nw (WIdle None)\<rparr>"

text \<open>The effect of a step on the set: only the assignment of the pointer changes it.\<close>

fun member_effect :: "item member_op \<Rightarrow> item set \<Rightarrow> item set" where
  "member_effect (Add x) S = insert x S"
| "member_effect (Remove x) S = S - {x}"

fun step_effect :: "rcu_action \<Rightarrow> shared \<Rightarrow> item set \<Rightarrow> item set" where
  "step_effect (AssignPointer w) s S = (case wpc s w of Some (WPrepared oper old new) \<Rightarrow> member_effect oper S | _ \<Rightarrow> S)"
| "step_effect _ s S = S"

lemma object_inj: "object x = object y \<longleftrightarrow> x = y"
  by (cases x; cases y) auto

lemma elements_iff:
  assumes "rcu_inv sp R mm u p s"
  shows "x \<in> elements sp (rheap s) \<longleftrightarrow> object x \<in> items (rheap s) (mm (pick (kind_of x) (u, p)))"
proof -
  have "map_at (kkey k) (kok k) (rheap s) (pick k (u, p)) (mm (pick k (u, p)))" for k
    by (rule maps_okD [OF rcu_invD(4) [OF assms] pick_in_maps])
  then have "mem (rheap s) (pick k (u, p)) = Some (KMap (mm (pick k (u, p))))" for k by (simp add: map_at_def)
  from this [of Users] this [of Programs] show ?thesis
    using rcu_invD(2) [OF assms] by (cases x) (auto simp: elements_def store_users_def store_programs_def)
qed

lemma elements_same:
  assumes "rcu_inv sp R mm u p s" and "rcu_inv sp R mm' u' p' s'"
    and "\<And>k. items (rheap s') (mm' (pick k (u', p'))) = items (rheap s) (mm (pick k (u, p)))"
  shows "elements sp (rheap s') = elements sp (rheap s)"
  using elements_iff [OF assms(1)] elements_iff [OF assms(2)] assms(3) by blast

lemma reader_keeps_heap: "rheap (rgoto r c s) = rheap s" "rheap (read_unlock r x ret g s) = rheap s" "rheap (wgoto w d s) = rheap s"
  by (simp_all add: rgoto_def read_unlock_def wgoto_def)

lemma rcu_step_inv:
  assumes inv: "rcu_inv sp R mm u p s" and ok: "action_ok a"
  shows "rcu_step sp a s = Stuck \<or> (\<exists>s' mm' u' p'. rcu_step sp a s = Stepped s' \<and> rcu_inv sp R mm' u' p' s' \<and>
    elements sp (rheap s') = step_effect a s (elements sp (rheap s)))"
proof (cases a)
  case (ReadLock r x)
  then show ?thesis using ok rgoto_inv [OF inv, of r "RLocked x"]
    by (auto split: option.split reader.split simp: reader_keeps_heap)
next
  case (Dereference r)
  have "rheap s' = rheap s" if "dereference sp r x s = Some s'" for x s'
    using that by (auto simp: dereference_def reader_keeps_heap split: bind_splits)
  then show ?thesis using dereference_inv [OF inv] Dereference
    by (fastforce split: option.split reader.split simp: stepped_def)
next
  case (ProbeFirst r)
  have "rheap s' = rheap s" if "probe_first r x m g s = Some s'" for x m g s'
    using that by (auto simp: probe_first_def reader_keeps_heap split: bind_splits)
  then show ?thesis using probe_first_inv [OF inv] ProbeFirst
    by (fastforce split: option.split reader.split simp: stepped_def)
next
  case (ProbeSecond r)
  have "rheap s' = rheap s" if "probe_second r x m g s = Some s'" for x m g s'
    using that by (auto simp: probe_second_def reader_keeps_heap split: bind_splits)
  then show ?thesis using probe_second_inv [OF inv] ProbeSecond
    by (fastforce split: option.split reader.split simp: stepped_def)
next
  case (ReadUnlock r)
  then show ?thesis using read_unlock_inv [OF inv]
    by (fastforce split: option.split reader.split simp: reader_keeps_heap)
next
  case (MutexLock w oper)
  have "rcu_inv sp R mm u p (wgoto w (WLocked oper) (s\<lparr>write_lock := True\<rparr>))" if "wpc s w = Some (WIdle v)" "\<not> write_lock s" for v
    using that ok MutexLock lock_ok_acquire [OF rcu_invD(7) [OF inv], of w "WLocked oper"]
    by (intro writer_move [OF inv]) (auto simp: wpc_Some)
  then have "rcu_step sp a s = Stuck \<or> rcu_step sp a s = Stepped (wgoto w (WLocked oper) (s\<lparr>write_lock := True\<rparr>)) \<and>
      rcu_inv sp R mm u p (wgoto w (WLocked oper) (s\<lparr>write_lock := True\<rparr>))"
    using MutexLock by (auto split: option.split writer.split)
  moreover have "elements sp (rheap (wgoto w (WLocked oper) (s\<lparr>write_lock := True\<rparr>))) = step_effect a s (elements sp (rheap s))"
    using MutexLock by (simp add: reader_keeps_heap)
  ultimately show ?thesis by blast
next
  case (Prepare w)
  have "\<exists>s' mm'. prepare sp w oper s = Some s' \<and> rcu_inv sp R mm' u p s' \<and> elements sp (rheap s') = elements sp (rheap s)"
    if "wpc s w = Some (WLocked oper)" for oper
    using prepare_inv [OF inv that] elements_same [OF inv] by blast
  then show ?thesis using Prepare
    by (fastforce split: option.split writer.split simp: stepped_def)
next
  case (AssignPointer w)
  have "\<exists>s' u' p'. assign_pointer sp w oper old new s = Some s' \<and> rcu_inv sp R mm u' p' s' \<and>
      elements sp (rheap s') = member_effect oper (elements sp (rheap s))" if pc: "wpc s w = Some (WPrepared oper old new)" for oper old new
  proof -
    obtain s' u' p' where s': "assign_pointer sp w oper old new s = Some s'" "rcu_inv sp R mm u' p' s'"
      "\<And>k. items (rheap s') (mm (pick k (u', p'))) =
        (if k = kind_of (op_key oper) then effect oper (items (rheap s) (mm (pick k (u, p)))) else items (rheap s) (mm (pick k (u, p))))"
      using assign_pointer_inv [OF inv pc] by blast
    have "x \<in> elements sp (rheap s') \<longleftrightarrow> x \<in> member_effect oper (elements sp (rheap s))" for x
      unfolding elements_iff [OF s'(2)] s'(3) using elements_iff [OF inv] by (cases oper) (auto simp: object_inj)
    then show ?thesis using s'(1,2) by blast
  qed
  then show ?thesis using AssignPointer
    by (fastforce split: option.split writer.split simp: stepped_def)
next
  case (MutexUnlock w)
  have "rcu_inv sp R mm u p (wgoto w (WIdle (Some r)) (s\<lparr>write_lock := False\<rparr>))" if "wpc s w = Some (WFailed r)" for r
    using that lock_ok_release [OF rcu_invD(7) [OF inv], of w "WIdle (Some r)"]
    by (intro writer_move [OF inv]) (auto simp: wpc_Some)
  moreover have "rcu_inv sp R mm u p (wgoto w (WUnlocked k old) (s\<lparr>write_lock := False\<rparr>))" if "wpc s w = Some (WPublished k old)" for k old
    using that lock_ok_release [OF rcu_invD(7) [OF inv], of w "WUnlocked k old"]
    by (intro writer_move [OF inv]) (auto simp: wpc_Some)
  ultimately show ?thesis using MutexUnlock
    by (fastforce split: option.split writer.split simp: reader_keeps_heap)
next
  case (StartSync w)
  have "rcu_inv sp R mm u p (wgoto w (WSync k old (readers_inside s)) (s\<lparr>write_lock := write_lock s\<rparr>))" if "wpc s w = Some (WUnlocked k old)" for k old
    using that lock_ok_move [OF rcu_invD(7) [OF inv], of w "WSync k old (readers_inside s)" "rheap s"]
    by (intro writer_move [OF inv]) (auto simp: wpc_Some readers_inside_def)
  then show ?thesis using StartSync
    by (fastforce split: option.split writer.split simp: reader_keeps_heap)
next
  case (EndSync w)
  have "\<exists>s'. free_old w old s = Some s' \<and> rcu_inv sp R mm u p s' \<and> elements sp (rheap s') = elements sp (rheap s)"
    if "wpc s w = Some (WSync k old {})" for k old
    using free_old_inv [OF inv that] elements_same [OF inv] by blast
  then show ?thesis using EndSync
    by (fastforce split: option.split writer.split simp: stepped_def)
qed


lemma all_idle_inv:
  assumes "store_inv sp R h"
  shows "\<exists>mm u p. rcu_inv sp R mm u p (all_idle h nr nw)"
proof -
  obtain u mu p mp where lay: "layout user_key user_ok program_key program_ok sp (KStore u p) R h u mu p mp"
    using assms by (auto simp: store_inv_def)
  have up: "u \<noteq> p" using lay by (auto simp: layout_def footprint_def)
  define mm where "mm = (\<lambda>a. if a = u then mu else mp)"
  have "all_maps u p (replicate nw (WIdle None)) = [(Users, u), (Programs, p)]"
    by (induction nw) (auto simp: all_maps_def)
  moreover have "maps_ok sp R h mm [(Users, u), (Programs, p)]"
    using lay up unfolding maps_ok_def layout_def by (auto simp: mm_def)
  moreover have "lock_ok (all_idle h nr nw)" by (auto simp: lock_ok_def all_idle_def)
  ultimately have "rcu_inv sp R mm u p (all_idle h nr nw)"
    using lay by (auto simp: rcu_inv_def all_idle_def layout_def)
  then show ?thesis by blast
qed

lemma quiescent_store_inv:
  assumes inv: "rcu_inv sp R mm u p s" and "\<And>c. c \<in> set (writers s) \<Longrightarrow> owned c = []"
  shows "store_inv sp R (rheap s)"
proof -
  have maps: "all_maps u p (writers s) = [(Users, u), (Programs, p)]"
    using assms(2) by (simp add: all_maps_def)
  have "layout user_key user_ok program_key program_ok sp (KStore u p) R (rheap s) u (mm u) p (mm p)"
    using rcu_invD(1,2,4) [OF inv] unfolding maps maps_ok_def layout_def by auto
  then show ?thesis by (auto simp: store_inv_def)
qed

lemma rcu_reaches_inv:
  assumes "rcu_reaches sp s0 s" and "\<exists>mm u p. rcu_inv sp R mm u p s0"
  shows "\<exists>mm u p. rcu_inv sp R mm u p s"
  using assms
proof (induction rule: rcu_reaches.induct)
  case (rcu_next s a s')
  then obtain mm u p where "rcu_inv sp R mm u p s" by blast
  from rcu_step_inv [OF this rcu_next.hyps(2)] rcu_next.hyps(3) show ?case by auto
qed

lemma all_idle_reaches_inv:
  assumes "store_inv sp R h" and "rcu_reaches sp (all_idle h nr nw) s"
  obtains mm u p where "rcu_inv sp R mm u p s"
  using rcu_reaches_inv [OF assms(2) all_idle_inv [OF assms(1)]] by blast

section \<open>Grace periods end\<close>

text \<open>A reader inside its critical section comes out in at most four steps of its own.\<close>

definition comes_out :: "addr \<Rightarrow> nat \<Rightarrow> nat \<Rightarrow> shared \<Rightarrow> bool" where
  "comes_out sp n r s \<longleftrightarrow> (\<exists>as v. length as \<le> n \<and> (\<forall>a \<in> set as. a \<in> {Dereference r, ProbeFirst r, ProbeSecond r, ReadUnlock r}) \<and>
     rcu_run sp as s = Stepped (s\<lparr>readers := (readers s)[r := RIdle v], writers := map (grace r) (writers s)\<rparr>))"

lemma comes_out_step:
  assumes "rcu_step sp a s = Stepped (rgoto r c s)" and "comes_out sp n r (rgoto r c s)" and "a \<in> {Dereference r, ProbeFirst r, ProbeSecond r}"
  shows "comes_out sp (Suc n) r s"
proof -
  obtain as v where "length as \<le> n" "\<forall>a \<in> set as. a \<in> {Dereference r, ProbeFirst r, ProbeSecond r, ReadUnlock r}"
    "rcu_run sp as (rgoto r c s) = Stepped ((rgoto r c s)\<lparr>readers := (readers (rgoto r c s))[r := RIdle v], writers := map (grace r) (writers (rgoto r c s))\<rparr>)"
    using assms(2) by (auto simp: comes_out_def)
  then show ?thesis
    using assms(1,3) unfolding comes_out_def by (intro exI [of _ "a # as"] exI [of _ v]) (auto simp: rgoto_def)
qed

lemma comes_out_mono: "comes_out sp n r s \<Longrightarrow> n \<le> m \<Longrightarrow> comes_out sp m r s"
  unfolding comes_out_def by (elim exE conjE, intro exI conjI) auto

lemma got_comes_out:
  assumes "r < length (readers s)" and "readers s ! r = RGot x ret g"
  shows "comes_out sp 1 r s"
  unfolding comes_out_def
  by (intro exI [of _ "[ReadUnlock r]"] exI [of _ "Some (x, ret, g)"]) (simp add: assms rpc_def read_unlock_def rgoto_def)

lemma second_comes_out:
  assumes inv: "rcu_inv sp R mm u p s" and pc: "rpc s r = Some (RSecond x a g)"
  shows "comes_out sp 2 r s"
proof -
  obtain s' where s': "probe_second r x a g s = Some s'" using probe_second_inv [OF assms] by blast
  then obtain ret where "s' = rgoto r (RGot x ret g) s" by (auto simp: probe_second_def bind_eq_Some_conv)
  then have "rcu_step sp (ProbeSecond r) s = Stepped (rgoto r (RGot x ret g) s)" using s' pc by (simp add: stepped_def)
  moreover have "comes_out sp 1 r (rgoto r (RGot x ret g) s)" using pc by (intro got_comes_out) (auto simp: rgoto_def rpc_Some)
  ultimately show ?thesis using comes_out_step [of sp "ProbeSecond r"] by (simp add: numeral_2_eq_2)
qed

lemma map_comes_out:
  assumes inv: "rcu_inv sp R mm u p s" and pc: "rpc s r = Some (RMap x a g)"
  shows "comes_out sp 3 r s"
proof -
  obtain s' where s': "probe_first r x a g s = Some s'" "rcu_inv sp R mm u p s'" using probe_first_inv [OF assms] by blast
  then obtain c where c: "s' = rgoto r c s" "c = RGot x 0 g \<or> c = RSecond x a g"
    by (auto simp: probe_first_def bind_eq_Some_conv split: if_splits)
  have "rpc s' r = Some c" using pc c(1) by (simp add: rgoto_def rpc_Some)
  then have "comes_out sp 2 r (rgoto r c s)"
    using c second_comes_out [OF s'(2)] got_comes_out [of r s'] comes_out_mono [of sp 1 r s' 2] by (auto simp: rpc_Some)
  moreover have "rcu_step sp (ProbeFirst r) s = Stepped (rgoto r c s)" using s'(1) c(1) pc by (simp add: stepped_def)
  ultimately show ?thesis using comes_out_step [of sp "ProbeFirst r"] by (simp add: numeral_3_eq_3 numeral_2_eq_2)
qed

lemma reader_comes_out:
  assumes inv: "rcu_inv sp R mm u p s" and r: "r < length (readers s)" and "in_section (readers s ! r)"
  shows "comes_out sp 4 r s"
proof (cases "readers s ! r")
  case (RLocked x)
  then have pc: "rpc s r = Some (RLocked x)" using r by (simp add: rpc_Some)
  obtain s' where s': "dereference sp r x s = Some s'" "rcu_inv sp R mm u p s'" using dereference_inv [OF inv pc] by blast
  then obtain a g where c: "s' = rgoto r (RMap x a g) s" by (auto simp: dereference_def bind_eq_Some_conv)
  then have "rpc s' r = Some (RMap x a g)" using r by (simp add: rgoto_def rpc_Some)
  then have "comes_out sp 3 r (rgoto r (RMap x a g) s)" using map_comes_out [OF s'(2)] c by simp
  moreover have "rcu_step sp (Dereference r) s = Stepped (rgoto r (RMap x a g) s)" using s'(1) c pc by (simp add: stepped_def)
  ultimately show ?thesis using comes_out_step [of sp "Dereference r" s r "RMap x a g" 3] by simp
next
  case (RMap x a g)
  then show ?thesis using map_comes_out [OF inv, of r] comes_out_mono [of sp 3 r s 4] r by (simp add: rpc_Some)
next
  case (RSecond x a g)
  then show ?thesis using second_comes_out [OF inv, of r] comes_out_mono [of sp 2 r s 4] r by (simp add: rpc_Some)
next
  case (RGot x ret g)
  then show ?thesis using got_comes_out [OF r RGot] comes_out_mono [of sp 1 r s 4] by simp
qed (use assms(3) in simp)

lemma rcu_run_append: "rcu_run sp (as @ bs) s = (case rcu_run sp as s of Stepped s' \<Rightarrow> rcu_run sp bs s' | other \<Rightarrow> other)"
  by (induction as arbitrary: s) (auto split: rcu_outcome.split)

lemma rcu_run_inv:
  assumes "rcu_inv sp R mm u p s" and "\<forall>a \<in> set as. action_ok a" and "rcu_run sp as s = Stepped s'"
  shows "\<exists>mm u p. rcu_inv sp R mm u p s'"
  using assms
proof (induction as arbitrary: s mm u p)
  case (Cons a as)
  then show ?case using rcu_step_inv [OF Cons.prems(1), of a] by (auto split: rcu_outcome.splits)
qed auto

text \<open>Each waiting set holds readers that are still inside.\<close>

definition sync_inv :: "shared \<Rightarrow> bool" where
  "sync_inv s \<longleftrightarrow> (\<forall>k old W. WSync k old W \<in> set (writers s) \<longrightarrow> W \<subseteq> readers_inside s)"

lemma in_readers_inside: "r \<in> readers_inside s \<longleftrightarrow> r < length (readers s) \<and> in_section (readers s ! r)"
  by (auto simp: readers_inside_def)

lemma grace_ends:
  assumes "rcu_inv sp R mm u p s" and "wpc s w = Some (WSync k old W)" and "W \<subseteq> readers_inside s"
  shows "\<exists>as s'. length as \<le> 4 * card W \<and> (\<forall>a \<in> set as. \<exists>r \<in> W. a \<in> {Dereference r, ProbeFirst r, ProbeSecond r, ReadUnlock r}) \<and>
    rcu_run sp as s = Stepped s' \<and> wpc s' w = Some (WSync k old {}) \<and> (\<exists>mm u p. rcu_inv sp R mm u p s')"
proof -
  have "finite W" using assms(3) by (rule finite_subset) (simp add: readers_inside_def)
  then show ?thesis
    using assms
  proof (induction W arbitrary: s mm u p rule: finite_induct)
    case empty
    then show ?case by (intro exI [of _ "[]"] exI [of _ s]) auto
  next
    case (insert r W)
    then obtain as v where as: "length as \<le> 4" "\<forall>a \<in> set as. a \<in> {Dereference r, ProbeFirst r, ProbeSecond r, ReadUnlock r}"
      "rcu_run sp as s = Stepped (s\<lparr>readers := (readers s)[r := RIdle v], writers := map (grace r) (writers s)\<rparr>)"
      using reader_comes_out [OF insert.prems(1), of r] by (auto simp: comes_out_def in_readers_inside)
    let ?s = "s\<lparr>readers := (readers s)[r := RIdle v], writers := map (grace r) (writers s)\<rparr>"
    obtain mm' u' p' where inv: "rcu_inv sp R mm' u' p' ?s" using rcu_run_inv [OF insert.prems(1) _ as(3)] as(2) by fastforce
    have pc: "wpc ?s w = Some (WSync k old W)" using insert.prems(2) insert.hyps(2) by (auto simp: wpc_Some)
    have "W \<subseteq> readers_inside ?s" using insert.prems(3) insert.hyps(2) by (auto simp: in_readers_inside nth_list_update)
    from insert.IH [OF inv pc this] obtain bs s' where bs: "length bs \<le> 4 * card W"
      "\<forall>a \<in> set bs. \<exists>r \<in> W. a \<in> {Dereference r, ProbeFirst r, ProbeSecond r, ReadUnlock r}"
      "rcu_run sp bs ?s = Stepped s'" "wpc s' w = Some (WSync k old {})" "\<exists>mm u p. rcu_inv sp R mm u p s'" by blast
    have "rcu_run sp (as @ bs) s = Stepped s'" using as(3) bs(3) by (simp add: rcu_run_append)
    moreover have "length (as @ bs) \<le> 4 * card (insert r W)" using as(1) bs(1) insert.hyps by simp
    moreover have "\<forall>a \<in> set (as @ bs). \<exists>r' \<in> insert r W. a \<in> {Dereference r', ProbeFirst r', ProbeSecond r', ReadUnlock r'}"
      using as(2) bs(2) by auto
    ultimately show ?case using bs(4,5) by blast
  qed
qed

lemma sync_rgoto:
  assumes "sync_inv s" and "in_section (readers s ! r) \<Longrightarrow> in_section c"
  shows "sync_inv (rgoto r c s)"
proof -
  have "readers_inside s \<subseteq> readers_inside (rgoto r c s)"
  proof
    fix q assume "q \<in> readers_inside s"
    then show "q \<in> readers_inside (rgoto r c s)" using assms(2) by (cases "q = r") (simp_all add: in_readers_inside rgoto_def)
  qed
  then show ?thesis using assms(1) unfolding sync_inv_def by (simp add: rgoto_def) blast
qed

lemma sync_unlock:
  assumes "sync_inv s"
  shows "sync_inv (read_unlock r x ret g s)"
  unfolding sync_inv_def
proof (intro allI impI subsetI)
  fix k old W q assume "WSync k old W \<in> set (writers (read_unlock r x ret g s))" and q: "q \<in> W"
  then obtain c where c: "c \<in> set (writers s)" "grace r c = WSync k old W" by (auto simp: read_unlock_def rgoto_def)
  obtain V where "c = WSync k old V" "W = V - {r}" using c(2) by (cases c) simp_all
  then have "q \<in> readers_inside s" "q \<noteq> r" using assms c(1) q unfolding sync_inv_def by blast+
  then show "q \<in> readers_inside (read_unlock r x ret g s)"
    by (auto simp: in_readers_inside read_unlock_def rgoto_def nth_list_update)
qed

lemma sync_wgoto:
  assumes "sync_inv s" and "\<And>k old W. c = WSync k old W \<Longrightarrow> W \<subseteq> readers_inside s" and "readers s' = readers s" and "writers s' = writers s"
  shows "sync_inv (wgoto w c s')"
proof -
  have "set ((writers s)[w := c]) \<subseteq> insert c (set (writers s))" by (rule set_update_subset_insert)
  moreover have "readers_inside (wgoto w c s') = readers_inside s" by (simp add: readers_inside_def wgoto_def assms(3))
  ultimately show ?thesis using assms(1,2,4) unfolding sync_inv_def by (simp add: wgoto_def) blast
qed

lemma sync_inv_step: "sync_inv s \<Longrightarrow> rcu_step sp a s = Stepped s' \<Longrightarrow> sync_inv s'"
  by (cases a)
    (auto simp: stepped_def dereference_def probe_first_def probe_second_def prepare_def assign_pointer_def free_old_def
       bind_eq_Some_conv Let_def rpc_Some wpc_Some
      split: option.splits reader.splits writer.splits if_splits intro!: sync_rgoto sync_unlock sync_wgoto)

section \<open>Properties\<close>

text \<open>C7: The store is safe under concurrency. Whatever the interleaving of any number of lookups and updates, no step touches freed
  memory, and the map that a lookup is reading is live. Whenever no update is under way, the store is well formed and nothing has been leaked.\<close>

theorem rcu_no_use_after_free:
  assumes "store_inv sp R h" and "rcu_reaches sp (all_idle h nr nw) s"
  shows "(\<forall>a. action_ok a \<longrightarrow> rcu_step sp a s \<noteq> Faulted) \<and>
    (\<forall>r x a g. rpc s r \<in> {Some (RMap x a g), Some (RSecond x a g)} \<longrightarrow> load_map a (rheap s) \<noteq> None) \<and>
    ((\<forall>c \<in> set (writers s). \<exists>v. c = WIdle v) \<longrightarrow> store_inv sp R (rheap s))"
proof -
  obtain mm u p where inv: "rcu_inv sp R mm u p s" by (rule all_idle_reaches_inv [OF assms])
  have "rcu_step sp a s \<noteq> Faulted" if "action_ok a" for a
    using rcu_step_inv [OF inv that] by auto
  moreover have "load_map a (rheap s) \<noteq> None" if "rpc s r \<in> {Some (RMap x a g), Some (RSecond x a g)}" for r x a g
  proof -
    have "protected_map u p (writers s) r (kind_of x, a)"
      using rcu_invD(5) [OF inv, of r] that by (auto simp: rpc_Some)
    then show ?thesis using kind.load_map_at [OF protected_map_at [OF inv]] by simp
  qed
  moreover have "store_inv sp R (rheap s)" if "\<forall>c \<in> set (writers s). \<exists>v. c = WIdle v"
    using that by (intro quiescent_store_inv [OF inv]) auto
  ultimately show ?thesis by blast
qed

theorem rcu_no_use_after_free_witness:
  "rcu_step 0x1000 (ReadLock 0 (User 7)) (all_idle booted_heap 2 2) \<noteq> Faulted \<and>
   rcu_step 0x1000 (MutexLock 1 (Add (User 7))) (all_idle booted_heap 2 2) \<noteq> Faulted"
  by (intro conjI rcu_no_use_after_free [OF booted_heap_inv rcu_start, THEN conjunct1, rule_format]) (simp_all add: item_ok_def)

text \<open>C8: Lookups are linearizable. At the moment a lookup reads the map pointer, the ghost records whether the item
  was in the store; every lookup that has returned has returned exactly that answer, whatever updates ran in between.\<close>

theorem rcu_lookup_linearizable:
  assumes "store_inv sp R h" and "rcu_reaches sp (all_idle h nr nw) s"
  shows "(rpc s r = Some (RLocked x) \<longrightarrow> (\<exists>s' a. rcu_step sp (Dereference r) s = Stepped s' \<and>
       rpc s' r = Some (RMap x a (Some (if x \<in> elements sp (rheap s) then 0 else - 1))))) \<and>
    (rpc s r = Some (RIdle (Some (x, ret, g))) \<longrightarrow> g = Some ret)"
proof -
  obtain mm u p where inv: "rcu_inv sp R mm u p s" by (rule all_idle_reaches_inv [OF assms])
  have "\<exists>s' a. rcu_step sp (Dereference r) s = Stepped s' \<and> rpc s' r = Some (RMap x a (Some (if x \<in> elements sp (rheap s) then 0 else - 1)))"
    if pc: "rpc s r = Some (RLocked x)"
  proof -
    let ?a = "pick (kind_of x) (u, p)"
    have "item_ok x" using rcu_invD(5) [OF inv, of r] pc by (simp add: rpc_Some)
    then have "answer (rheap s) x ?a = Some (if x \<in> elements sp (rheap s) then 0 else - 1)"
      using answer_eq [OF maps_okD [OF rcu_invD(4) [OF inv] pick_in_maps]] elements_iff [OF inv] by simp
    then show ?thesis
      using pc by (simp add: stepped_def dereference_def rcu_invD(3) [OF inv] find_item_contains answer_def rgoto_def rpc_def split: if_splits)
  qed
  moreover have "g = Some ret" if "rpc s r = Some (RIdle (Some (x, ret, g)))"
    using rcu_invD(5) [OF inv, of r] that by (simp add: rpc_Some)
  ultimately show ?thesis by blast
qed

theorem rcu_lookup_linearizable_witness:
  "\<exists>s s' a. rcu_reaches 0x1000 (all_idle booted_heap 1 1) s \<and> rcu_step 0x1000 (Dereference 0) s = Stepped s' \<and>
     rpc s' 0 = Some (RMap (User 7) a (Some (- 1)))"
proof -
  let ?init = "all_idle booted_heap 1 1" and ?s = "rgoto 0 (RLocked (User 7)) (all_idle booted_heap 1 1)"
  have st: "rcu_step 0x1000 (ReadLock 0 (User 7)) ?init = Stepped ?s" by (simp add: rpc_def all_idle_def)
  have reach: "rcu_reaches 0x1000 ?init ?s" by (rule rcu_next [OF rcu_start _ st]) (simp add: item_ok_def)
  have pc: "rpc ?s 0 = Some (RLocked (User 7))" by (simp add: rpc_def rgoto_def all_idle_def)
  have "User 7 \<notin> elements 0x1000 (rheap ?s)" by (auto simp: elements_def rgoto_def all_idle_def booted_heap_contents)
  then show ?thesis
    using rcu_lookup_linearizable [OF booted_heap_inv reach, of 0 "User 7"] reach pc by auto
qed


text \<open>C9: Updates are atomic. Under every interleaving the set of registered users and programs changes only when an update
  assigns the pointer, and then exactly by that update, which was applicable at that moment (an added item was absent, a removed one
  present); and an update that is refused is refused with a code that is true of the set at that moment.\<close>

theorem rcu_refines_atomic_set:
  assumes "store_inv sp R h" and "rcu_reaches sp (all_idle h nr nw) s" and "action_ok a" and "rcu_step sp a s = Stepped s'"
  shows "elements sp (rheap s') = step_effect a s (elements sp (rheap s)) \<and>
    (\<forall>w oper old new. a = AssignPointer w \<and> wpc s w = Some (WPrepared oper old new) \<longrightarrow>
       (case oper of Add x \<Rightarrow> x \<notin> elements sp (rheap s) | Remove x \<Rightarrow> x \<in> elements sp (rheap s))) \<and>
    (\<forall>w oper r. a = Prepare w \<and> wpc s w = Some (WLocked oper) \<and> wpc s' w = Some (WFailed r) \<longrightarrow>
       (case oper of
          Add x \<Rightarrow> (r = - EEXIST \<longleftrightarrow> x \<in> elements sp (rheap s)) \<and> r \<in> {- EEXIST, - ENOMEM, - ENOSPC}
        | Remove x \<Rightarrow> (r = - EINVAL \<longleftrightarrow> x \<notin> elements sp (rheap s)) \<and> r \<in> {- EINVAL, - ENOMEM}))"
proof -
  obtain mm u p where inv: "rcu_inv sp R mm u p s" by (rule all_idle_reaches_inv [OF assms(1,2)])
  note el = elements_iff [OF inv]
  have "elements sp (rheap s') = step_effect a s (elements sp (rheap s))"
    using rcu_step_inv [OF inv assms(3)] assms(4) by auto
  moreover have "case oper of Add x \<Rightarrow> x \<notin> elements sp (rheap s) | Remove x \<Rightarrow> x \<in> elements sp (rheap s)"
    if "wpc s w = Some (WPrepared oper old new)" for w oper old new
    using assign_pointer_inv [OF inv that] by (cases oper) (auto simp: el)
  moreover have "case oper of
      Add x \<Rightarrow> (r = - EEXIST \<longleftrightarrow> x \<in> elements sp (rheap s)) \<and> r \<in> {- EEXIST, - ENOMEM, - ENOSPC}
    | Remove x \<Rightarrow> (r = - EINVAL \<longleftrightarrow> x \<notin> elements sp (rheap s)) \<and> r \<in> {- EINVAL, - ENOMEM}"
    if "a = Prepare w" "wpc s w = Some (WLocked oper)" "wpc s' w = Some (WFailed r)" for w oper r
  proof -
    have "prepare sp w oper s = Some s'" using assms(4) that(1,2) by (auto simp: stepped_def split: option.splits)
    then have "refusal oper (items (rheap s) (mm (pick (kind_of (op_key oper)) (u, p)))) r"
      using prepare_inv [OF inv that(2)] that(3) by auto
    then show ?thesis using el by (cases oper) auto
  qed
  ultimately show ?thesis by blast
qed

theorem rcu_refines_atomic_set_witness:
  "elements 0x1000 (rheap (wgoto 0 (WLocked (Add (User 7))) ((all_idle booted_heap 1 1)\<lparr>write_lock := True\<rparr>))) = elements 0x1000 booted_heap"
proof -
  have st: "rcu_step 0x1000 (MutexLock 0 (Add (User 7))) (all_idle booted_heap 1 1) =
      Stepped (wgoto 0 (WLocked (Add (User 7))) ((all_idle booted_heap 1 1)\<lparr>write_lock := True\<rparr>))"
    by (simp add: wpc_def all_idle_def)
  have ok: "action_ok (MutexLock 0 (Add (User 7)))" by (simp add: item_ok_def)
  show ?thesis using rcu_refines_atomic_set [OF booted_heap_inv rcu_start ok st] by (simp add: all_idle_def)
qed

text \<open>The operations of the theory \<open>Store\<close>, and the steps of an update in their order.\<close>

fun atomic_op :: "addr \<Rightarrow> item member_op \<Rightarrow> heap \<Rightarrow> (int \<times> heap) option" where
  "atomic_op sp (Add (User v)) h = add_user_to_store sp v h"
| "atomic_op sp (Remove (User v)) h = remove_user_from_store sp v h"
| "atomic_op sp (Add (Program n)) h = add_program_to_store sp n h"
| "atomic_op sp (Remove (Program n)) h = remove_program_from_store sp n h"

definition update_steps :: "nat \<Rightarrow> item member_op \<Rightarrow> int \<Rightarrow> rcu_action list" where
  "update_steps w oper r =
     (if r = 0 then [MutexLock w oper, Prepare w, AssignPointer w, MutexUnlock w, StartSync w, EndSync w]
      else [MutexLock w oper, Prepare w, MutexUnlock w])"

lemma atomic_op_steps:
  "atomic_op sp oper h = do {
     (u, p) \<leftarrow> load_store sp h;
     let old = pick (kind_of (op_key oper)) (u, p);
     (r, new, h) \<leftarrow> prepare_op oper old h;
     if r \<noteq> 0 then Some (r, h)
     else do {
       h \<leftarrow> store_obj sp (replace (kind_of (op_key oper)) new (u, p)) h;
       h \<leftarrow> destroy_map old h;
       Some (0, h) } }"
  by (cases "(sp, oper, h)" rule: atomic_op.cases)
    (simp_all add: add_user_to_store_def remove_user_from_store_def add_program_to_store_def remove_program_from_store_def
       Let_def case_prod_unfold split: bind_split prod.split)

lemma atomic_op_total:
  assumes "store_inv sp R h" and "item_ok (op_key oper)"
  shows "\<exists>r h'. atomic_op sp oper h = Some (r, h')"
proof (cases "(sp, oper, h)" rule: atomic_op.cases)
  case (1 sp v h)
  then show ?thesis using user_members.add_law [of sp R h v] assms by auto
next
  case (2 sp v h)
  then show ?thesis using user_members.remove_law [of sp R h v] assms by auto
next
  case (3 sp n h)
  then show ?thesis using program_members.add_law [of sp R h n] assms by (auto simp: item_ok_def)
next
  case (4 sp n h)
  then show ?thesis using program_members.remove_law [of sp R h n] assms by (auto simp: item_ok_def)
qed

lemma prepare_keeps_store:
  assumes "store_inv sp R h" and "item_ok (op_key oper)" and "load_store sp h = Some (u, p)"
    and prep: "prepare_op oper (pick (kind_of (op_key oper)) (u, p)) h = Some (0, new, h1)"
  shows "load_store sp h1 = Some (u, p)"
proof -
  let ?k = "kind_of (op_key oper)"
  obtain u' p' mu mp where l': "layout user_key user_ok program_key program_ok sp (KStore u' p') R h u' mu p' mp"
    using assms(1) by (auto simp: store_inv_def)
  then have "u' = u" "p' = p" using layout_load [OF l'] assms(3) by simp_all
  then have l: "layout user_key user_ok program_key program_ok sp (KStore u p) R h u mu p mp" using l' by simp
  have sp: "mem h sp = Some (KStore u p)" and wf: "heap_wf h" using l by (simp_all add: layout_def)
  have at: "map_at (kkey ?k) (kok ?k) h (pick ?k (u, p)) (case ?k of Users \<Rightarrow> mu | Programs \<Rightarrow> mp)"
    using l by (cases ?k) (simp_all add: layout_def)
  from at wf assms(2) have "mem h1 sp = mem h sp"
  proof (cases rule: prepare_op_cases)
    case (ready q h' m')
    then show ?thesis using prep kind.fresh_old(2) [OF wf ready(2), of sp] sp by auto
  qed (use prep in simp)
  then show ?thesis using sp by (simp add: load_store_def load_def)
qed





text \<open>C12: Grace periods end. Under every interleaving, an update that waits in \<open>synchronize_rcu\<close> waits only for readers that are still
  inside, each of which comes out in at most four steps of its own; after them the old map is freed and the update returns 0.\<close>

theorem rcu_updates_finish:
  assumes "store_inv sp R h" and "rcu_reaches sp (all_idle h nr nw) s" and "wpc s w = Some (WSync k old W)"
  shows "\<exists>as s' s''. length as \<le> 4 * card W \<and>
    (\<forall>a \<in> set as. \<exists>r \<in> W. a \<in> {Dereference r, ProbeFirst r, ProbeSecond r, ReadUnlock r}) \<and>
    rcu_run sp as s = Stepped s' \<and> rcu_step sp (EndSync w) s' = Stepped s'' \<and> wpc s'' w = Some (WIdle (Some 0))"
proof -
  obtain mm u p where inv: "rcu_inv sp R mm u p s" by (rule all_idle_reaches_inv [OF assms(1,2)])
  have "sync_inv s"
    using assms(2)
  proof (induction rule: rcu_reaches.induct)
    case rcu_start
    show ?case by (auto simp: sync_inv_def all_idle_def)
  qed (rule sync_inv_step)
  then have "W \<subseteq> readers_inside s" using assms(3) nth_mem unfolding sync_inv_def wpc_Some by metis
  from grace_ends [OF inv assms(3) this] obtain as s' mm' u' p' where as: "length as \<le> 4 * card W"
    "\<forall>a \<in> set as. \<exists>r \<in> W. a \<in> {Dereference r, ProbeFirst r, ProbeSecond r, ReadUnlock r}" "rcu_run sp as s = Stepped s'"
    "wpc s' w = Some (WSync k old {})" "rcu_inv sp R mm' u' p' s'" by blast
  obtain s'' where "free_old w old s' = Some s''" using free_old_inv [OF as(5,4)] by blast
  moreover from this have "wpc s'' w = Some (WIdle (Some 0))" using as(4) by (auto simp: free_old_def bind_eq_Some_conv wgoto_def wpc_def split: if_splits)
  ultimately have "rcu_step sp (EndSync w) s' = Stepped s''" "wpc s'' w = Some (WIdle (Some 0))" using as(4) by (simp_all add: stepped_def)
  then show ?thesis using as(1-3) by blast
qed


lemma rcu_run_reaches:
  assumes "rcu_reaches sp s0 s" and "\<forall>a \<in> set as. action_ok a" and "rcu_run sp as s = Stepped s'"
  shows "rcu_reaches sp s0 s'"
  using assms
proof (induction as arbitrary: s)
  case (Cons a as)
  then obtain s1 where "rcu_step sp a s = Stepped s1" "rcu_run sp as s1 = Stepped s'" by (auto split: rcu_outcome.splits)
  then show ?case using Cons rcu_next [of sp s0 s a s1] by simp
qed simp

lemma booted_prepare:
  obtains u p new h1 h2 where "load_store 0x1000 booted_heap = Some (u, p)" "prepare_op (Add (User 7)) u booted_heap = Some (0, new, h1)"
    "load_store 0x1000 h1 = Some (u, p)" "store_obj 0x1000 (KStore new p) h1 = Some h2"
proof -
  have ok: "item_ok (op_key (Add (User 7)))" by (simp add: item_ok_def)
  from booted_heap_inv obtain h' where "add_user_to_store 0x1000 7 booted_heap = Some (0, h')"
    by (cases rule: add_user_cases [where uid = 7]) (auto simp: booted_heap_contents booted_heap_alloc)
  then have "atomic_op 0x1000 (Add (User 7)) booted_heap = Some (0, h')" by simp
  then obtain u p r new h1 h2 where st: "load_store 0x1000 booted_heap = Some (u, p)" "prepare_op (Add (User 7)) u booted_heap = Some (r, new, h1)" "r = 0"
    "store_obj 0x1000 (KStore new p) h1 = Some h2"
    unfolding atomic_op_steps by (auto simp: Let_def bind_eq_Some_conv split: if_splits)
  moreover have "load_store 0x1000 h1 = Some (u, p)"
    using prepare_keeps_store [OF booted_heap_inv ok st(1)] st(2,3) by simp
  ultimately show thesis using that by blast
qed

theorem rcu_updates_finish_witness:
  "\<exists>s old as s' s''. rcu_reaches 0x1000 (all_idle booted_heap 1 1) s \<and> wpc s 0 = Some (WSync Users old {0}) \<and>
     length as \<le> 4 \<and> rcu_run 0x1000 as s = Stepped s' \<and> rcu_step 0x1000 (EndSync 0) s' = Stepped s'' \<and> wpc s'' 0 = Some (WIdle (Some 0))"
proof -
  obtain u p new h1 h2 where st: "load_store 0x1000 booted_heap = Some (u, p)" "prepare_op (Add (User 7)) u booted_heap = Some (0, new, h1)"
    "load_store 0x1000 h1 = Some (u, p)" "store_obj 0x1000 (KStore new p) h1 = Some h2" by (rule booted_prepare)
  let ?as = "[ReadLock 0 (User 7), MutexLock 0 (Add (User 7)), Prepare 0, AssignPointer 0, MutexUnlock 0, StartSync 0]"
  let ?s = "\<lparr>rheap = h2, write_lock = False, readers = [RLocked (User 7)], writers = [WSync Users u {0}]\<rparr>"
  have "rcu_run 0x1000 ?as (all_idle booted_heap 1 1) = Stepped ?s"
    using st by (simp add: all_idle_def rpc_def wpc_def rgoto_def wgoto_def stepped_def prepare_def assign_pointer_def readers_inside_def
        del: prepare_op.simps)
  then have reach: "rcu_reaches 0x1000 (all_idle booted_heap 1 1) ?s"
    by (rule rcu_run_reaches [OF rcu_start, rotated]) (simp add: item_ok_def)
  have "wpc ?s 0 = Some (WSync Users u {0})" by (simp add: wpc_def)
  from rcu_updates_finish [OF booted_heap_inv reach this] reach this show ?thesis by (simp del: rcu_run.simps rcu_step.simps) blast
qed

end
