(* ===== verification/Released.thy ===== *)
theory Released
  imports Control
begin

text \<open>
  Who may leave the queue. While the monitor is on, a thread that goes on after waiting, and was not interrupted, has been woken: its element carries the
  flag that only the timer's pass over the queue and the turn-off set. The invariant is added to the one of the theory \<open>Throttle\<close>.
\<close>

section \<open>Flags are never taken back\<close>

text \<open>No operation clears the flag of an element that its owner has not given up.\<close>

definition keeps_flags :: "queue \<Rightarrow> queue \<Rightarrow> bool" where
  "keeps_flags q q' \<longleftrightarrow> (\<forall>p. is_woken q p \<and> \<not> has_exited q p \<longrightarrow> is_woken q' p)"

lemma keeps_flags_refl [simp]: "keeps_flags q q"
  by (simp add: keeps_flags_def)

lemma keeps_flags_unqueued: "keeps_flags q (unqueued n q)"
  using mark_woken_is_woken [of "unqueued n q" _ q] by (auto simp: keeps_flags_def unqueued_def Let_def)

lemma keeps_flags_all_woken: "keeps_flags q (all_woken q)"
  using mark_woken_is_woken [of "all_woken q" _ q] by (auto simp: keeps_flags_def all_woken_def)

lemma keeps_flags_junk_freed: "keeps_flags q (junk_freed q)"
  by (simp add: keeps_flags_def junk_freed_is_woken)

lemma keeps_flags_set_exited:
  assumes "set_exited_flag p q = Some q'"
  shows "keeps_flags q q'"
  using assms
  by (auto simp: set_exited_flag_def load_def store_obj_def keeps_flags_def is_woken_def bind_eq_Some_conv split: if_splits option.splits)

lemma keeps_flags_alloc:
  assumes "queue_inv H q" and "queue_cache q" and "queue_alloc q = Some (p, q')"
  shows "keeps_flags q q'"
  using assms(1,2)
proof (cases rule: queue_alloc_cases)
  case fail
  then show ?thesis using assms(3) by (simp add: keeps_flags_def is_woken_def)
next
  case (ok p s)
  then show ?thesis using assms(3) by (auto simp: keeps_flags_def is_woken_def)
qed

lemma keeps_flags_link:
  assumes "queue_link on p q = Some (r, q')" and "\<not> is_woken q p"
  shows "keeps_flags q q'"
  using assms
  by (auto simp: queue_link_def kmem_cache_free_def kfree_def keeps_flags_def is_woken_def bind_eq_Some_conv split: if_splits option.splits)

lemma stub_step_flags:
  assumes inv: "safety_inv supported s" and t: "t < length (threads s)" and st: "stub_step supported t a s = Next s'"
  shows "keeps_flags (tqueue s) (tqueue s')"
proof -
  note hold = safety_invD(1) [OF inv, unfolded holders_inv_def]
  have c: "pc (threads s ! t) = pcs s ! t" using t by (simp add: pcs_nth)
  show ?thesis
  proof (cases a)
    case (Allocate now)
    then have "pcs s ! t = Throttled" "\<exists>p. queue_alloc (tqueue s) = Some (p, tqueue s')"
      using st by (auto simp: c allocate_def Let_def bind_eq_Some_conv split: pc.splits)
    then show ?thesis using keeps_flags_alloc cache_exists [OF inv t] hold by fastforce
  next
    case Link
    then obtain p where p: "pcs s ! t = Holding p" "\<exists>r. queue_link (working s) p (tqueue s) = Some (r, tqueue s')"
      using st by (auto simp: c link_element_def bind_eq_Some_conv split: pc.splits)
    then have "p \<in> unlinked_set (pcs s)" using t by (auto simp: unlinked_set_def intro!: exI [of _ t])
    then show ?thesis using keeps_flags_link p(2) hold by blast
  next
    case SetExited
    then show ?thesis using st by (auto simp: set_exited_def bind_eq_Some_conv intro: keeps_flags_set_exited split: pc.splits)
  qed (use st in \<open>auto simp: take_token_def evaluate_def read_flag_def measure_delay_def abort_call_def Let_def bind_eq_Some_conv split: pc.splits\<close>)
qed

lemma timer_step_flags:
  assumes inv: "safety_inv supported s" and st: "timer_step s (timer_callback_pc s) = Next s'"
  shows "keeps_flags (tqueue s) (tqueue s')"
proof -
  note q = safety_invD(1) [OF inv, unfolded holders_inv_def, THEN conjunct2, THEN conjunct1]
  show ?thesis
  proof (cases "timer_callback_pc s")
    case CbIdle
    then show ?thesis
      using st by (auto simp: start_epoch_def unqueue_eq [OF q] keeps_flags_unqueued split: if_splits)
  next
    case CbFree
    have "queue_cache (tqueue s)" using timer_cache [OF inv] CbFree by simp
    then show ?thesis using st CbFree by (auto simp: free_junk_eq [OF q] keeps_flags_junk_freed)
  qed (use st in \<open>auto simp: Let_def bind_eq_Some_conv\<close>)
qed

section \<open>What a step does to the threads\<close>

lemma stub_step_thread:
  assumes "stub_step supported t a s = Next s'" and "t < length (threads s)"
  shows "\<exists>th. threads s' = (threads s)[t := th] \<and> who th = who (threads s ! t)"
  using assms
  by (cases a)
    (auto simp: begin_call_def goto_def take_token_def allocate_def link_element_def evaluate_def read_flag_def set_exited_def
      measure_delay_def abort_call_def Let_def split: pc.splits bind_splits if_splits)

lemma timer_step_threads: "timer_step s c = Next s' \<Longrightarrow> threads s' = threads s"
  by (cases c) (auto simp: start_epoch_def Let_def split: bind_splits if_splits)

lemma admin_step_threads: "admin_step s c = Next s' \<Longrightarrow> threads s' = threads s"
  by (cases c) (auto simp: wake_up_everyone_def destroy_def split: bind_splits if_splits)

lemma step_others:
  assumes "step supported a s = Next s'" and "\<And>u b. a = Thread u b \<Longrightarrow> u \<noteq> t"
  shows "threads s' ! t = threads s ! t"
  using assms
  by (cases a) (auto simp: turn_on_def turn_off_def nth_list_update_neq split: if_splits
      dest!: stub_step_thread timer_step_threads admin_step_threads)

lemma step_who:
  assumes "step supported a s = Next s'"
  shows "length (threads s') = length (threads s) \<and> who (threads s' ! t) = who (threads s ! t)"
  using assms
  by (cases a) (auto simp: turn_on_def turn_off_def nth_list_update split: if_splits
      dest!: stub_step_thread timer_step_threads admin_step_threads)

section \<open>The invariant\<close>

definition woken_inv :: "throttle \<Rightarrow> bool" where
  "woken_inv s \<longleftrightarrow> (working s \<longrightarrow>
     (\<forall>t < length (threads s). \<forall>p. pc (threads s ! t) \<in> {Woke p 0, Exiting p 0} \<longrightarrow> is_woken (tqueue s) p))"

lemma waiting_unexited:
  assumes "safety_inv supported s" and "t < length (threads s)" and "linked (pc (threads s ! t)) = Some p"
  shows "\<not> has_exited (tqueue s) p"
proof -
  have "p \<in> linked_set (pcs s)" using assms(2,3) pcs_nth [OF assms(2)] by (auto simp: linked_set_def)
  then show ?thesis using safety_invD(1) [OF assms(1)] by (simp add: holders_inv_def)
qed

text \<open>A thread gets to \<open>Woke\<close> with the result 0 only by reading the flag, and from there to \<open>Exiting\<close>.\<close>

lemma stub_step_own:
  assumes "stub_step supported t a s = Next s'" and "t < length (threads s)" and "working s"
    and "pc (threads s' ! t) \<in> {Woke p 0, Exiting p 0}"
  shows "tqueue s' = tqueue s \<and> (is_woken (tqueue s) p \<or> pc (threads s ! t) = Woke p 0)"
  using assms
  by (cases a)
    (auto simp: begin_call_def goto_def take_token_def allocate_def link_element_def evaluate_def read_flag_def set_exited_def
      measure_delay_def abort_call_def is_woken_def load_def Let_def split: pc.splits bind_splits if_splits add_result.splits)

lemma woken_inv_step:
  assumes inv: "safety_inv supported s" and woken: "woken_inv s" and st: "step supported a s = Next s'"
  shows "woken_inv s'"
  unfolding woken_inv_def
proof (intro impI allI)
  fix t p assume on: "working s'" and "t < length (threads s')" and c: "pc (threads s' ! t) \<in> {Woke p 0, Exiting p 0}"
  then have t: "t < length (threads s)" using step_who [OF st] by simp
  have held: "is_woken (tqueue s) p \<and> \<not> has_exited (tqueue s) p" if "working s" "pc (threads s ! t) \<in> {Woke p 0, Exiting p 0}"
  proof -
    have "linked (pc (threads s ! t)) = Some p" using that(2) by auto
    then show ?thesis using waiting_unexited [OF inv t] woken t that by (auto simp: woken_inv_def)
  qed
  show "is_woken (tqueue s') p"
  proof (cases a)
    case (Thread u b)
    then have b: "u < length (threads s)" "stub_step supported u b s = Next s'" using st by (auto split: if_splits)
    have on: "working s" using on stub_step_working [OF b(2)] by simp
    show ?thesis
    proof (cases "u = t")
      case True
      then show ?thesis using stub_step_own [OF b(2) b(1) on] c held on by auto
    next
      case False
      then have "threads s' ! t = threads s ! t" using step_others [OF st] Thread by simp
      then show ?thesis using stub_step_flags [OF inv b] held on c by (auto simp: keeps_flags_def)
    qed
  next
    case Timer
    then have tm: "timer_step s (timer_callback_pc s) = Next s'" using st by simp
    have "working s" using tm on by (cases "timer_callback_pc s") (auto simp: start_epoch_def Let_def split: bind_splits if_splits)
    then show ?thesis using timer_step_flags [OF inv tm] timer_step_threads [OF tm] held c by (auto simp: keeps_flags_def)
  next
    case (TurnOn created)
    then have "s' = s" using st on by (auto simp: turn_on_def split: if_splits)
    then show ?thesis using held on c by simp
  next
    case TurnOff
    then have "s' = s" using st on by (auto simp: turn_off_def split: if_splits)
    then show ?thesis using held on c by simp
  next
    case Admin
    then have ad: "admin_step s (admin_pc s) = Next s'" using st by simp
    then have "admin_pc s = OnArmed"
      using on safety_invD(4) [OF inv] by (cases "admin_pc s") (auto simp: phase_inv_def wake_up_everyone_def destroy_def split: bind_splits if_splits)
    then have "all_outside s" using ad on safety_invD(4) [OF inv] by (auto simp: phase_inv_def)
    then have "outside (pcs s ! t)" using t by (simp add: all_outside_def)
    then show ?thesis using c admin_step_threads [OF ad] pcs_nth [OF t] by auto
  qed
qed

lemma reaches_woken: "reaches supported s0 s \<Longrightarrow> safety_inv supported s0 \<Longrightarrow> woken_inv s0 \<Longrightarrow> woken_inv s"
proof (induction rule: reaches.induct)
  case (reaches_step s a s')
  then show ?case using woken_inv_step reaches_safe by blast
qed

end
