(* ===== verification/System.thy ===== *)
theory System
  imports Userspace Trampoline Rcu Released
begin

text \<open>
  The module at work: the threads in the stub, the timer and the switches (theory \<open>Throttle\<close>) together with the store (theories \<open>Store\<close>
  and \<open>Rcu\<close>) that the stub asks about its caller and that the ioctls change meanwhile, and the trampoline (theory
  \<open>Trampoline\<close>) that acts on the stub's result. In \<open>Throttle\<close> the answer of \<open>check_if_registered\<close> is arbitrary; here it is what the
  store says at that moment, for the task's name and user. Store operations are single steps, as \<open>Rcu\<close> justifies.
\<close>

section \<open>The system\<close>

record system =
  sheap :: heap
  score :: throttle

definition limited :: "addr \<Rightarrow> heap \<Rightarrow> task \<Rightarrow> bool" where
  "limited sp h tk \<longleftrightarrow> check_if_registered sp (bytes (task_comm tk)) (task_uid tk) h = Some 1"

fun answered :: "addr \<Rightarrow> system \<Rightarrow> action \<Rightarrow> action" where
  "answered sp y (Thread t (CheckRegistered reg)) = Thread t (CheckRegistered (limited sp (sheap y) (who (threads (score y) ! t))))"
| "answered sp y a = a"

text \<open>The ways the system can take, with the store operations restricted to those in \<open>P\<close>.\<close>

inductive sys_reaches :: "addr \<Rightarrow> nat \<Rightarrow> (item member_op \<Rightarrow> bool) \<Rightarrow> system \<Rightarrow> system \<Rightarrow> bool" for sp supported P y0 where
  sys_refl: "sys_reaches sp supported P y0 y0"
| sys_core: "sys_reaches sp supported P y0 y \<Longrightarrow> well_timed (answered sp y a) (score y) \<Longrightarrow>
    step supported (answered sp y a) (score y) = Next s \<Longrightarrow> sys_reaches sp supported P y0 (y\<lparr>score := s\<rparr>)"
| sys_store: "sys_reaches sp supported P y0 y \<Longrightarrow> P oper \<Longrightarrow> atomic_op sp oper (sheap y) = Some (r, h) \<Longrightarrow>
    sys_reaches sp supported P y0 (y\<lparr>sheap := h\<rparr>)"

lemma sys_reaches_core: "sys_reaches sp supported P y0 y \<Longrightarrow> reaches supported (score y0) (score y)"
  by (induction rule: sys_reaches.induct) (auto intro: reaches_refl reaches_step)

section \<open>The store during the run\<close>

lemma same_mem_elements: "same_mem h h' \<Longrightarrow> elements sp h' = elements sp h"
  by (simp add: elements_def same_mem_contents)

lemma atomic_op_store:
  assumes inv: "store_inv sp R h" and "item_ok (op_key oper)" and res: "atomic_op sp oper h = Some (r, h')"
  shows "store_inv sp R h' \<and> (elements sp h' = elements sp h \<or> elements sp h' = member_effect oper (elements sp h))"
proof -
  have kept: ?thesis if "same_mem h h'"
    using that store_inv_same_mem [OF inv that] same_mem_elements [OF that] by simp
  consider (au) v where "oper = Add (User v)" | (ru) v where "oper = Remove (User v)"
    | (ap) n where "oper = Add (Program n)" | (rp) n where "oper = Remove (Program n)"
    by (metis item.exhaust member_op.exhaust)
  then show ?thesis
  proof cases
    case au
    show ?thesis using inv by (cases rule: add_user_cases [where uid = v]) (use au res kept in \<open>auto simp: elements_def store_frame_def\<close>)
  next
    case ru
    show ?thesis using inv by (cases rule: remove_user_cases [where uid = v]) (use ru res kept in \<open>auto simp: elements_def store_frame_def\<close>)
  next
    case ap
    then have "0 \<notin> set n" using assms(2) by (simp add: item_ok_def)
    with inv show ?thesis by (cases rule: add_program_cases [where name = n]) (use ap res kept in \<open>auto simp: elements_def store_frame_def\<close>)
  next
    case rp
    then have "0 \<notin> set n" using assms(2) by (simp add: item_ok_def)
    with inv show ?thesis by (cases rule: remove_program_cases [where name = n]) (use rp res kept in \<open>auto simp: elements_def store_frame_def\<close>)
  qed
qed

lemma limited_iff:
  assumes "store_inv sp R h" and "c_string (task_comm tk)"
  shows "limited sp h tk \<longleftrightarrow> Program (bytes (task_comm tk)) \<in> elements sp h \<or> User (task_uid tk) \<in> elements sp h"
  using assms bytes_not_null [OF assms(2)]
  by (auto simp: limited_def check_if_registered_def find_program_eq [OF assms(1)] find_user_eq [OF assms(1)] elements_def)

text \<open>While \<open>P\<close> allows no operation that would register the task, it stays unregistered.\<close>

definition keeps_out :: "task \<Rightarrow> (item member_op \<Rightarrow> bool) \<Rightarrow> bool" where
  "keeps_out tk P \<longleftrightarrow> (\<forall>oper. P oper \<longrightarrow> item_ok (op_key oper) \<and> oper \<noteq> Add (Program (bytes (task_comm tk))) \<and> oper \<noteq> Add (User (task_uid tk)))"

lemma never_limited:
  assumes "sys_reaches sp supported P y0 y" and "store_inv sp R (sheap y0)" and "c_string (task_comm tk)" and "keeps_out tk P"
    and "\<not> limited sp (sheap y0) tk"
  shows "store_inv sp R (sheap y) \<and> \<not> limited sp (sheap y) tk"
  using assms(1)
proof (induction rule: sys_reaches.induct)
  case (sys_store y oper r h)
  note IH = conjunct1 [OF sys_store.IH] conjunct2 [OF sys_store.IH]
  have ok: "item_ok (op_key oper)" "oper \<noteq> Add (Program (bytes (task_comm tk)))" "oper \<noteq> Add (User (task_uid tk))"
    using assms(4) sys_store.hyps(2) by (auto simp: keeps_out_def)
  note st = atomic_op_store [OF IH(1) ok(1) sys_store.hyps(3)]
  then show ?case
    using IH(2) ok(2,3) limited_iff [OF IH(1) assms(3)] limited_iff [of sp R h tk] assms(3) by (cases oper) auto
qed (use assms in auto)

section \<open>What a thread can be doing\<close>

text \<open>An unregistered caller never gets further than the test; and every call returns 0 or \<open>-EAGAIN\<close>,
  every wait ends with 0 or \<open>-ERESTARTSYS\<close>.\<close>

fun passing :: "pc \<Rightarrow> bool" where
  "passing (Outside r) = (r \<in> {None, Some 0})"
| "passing Entered = True"
| "passing Counted = True"
| "passing (Leaving v) = (v = 0)"
| "passing _ = False"

fun decided :: "pc \<Rightarrow> bool" where
  "decided (Outside r) = (r \<in> {None, Some 0, Some (- EAGAIN)})"
| "decided (Leaving v) = (v \<in> {0, - EAGAIN})"
| "decided (Woke p r) = (r \<in> {0, - ERESTARTSYS})"
| "decided (Exiting p r) = (r \<in> {0, - ERESTARTSYS})"
| "decided (Measuring r) = (r = 0)"
| "decided _ = True"

lemma stub_step_passing:
  assumes "stub_step supported t a s = Next s'" and "t < length (threads s)" and "passing (pc (threads s ! t))" and "a \<noteq> CheckRegistered True"
  shows "passing (pc (threads s' ! t))"
  using assms by (cases a) (auto simp: begin_call_def goto_def split: pc.splits if_splits)

lemma stub_step_decided:
  assumes "stub_step supported t a s = Next s'" and "t < length (threads s)" and "decided (pc (threads s ! t))"
  shows "decided (pc (threads s' ! t))"
  using assms
  by (cases a)
    (auto simp: begin_call_def goto_def take_token_def allocate_def link_element_def evaluate_def read_flag_def set_exited_def
      measure_delay_def abort_call_def Let_def split: pc.splits bind_splits if_splits add_result.splits)

lemma sys_thread:
  assumes "sys_reaches sp supported P y0 y"
  shows "length (threads (score y)) = length (threads (score y0)) \<and> who (threads (score y) ! t) = who (threads (score y0) ! t)"
  using assms by (induction rule: sys_reaches.induct) (auto dest: step_who [where t = t])

lemma sys_decided:
  assumes "sys_reaches sp supported P y0 y" and "t < length (threads (score y0))" and "decided (pc (threads (score y0) ! t))"
  shows "decided (pc (threads (score y) ! t))"
  using assms(1)
proof (induction rule: sys_reaches.induct)
  case (sys_core y a s)
  have t: "t < length (threads (score y))" using sys_thread [OF sys_core.hyps(1)] assms(2) by simp
  show ?case
  proof (cases "\<exists>b. answered sp y a = Thread t b")
    case True
    then obtain b where "stub_step supported t b (score y) = Next s" using sys_core.hyps(3) t by auto
    then show ?thesis using stub_step_decided t sys_core.IH by simp
  next
    case False
    then have "threads s ! t = threads (score y) ! t" by (intro step_others [OF sys_core.hyps(3)]) auto
    then show ?thesis using sys_core.IH by simp
  qed
qed (use assms(3) in simp_all)

lemma sys_passing:
  assumes reach: "sys_reaches sp supported P y0 y" and t: "t < length (threads (score y0))" and start: "passing (pc (threads (score y0) ! t))"
    and out: "store_inv sp R (sheap y0)" "c_string (task_comm (who (threads (score y0) ! t)))" "keeps_out (who (threads (score y0) ! t)) P"
      "\<not> limited sp (sheap y0) (who (threads (score y0) ! t))"
  shows "passing (pc (threads (score y) ! t))"
  using reach
proof (induction rule: sys_reaches.induct)
  case (sys_core y a s)
  have t': "t < length (threads (score y))" and w: "who (threads (score y) ! t) = who (threads (score y0) ! t)"
    using sys_thread [OF sys_core.hyps(1)] t by auto
  have free: "\<not> limited sp (sheap y) (who (threads (score y) ! t))" using never_limited [OF sys_core.hyps(1) out] w by simp
  show ?case
  proof (cases "\<exists>b. answered sp y a = Thread t b")
    case True
    then obtain b where b: "answered sp y a = Thread t b" by blast
    then have st: "stub_step supported t b (score y) = Next s" using sys_core.hyps(3) t' by auto
    have "b \<noteq> CheckRegistered True" using b free by (cases "(sp, y, a)" rule: answered.cases) auto
    then show ?thesis using stub_step_passing [OF st t'] sys_core.IH by simp
  next
    case False
    then have "threads s ! t = threads (score y) ! t" by (intro step_others [OF sys_core.hyps(3)]) auto
    then show ?thesis using sys_core.IH by simp
  qed
qed (use start in simp_all)

text \<open>A passing thread is never held up: inside the stub its next step is always possible and brings it closer to the exit.\<close>

lemma passing_can_step:
  assumes "t < length (threads (score y))" and "passing (pc (threads (score y) ! t))" and "\<not> limited sp (sheap y) (who (threads (score y) ! t))"
    and "\<not> outside (pc (threads (score y) ! t))"
  shows "\<exists>b s. step supported (answered sp y (Thread t b)) (score y) = Next s \<and> rank (pc (threads s ! t)) < rank (pc (threads (score y) ! t))"
proof (cases "pc (threads (score y) ! t)")
  case Entered then show ?thesis using assms(1) by (intro exI [of _ CountIn]) (simp add: goto_def)
next
  case Counted then show ?thesis using assms(1,3) by (intro exI [of _ "CheckRegistered False"]) (simp add: goto_def)
next
  case (Leaving v) then show ?thesis using assms(1) by (intro exI [of _ CountOut]) (simp add: goto_def)
qed (use assms in simp_all)

section \<open>Properties\<close>

text \<open>How the result of \<open>stub\<close> reaches the trampoline: an \<open>int\<close> in the low half of RAX, the upper half clear.\<close>

definition stub_returns :: "(regs \<Rightarrow> regs) \<Rightarrow> regs \<Rightarrow> int \<Rightarrow> bool" where
  "stub_returns f g v \<longleftrightarrow> follows_convention f \<and> f g RAX = ucast (of_int v :: u32)"

text \<open>A run of the core in the system, for the examples.\<close>

fun sys_run :: "addr \<Rightarrow> nat \<Rightarrow> action list \<Rightarrow> system \<Rightarrow> system option" where
  "sys_run sp supported [] y = Some y"
| "sys_run sp supported (a # as) y =
     (if well_timed (answered sp y a) (score y)
      then (case step supported (answered sp y a) (score y) of Next s \<Rightarrow> sys_run sp supported as (y\<lparr>score := s\<rparr>) | _ \<Rightarrow> None)
      else None)"

lemma sys_run_reaches:
  "sys_reaches sp supported P y0 y \<Longrightarrow> sys_run sp supported as y = Some y' \<Longrightarrow> sys_reaches sp supported P y0 y'"
  by (induction as arbitrary: y) (auto split: outcome.splits if_splits intro: sys_core)

definition sample_system :: system where
  "sample_system = \<lparr>sheap = booted_heap, score = loaded one_thread 0 (\<lambda>_. True) (\<lambda>_. True)\<rparr>"

lemma loader_unlimited: "\<not> limited 0x1000 booted_heap loader"
proof -
  have "c_string (task_comm loader)" by (simp add: loader_def c_string_def char_of_def bit_0)
  then show ?thesis using limited_iff [OF booted_heap_inv] by (auto simp: elements_def booted_heap_contents)
qed

lemma sample_call:
  "\<exists>y. sys_run 0x1000 400 [TurnOn True, Admin, Admin, Thread 0 (Call 39), Thread 0 CountIn, Thread 0 (CheckRegistered True), Thread 0 CountOut]
     sample_system = Some y \<and> pc (threads (score y) ! 0) = Outside (Some 0)"
  using loader_unlimited
  by (simp add: sample_system_def loaded_def one_thread_def turn_on_def init_queue_def run_defs)

definition passing_stub :: "regs \<Rightarrow> regs" where
  "passing_stub g = g(RAX := 0, RCX := 1)"

text \<open>C5: Whoever is not registered is not throttled. While the threads, the timer, the switches and the ioctls on the store interleave
  in any way, a task whose name and user are not in the store and are not added during the run never takes a token and never
  enters the queue: inside the stub its next step is always possible and leads towards the exit, the stub returns 0, and the
  trampoline resumes the system call with every register and the stack as they were.\<close>

theorem unregistered_calls_pass:
  assumes "sys_reaches sp supported P \<lparr>sheap = h, score = loaded ths n slab_ok stats_ok\<rparr> y"
    and "store_inv sp R h" and "fresh_threads ths" and "t < length ths"
    and "c_string (task_comm (who (ths ! t)))" and "keeps_out (who (ths ! t)) P" and "\<not> limited sp h (who (ths ! t))"
  shows "(\<not> outside (pc (threads (score y) ! t)) \<longrightarrow> (\<exists>b s. step supported (answered sp y (Thread t b)) (score y) = Next s \<and>
      rank (pc (threads s ! t)) < rank (pc (threads (score y) ! t)))) \<and>
    (\<forall>v f g body caller below c. pc (threads (score y) ! t) = Outside (Some v) \<and> stub_returns f g v \<longrightarrow> v = 0 \<and>
      (\<exists>m. exec f trampoline_code 40 (entered g body caller below c) = Returned body m \<and> regs m = g \<and> rstack m = caller # below))"
proof -
  have fresh: "passing (pc (ths ! t))" using assms(3,4) by (simp add: fresh_threads_def)
  have pass: "passing (pc (threads (score y) ! t))"
    by (rule sys_passing [OF assms(1)]) (use assms fresh in \<open>simp_all add: loaded_def\<close>)
  have th: "t < length (threads (score y))" "who (threads (score y) ! t) = who (ths ! t)"
    using sys_thread [OF assms(1), of t] assms(4) by (simp_all add: loaded_def)
  have "\<not> limited sp (sheap y) (who (ths ! t))" using never_limited [OF assms(1) _ assms(5,6)] assms(2,7) by simp
  then show ?thesis
    using passing_can_step [OF th(1) pass] th(2) pass by (auto simp: stub_returns_def trampoline_runs)
qed

theorem unregistered_calls_pass_witness:
  "\<exists>y. sys_reaches 0x1000 400 (\<lambda>oper. oper = Add (User 7)) sample_system y \<and> pc (threads (score y) ! 0) = Outside (Some 0) \<and>
    (\<exists>m. exec passing_stub trampoline_code 40 (entered (\<lambda>_. 7) 0x1005 0x2000 [3] 0) = Returned 0x1005 m \<and> regs m = (\<lambda>_. 7))"
proof -
  let ?P = "\<lambda>oper. oper = Add (User 7)"
  obtain y where y: "sys_reaches 0x1000 400 ?P sample_system y" "pc (threads (score y) ! 0) = Outside (Some 0)"
    using sample_call sys_run_reaches [OF sys_refl] by blast
  have w: "who (one_thread ! 0) = loader" by (simp add: one_thread_def)
  have k: "keeps_out loader ?P" "c_string (task_comm loader)"
    by (simp_all add: keeps_out_def item_ok_def loader_def c_string_def char_of_def bit_0)
  have "stub_returns passing_stub (\<lambda>_. 7) 0"
    by (simp add: stub_returns_def passing_stub_def follows_convention_def callee_saved_def)
  then show ?thesis
    using unregistered_calls_pass [OF y(1) [unfolded sample_system_def] booted_heap_inv one_thread_fresh, of 0] y k w loader_unlimited
    by (simp add: one_thread_def) blast
qed

text \<open>C22: What a monitored call can come to. In every state of the whole system, a call that has left the stub was either let through, and then
  the trampoline resumes its body with every register and the stack unchanged, or it was refused, and then the body is skipped, and the
  caller of the system call receives 4294967285 in RAX, all other registers unchanged.\<close>

theorem monitored_call_outcome:
  assumes "sys_reaches sp supported P \<lparr>sheap = h, score = loaded ths n slab_ok stats_ok\<rparr> y" and "fresh_threads ths" and "t < length ths"
    and "pc (threads (score y) ! t) = Outside (Some v)" and "stub_returns f g v"
  shows "\<exists>m. exec f trampoline_code 40 (entered g body caller below c) = Returned (if v = 0 then body else caller) m \<and>
    v \<in> {0, - EAGAIN} \<and> regs m = (if v = 0 then g else g(RAX := 4294967285)) \<and> stub_counter m = c \<and>
    rstack m = (if v = 0 then caller # below else below)"
proof -
  have "decided (pc (threads (score y) ! t))"
    by (rule sys_decided [OF assms(1)]) (use assms(2,3) in \<open>simp_all add: loaded_def fresh_threads_def\<close>)
  then have "v \<in> {0, - EAGAIN}" using assms(4) by simp
  then show ?thesis using assms(5) by (auto simp: stub_returns_def trampoline_runs)
qed

lemma stub_step_leaves:
  assumes "stub_step supported t b s = Next s'" and "t < length (threads s)" and "working s" and "pc (threads s' ! t) = Leaving 0"
    and "decided (pc (threads s ! t))" and "b \<noteq> CheckRegistered False"
  shows "pc (threads s ! t) = Registered \<and> 0 \<le> sint (current_epoch_tokens s - 1) \<and> admitted s' = admitted s + 1 \<or>
    pc (threads s ! t) = Measuring 0"
  using assms
  by (cases b)
    (auto simp: begin_call_def goto_def take_token_def allocate_def link_element_def queue_link_def evaluate_def read_flag_def set_exited_def
      measure_delay_def abort_call_def Let_def split: pc.splits bind_splits if_splits add_result.splits)

lemma stub_step_measures:
  assumes "stub_step supported t b s = Next s'" and "t < length (threads s)" and "pc (threads s' ! t) = Measuring r"
    and "decided (pc (threads s ! t))"
  shows "\<exists>p. pc (threads s ! t) = Exiting p 0"
  using assms
  by (cases b)
    (auto simp: begin_call_def goto_def take_token_def allocate_def link_element_def queue_link_def evaluate_def read_flag_def set_exited_def
      measure_delay_def abort_call_def Let_def split: pc.splits bind_splits if_splits add_result.splits)

text \<open>C6: There is no way around the throttle. While the monitor is on, a call of a registered task can only be let through by a
  token, and then the calls let through in this epoch together with the released waiters are still within the limit, or after waiting in the
  queue; and it leaves the queue, unless a signal fails it, only when its element has been woken. (As in the theorem on the quota,
  fewer than \<open>2^31\<close> tokens are requested in the epoch.)\<close>

theorem registered_calls_throttled:
  assumes "sys_reaches sp supported P \<lparr>sheap = h, score = loaded ths n slab_ok stats_ok\<rparr> y" and "fresh_threads ths" and "t < length ths"
    and "0 \<le> n" "n < 2 ^ 31" and "working (score y)" and "limited sp (sheap y) (who (ths ! t))"
    and "step supported (answered sp y (Thread t b)) (score y) = Next s" and "taken s < 2 ^ 31"
  shows "(pc (threads s ! t) = Leaving 0 \<longrightarrow>
      pc (threads (score y) ! t) = Registered \<and> admitted s = admitted (score y) + 1 \<and> released s + int (admitted s) \<le> n \<or>
      pc (threads (score y) ! t) = Measuring 0) \<and>
    (\<forall>r. pc (threads s ! t) = Measuring r \<longrightarrow> (\<exists>p. pc (threads (score y) ! t) = Exiting p 0 \<and> is_woken (tqueue (score y)) p))"
proof -
  have reach: "reaches supported (loaded ths n slab_ok stats_ok) (score y)" using sys_reaches_core [OF assms(1)] by simp
  have th: "t < length (threads (score y))" "who (threads (score y) ! t) = who (ths ! t)"
    using sys_thread [OF assms(1), of t] assms(3) by (simp_all add: loaded_def)
  obtain c where c: "answered sp y (Thread t b) = Thread t c" "c \<noteq> CheckRegistered False"
    using assms(7) th(2) by (cases "(sp, y, Thread t b)" rule: answered.cases) auto
  then have st: "stub_step supported t c (score y) = Next s" using assms(8) th(1) by simp
  have dec: "decided (pc (threads (score y) ! t))"
    by (rule sys_decided [OF assms(1)]) (use assms(2,3) in \<open>simp_all add: loaded_def fresh_threads_def\<close>)
  have "reaches supported (loaded ths n slab_ok stats_ok) s"
    by (rule reaches_step [OF reach _ assms(8)]) (simp add: c(1) well_timed_def)
  then have "quota_inv n s"
    by (rule reaches_quota [OF _ loaded_safe [OF assms(2)] loaded_quota [OF assms(4)] assms(4,5)])
  then have quota: "released s + int (admitted s) \<le> n" using assms(9) unfolding quota_inv_def by linarith
  have "woken_inv (score y)"
    by (rule reaches_woken [OF reach loaded_safe [OF assms(2)]]) (simp add: woken_inv_def loaded_def)
  then have "is_woken (tqueue (score y)) p" if "pc (threads (score y) ! t) = Exiting p 0" for p
    using that th(1) assms(6) by (auto simp: woken_inv_def)
  then show ?thesis
    using stub_step_leaves [OF st th(1) assms(6) _ dec c(2)] stub_step_measures [OF st th(1) _ dec] quota by blast
qed

text \<open>An example: the loader's user is registered, the timer opens an epoch of five tokens, and the loader's call takes one.\<close>

lemma registered_loader:
  obtains h where "atomic_op 0x1000 (Add (User 1000)) booted_heap = Some (0, h)" "limited 0x1000 h loader"
proof -
  have c: "c_string (task_comm loader)" "task_uid loader = 1000" by (simp_all add: loader_def c_string_def char_of_def bit_0)
  obtain h where h: "add_user_to_store 0x1000 1000 booted_heap = Some (0, h)" "store_inv 0x1000 {} h" "store_users 0x1000 h = {1000}"
    using booted_heap_inv by (cases rule: add_user_cases [where uid = 1000]) (auto simp: booted_heap_contents booted_heap_alloc store_frame_def)
  then have "limited 0x1000 h loader" using limited_iff [OF h(2) c(1)] c(2) by (auto simp: elements_def)
  then show thesis using that h(1) by simp
qed

definition token_calls :: "action list" where
  "token_calls = [TurnOn True, Admin, Admin, Timer, Timer, Timer, Timer, Thread 0 (Call 39), Thread 0 CountIn, Thread 0 (CheckRegistered True)]"

lemma token_taken:
  assumes "limited 0x1000 h loader"
  shows "\<exists>y s. sys_run 0x1000 400 token_calls \<lparr>sheap = h, score = loaded one_thread 5 (\<lambda>_. True) (\<lambda>_. True)\<rparr> = Some y \<and> sheap y = h \<and> working (score y) \<and>
    step 400 (answered 0x1000 y (Thread 0 TakeToken)) (score y) = Next s \<and> pc (threads (score y) ! 0) = Registered \<and> pc (threads s ! 0) = Leaving 0 \<and> taken s = 1"
  using assms
  by (simp add: token_calls_def loaded_def one_thread_def turn_on_def init_queue_def run_defs start_epoch_def unqueue_def
      update_epoch_stats_def empty_statmon_def)

theorem registered_calls_throttled_witness:
  "\<exists>h y s. sys_reaches 0x1000 400 (\<lambda>_. True) \<lparr>sheap = h, score = loaded one_thread 5 (\<lambda>_. True) (\<lambda>_. True)\<rparr> y \<and>
    step 400 (answered 0x1000 y (Thread 0 TakeToken)) (score y) = Next s \<and> admitted s = admitted (score y) + 1 \<and> released s + int (admitted s) \<le> 5"
proof -
  obtain h where h: "limited 0x1000 h loader" by (rule registered_loader)
  obtain y s where y: "sys_run 0x1000 400 token_calls \<lparr>sheap = h, score = loaded one_thread 5 (\<lambda>_. True) (\<lambda>_. True)\<rparr> = Some y" "sheap y = h"
    "working (score y)" "step 400 (answered 0x1000 y (Thread 0 TakeToken)) (score y) = Next s"
    "pc (threads (score y) ! 0) = Registered" "pc (threads s ! 0) = Leaving 0" "taken s = 1"
    using token_taken [OF h] by blast
  have reach: "sys_reaches 0x1000 400 (\<lambda>_. True) \<lparr>sheap = h, score = loaded one_thread 5 (\<lambda>_. True) (\<lambda>_. True)\<rparr> y"
    by (rule sys_run_reaches [OF sys_refl y(1)])
  have "admitted s = admitted (score y) + 1 \<and> released s + int (admitted s) \<le> 5"
    using registered_calls_throttled [OF reach one_thread_fresh, of 0 TakeToken s] y h by (simp add: one_thread_def del: step.simps)
  then show ?thesis using reach y(4) by blast
qed

definition refused_calls :: "action list" where
  "refused_calls = [TurnOn True, Admin, Admin, Thread 0 (Call 39), Thread 0 CountIn, Thread 0 (CheckRegistered True), Thread 0 TakeToken,
     Thread 0 (Allocate 0), Thread 0 Link, Thread 0 Signal, Thread 0 Recheck, Thread 0 SetExited, Thread 0 Abort, Thread 0 CountOut]"

lemma call_refused:
  assumes "limited 0x1000 h loader"
  shows "\<exists>y. sys_run 0x1000 400 refused_calls \<lparr>sheap = h, score = loaded one_thread 0 (\<lambda>_. True) (\<lambda>_. True)\<rparr> = Some y \<and>
    pc (threads (score y) ! 0) = Outside (Some (- EAGAIN))"
  using assms
  by (simp add: refused_calls_def loaded_def one_thread_def turn_on_def init_queue_def run_defs set_exited_def set_exited_flag_def load_def store_obj_def
      abort_call_def sysThrot_add_aborted_def with_entry_def find_or_create_entry_locked_def find_entry_locked_def edit_entry_def empty_statmon_def)

theorem monitored_call_outcome_witness:
  "\<exists>h y m. sys_reaches 0x1000 400 (\<lambda>_. True) \<lparr>sheap = h, score = loaded one_thread 0 (\<lambda>_. True) (\<lambda>_. True)\<rparr> y \<and>
    exec blocking_stub trampoline_code 40 (entered (\<lambda>_. 7) 0x1005 0x2000 [3] 0) = Returned 0x2000 m \<and> regs m RAX = 4294967285 \<and> regs m RDI = 7"
proof -
  obtain h where h: "limited 0x1000 h loader" by (rule registered_loader)
  let ?y0 = "\<lparr>sheap = h, score = loaded one_thread 0 (\<lambda>_. True) (\<lambda>_. True)\<rparr>"
  obtain y where y: "sys_run 0x1000 400 refused_calls ?y0 = Some y" "pc (threads (score y) ! 0) = Outside (Some (- EAGAIN))"
    using call_refused [OF h] by blast
  have reach: "sys_reaches 0x1000 400 (\<lambda>_. True) ?y0 y" by (rule sys_run_reaches [OF sys_refl y(1)])
  have "stub_returns blocking_stub (\<lambda>_. 7) (- EAGAIN)"
    using blocking_stub_convention by (simp add: stub_returns_def blocking_stub_def)
  then have "\<exists>m. exec blocking_stub trampoline_code 40 (entered (\<lambda>_. 7) 0x1005 0x2000 [3] 0) = Returned 0x2000 m \<and> regs m = (\<lambda>_. 7)(RAX := 4294967285)"
    using monitored_call_outcome [OF reach one_thread_fresh _ y(2), of blocking_stub "\<lambda>_. 7" "0x1005" "0x2000" "[3]" 0] by (auto simp: one_thread_def)
  then show ?thesis using reach by force
qed

end
